(* ===== verification/Prelude.thy ===== *)
theory Prelude
  imports Main "HOL-Library.Word" "HOL-Library.AList"
begin

text \<open>
  What every component shares: the ranges of the fixed-width C++ integers, the result type that
  models \<open>std::expected\<close>, the search and erase operations of the standard sequence containers,
  and the collections of facts the component theories fill.

  Integers: a \<open>std::int64_t\<close> is an \<open>int\<close>, because the program never relies on signed
  wrap-around (it would be undefined behaviour): wherever it adds, the bound is proved. A
  \<open>std::uint64_t\<close> or \<open>std::uint32_t\<close> whose arithmetic may wrap is a word of that width, and
  a \<open>std::size_t\<close> that only counts elements is a \<open>nat\<close>.
\<close>

section \<open>Collections of facts\<close>

named_theorems queue_simps \<open>effects of the queue operations on the entries\<close>

section \<open>Fixed-width ranges\<close>

definition int64_max :: int where
  "int64_max = 9223372036854775807"

definition int64_min :: int where
  "int64_min = - 9223372036854775808"

definition int64_range :: "int \<Rightarrow> bool" where
  "int64_range v \<longleftrightarrow> int64_min \<le> v \<and> v \<le> int64_max"

type_synonym uint64 = "64 word"
type_synonym uint32 = "32 word"

definition uint64_max :: uint64 where
  "uint64_max = 18446744073709551615"

lemma unat_uint64_max: "unat uint64_max = 2 ^ 64 - 1"
  by (simp add: uint64_max_def)

lemma unat_uint64_less: "unat (a :: uint64) < 2 ^ 64"
  using unsigned_less [of a, where 'a = nat] by simp

lemma uint64_le_max [simp]: "(a :: uint64) \<le> uint64_max"
  using unat_uint64_less [of a] by (simp add: word_le_nat_alt unat_uint64_max)

lemma int64_range_nonneg [intro]: "0 \<le> v \<Longrightarrow> v \<le> int64_max \<Longrightarrow> int64_range v"
  by (simp add: int64_range_def int64_min_def)

lemma uint64_add_no_wrap:
  fixes a b :: uint64
  assumes "\<not> b > uint64_max - a"
  shows "unat (a + b) = unat a + unat b"
proof -
  have "unat (uint64_max - a) = 2 ^ 64 - 1 - unat a"
    by (simp add: unat_sub unat_uint64_max)
  then have "unat b \<le> 2 ^ 64 - 1 - unat a"
    using assms by (simp add: word_le_nat_alt not_less)
  with unat_uint64_less [of a] have "unat a + unat b < 2 ^ 64"
    by linarith
  then show ?thesis by (simp add: unat_word_ariths)
qed

section \<open>Results of fallible operations\<close>

text \<open>
  \<open>std::expected<T, E>\<close> is \<open>E + T\<close>: \<open>Inl\<close> is \<open>std::unexpected\<close>, \<open>Inr\<close> a value.
\<close>

definition has_value :: "'e + 'a \<Rightarrow> bool" where
  "has_value r \<longleftrightarrow> (case r of Inl e \<Rightarrow> False | Inr v \<Rightarrow> True)"

lemma has_value_simps [simp]: "has_value (Inr v)" "\<not> has_value (Inl e)"
  by (simp_all add: has_value_def)

lemma has_value_iff: "has_value r \<longleftrightarrow> (\<exists>v. r = Inr v)"
  by (cases r) simp_all

section \<open>Sequence containers\<close>

text \<open>
  \<open>std::ranges::find_if\<close> returns an iterator to the first element that satisfies the
  predicate; here its index, or \<open>None\<close> for \<open>end()\<close>. \<open>erase(it)\<close> removes one element.
\<close>

fun find_if :: "('a \<Rightarrow> bool) \<Rightarrow> 'a list \<Rightarrow> nat option" where
  "find_if p [] = None"
| "find_if p (x # xs) = (if p x then Some 0 else map_option Suc (find_if p xs))"

definition erase_at :: "nat \<Rightarrow> 'a list \<Rightarrow> 'a list" where
  "erase_at i xs = take i xs @ drop (Suc i) xs"

lemma erase_at_simps [simp]:
  "erase_at i [] = []" "erase_at 0 (x # xs) = xs" "erase_at (Suc i) (x # xs) = x # erase_at i xs"
  by (simp_all add: erase_at_def)

lemma find_if_None [simp]: "find_if p xs = None \<longleftrightarrow> (\<forall>x \<in> set xs. \<not> p x)"
  by (induction xs) auto

lemma find_if_SomeD:
  "find_if p xs = Some i \<Longrightarrow> i < length xs \<and> p (xs ! i) \<and> (\<forall>j < i. \<not> p (xs ! j))"
proof (induction xs arbitrary: i)
  case Nil
  then show ?case by simp
next
  case (Cons x xs)
  show ?case
  proof (cases "p x")
    case True
    with Cons.prems show ?thesis by simp
  next
    case False
    with Cons.prems obtain k where k: "find_if p xs = Some k" "i = Suc k" by auto
    with Cons.IH [OF k(1)] False show ?thesis
      by (auto simp: less_Suc_eq_0_disj)
  qed
qed

lemma find_if_case:
  "(case find_if p xs of None \<Rightarrow> y | Some i \<Rightarrow> z) = (if \<exists>x \<in> set xs. p x then z else y)"
proof (cases "find_if p xs")
  case None
  from None have "\<not> (\<exists>x \<in> set xs. p x)" by simp
  then show ?thesis unfolding None by simp
next
  case (Some i)
  with find_if_SomeD [OF Some] have "\<exists>x \<in> set xs. p x" by (blast intro: nth_mem)
  with Some show ?thesis by simp
qed

text \<open>The element found splits the sequence into elements that do not qualify, it, and the rest.\<close>

lemma find_if_split:
  assumes "find_if p xs = Some i"
  obtains ys x zs where "xs = ys @ x # zs" "length ys = i" "p x" "\<forall>y \<in> set ys. \<not> p y"
    "erase_at i xs = ys @ zs" "xs ! i = x"
proof -
  from find_if_SomeD [OF assms] have i: "i < length xs" "p (xs ! i)" "\<forall>j < i. \<not> p (xs ! j)"
    by auto
  show thesis
  proof (rule that [of "take i xs" "xs ! i" "drop (Suc i) xs"])
    show "xs = take i xs @ xs ! i # drop (Suc i) xs" by (rule id_take_nth_drop [OF i(1)])
    show "length (take i xs) = i" using i(1) by simp
    show "p (xs ! i)" by (rule i(2))
    show "\<forall>y \<in> set (take i xs). \<not> p y" using i(3) by (auto simp: in_set_conv_nth)
    show "erase_at i xs = take i xs @ drop (Suc i) xs" by (simp add: erase_at_def)
    show "xs ! i = xs ! i" ..
  qed
qed

lemma erase_at_filter_same:
  assumes "find_if p xs = Some i" "\<And>x. q x \<Longrightarrow> \<not> p x"
  shows "filter q (erase_at i xs) = filter q xs"
  using assms(1) by (rule find_if_split) (use assms(2) in auto)

lemma length_erase_at [simp]: "i < length xs \<Longrightarrow> length (erase_at i xs) = length xs - 1"
  by (simp add: erase_at_def)

lemma set_erase_at_subset: "set (erase_at i xs) \<subseteq> set xs"
  by (auto simp: erase_at_def dest: in_set_takeD in_set_dropD)

lemma map_erase_at: "map f (erase_at i xs) = erase_at i (map f xs)"
  by (simp add: erase_at_def take_map drop_map)

lemma distinct_erase_at: "distinct xs \<Longrightarrow> distinct (erase_at i xs)"
  by (auto simp: erase_at_def set_take_disj_set_drop_if_distinct)

lemma length_takeWhile_dropWhile:
  "length (takeWhile p xs) + length (dropWhile p xs) = length xs"
  by (metis length_append takeWhile_dropWhile_id)

lemma takeWhile_dropWhile_Nil [simp]: "takeWhile p (dropWhile p xs) = []"
  by (metis hd_dropWhile takeWhile_eq_Nil_iff)

lemma takeWhile_block:
  assumes "\<forall>y \<in> set ys. p y" "takeWhile p zs = []"
  shows "takeWhile p (ys @ zs) = ys" "dropWhile p (ys @ zs) = zs"
proof -
  have "dropWhile p zs = zs" using takeWhile_dropWhile_id [of p zs] assms(2) by simp
  with assms show "takeWhile p (ys @ zs) = ys" "dropWhile p (ys @ zs) = zs"
    by (induction ys) simp_all
qed

lemma sorted_between:
  fixes f :: "'a \<Rightarrow> 'k::linorder"
  assumes "sorted (map f (ys @ zs))" "\<forall>y \<in> set ys. f y \<le> f x" "\<forall>z \<in> set zs. f x \<le> f z"
  shows "sorted (map f (ys @ [x] @ zs))"
  using assms by (auto simp: sorted_append)

lemma sorted_last:
  fixes f :: "'a \<Rightarrow> 'k::linorder"
  assumes "sorted (map f xs)" "y \<in> set xs"
  shows "f y \<le> f (last xs)"
  using assms by (induction xs) (auto split: if_splits)

section \<open>Keyed containers\<close>

text \<open>
  An \<open>std::unordered_map\<close> is an association list with distinct keys: the list order is the
  (unspecified) iteration order, \<open>find\<close> is \<open>map_of\<close> and assigning through an iterator is
  \<open>AList.update\<close>, which keeps the position of an existing key.
\<close>

definition keys_distinct :: "('k \<times> 'v) list \<Rightarrow> bool" where
  "keys_distinct al \<longleftrightarrow> distinct (map fst al)"

lemma keys_distinct_update [simp]:
  "keys_distinct al \<Longrightarrow> keys_distinct (AList.update k v al)"
  by (simp add: keys_distinct_def distinct_update)

lemma keys_distinct_Cons [simp]:
  "keys_distinct ((k, v) # al) \<longleftrightarrow> map_of al k = None \<and> keys_distinct al"
  by (auto simp: keys_distinct_def map_of_eq_None_iff)

lemma keys_distinct_Nil [simp]: "keys_distinct []"
  by (simp add: keys_distinct_def)

end
