(* ===== verification/Cxx_Double.thy ===== *)
theory Cxx_Double
  imports Complex_Main Prelude
begin

text \<open>
  The C++ type \<open>double\<close> as the program uses it: IEEE 754 binary64 with rounding to nearest, ties
  to even, and every operation rounded once (no fused multiply-add, no extended precision).
  A finite value is a sign, a significand below \<open>2 ^ 53\<close> and an exponent of two, so the signed
  zeros and the subnormals are there; the payload and the sign of a NaN are not kept. All
  operations are executable on numerals; \<open>f64_real\<close> gives a finite value its real number and
  is used in proofs only.
\<close>

section \<open>Values\<close>

datatype f64 = NaN | Infinite bool | Finite bool nat int

definition isfinite :: "f64 \<Rightarrow> bool" where
  "isfinite x = (case x of Finite _ _ _ \<Rightarrow> True | _ \<Rightarrow> False)"

lemma isfinite_simps [simp]:
  "isfinite (Finite s m e)" "\<not> isfinite NaN" "\<not> isfinite (Infinite s)"
  by (simp_all add: isfinite_def)

lemma isfiniteE [elim]:
  assumes "isfinite x"
  obtains s m e where "x = Finite s m e"
  using assms by (cases x) simp_all

text \<open>The members of binary64: the significand is normalised unless the exponent is minimal.\<close>

definition f64_canonical :: "f64 \<Rightarrow> bool" where
  "f64_canonical x = (case x of
     Finite s m e \<Rightarrow> m < 2 ^ 53 \<and> - 1074 \<le> e \<and> e \<le> 971 \<and> (2 ^ 52 \<le> m \<or> e = - 1074)
   | _ \<Rightarrow> True)"

definition f64_zero :: "bool \<Rightarrow> f64" where
  "f64_zero s = Finite s 0 (- 1074)"

section \<open>Rounding a ratio\<close>

fun bit_len :: "nat \<Rightarrow> nat" where
  "bit_len n = (if n = 0 then 0 else Suc (bit_len (n div 2)))"

declare bit_len.simps [simp del]

text \<open>\<open>ratio_exp n d\<close> is the binary exponent of \<open>n / d\<close>, for positive \<open>n\<close> and \<open>d\<close>.\<close>

definition ratio_exp :: "nat \<Rightarrow> nat \<Rightarrow> int" where
  "ratio_exp n d =
     (let k = int (bit_len n) - int (bit_len d)
      in if d * 2 ^ nat k \<le> n * 2 ^ nat (- k) then k else k - 1)"

text \<open>\<open>rne_div n d\<close> is the integer nearest to \<open>n / d\<close>, the even one of two equally near.\<close>

definition rne_div :: "nat \<Rightarrow> nat \<Rightarrow> nat" where
  "rne_div n d =
     (let q = n div d; r = n mod d
      in if 2 * r < d then q else if d < 2 * r then q + 1 else if even q then q else q + 1)"

definition f64_pack :: "bool \<Rightarrow> nat \<Rightarrow> int \<Rightarrow> f64" where
  "f64_pack s q e = (if e > 971 then Infinite s else Finite s q e)"

definition f64_round :: "bool \<Rightarrow> nat \<Rightarrow> nat \<Rightarrow> f64" where
  "f64_round s n d =
     (if n = 0 then f64_zero s
      else let e = max (ratio_exp n d - 52) (- 1074);
               q = rne_div (n * 2 ^ nat (- e)) (d * 2 ^ nat e)
           in if q = 2 ^ 53 then f64_pack s (2 ^ 52) (e + 1) else f64_pack s q e)"

section \<open>Operations\<close>

text \<open>\<open>static_cast<double>\<close> of an unsigned integer.\<close>

definition f64_of_nat :: "nat \<Rightarrow> f64" where
  "f64_of_nat n = f64_round False n 1"

definition signed_int :: "bool \<Rightarrow> nat \<Rightarrow> int" where
  "signed_int s m = (if s then - int m else int m)"

fun f64_add :: "f64 \<Rightarrow> f64 \<Rightarrow> f64" where
  "f64_add NaN y = NaN"
| "f64_add x NaN = NaN"
| "f64_add (Infinite s) (Infinite t) = (if s = t then Infinite s else NaN)"
| "f64_add (Infinite s) (Finite _ _ _) = Infinite s"
| "f64_add (Finite _ _ _) (Infinite t) = Infinite t"
| "f64_add (Finite s m e) (Finite t n f) =
     (let g = min e f;
          i = signed_int s m * 2 ^ nat (e - g) + signed_int t n * 2 ^ nat (f - g)
      in if i = 0 then f64_zero (s \<and> t)
         else f64_round (i < 0) (nat \<bar>i\<bar> * 2 ^ nat g) (2 ^ nat (- g)))"

fun f64_mul :: "f64 \<Rightarrow> f64 \<Rightarrow> f64" where
  "f64_mul NaN y = NaN"
| "f64_mul x NaN = NaN"
| "f64_mul (Infinite s) (Infinite t) = Infinite (s \<noteq> t)"
| "f64_mul (Infinite s) (Finite t n f) = (if n = 0 then NaN else Infinite (s \<noteq> t))"
| "f64_mul (Finite s m e) (Infinite t) = (if m = 0 then NaN else Infinite (s \<noteq> t))"
| "f64_mul (Finite s m e) (Finite t n f) =
     f64_round (s \<noteq> t) (m * n * 2 ^ nat (e + f)) (2 ^ nat (- (e + f)))"

fun f64_div :: "f64 \<Rightarrow> f64 \<Rightarrow> f64" where
  "f64_div NaN y = NaN"
| "f64_div x NaN = NaN"
| "f64_div (Infinite s) (Infinite t) = NaN"
| "f64_div (Infinite s) (Finite t n f) = Infinite (s \<noteq> t)"
| "f64_div (Finite s m e) (Infinite t) = f64_zero (s \<noteq> t)"
| "f64_div (Finite s m e) (Finite t n f) =
     (if n = 0 then (if m = 0 then NaN else Infinite (s \<noteq> t))
      else f64_round (s \<noteq> t) (m * 2 ^ nat (e - f)) (n * 2 ^ nat (f - e)))"

fun f64_less :: "f64 \<Rightarrow> f64 \<Rightarrow> bool" where
  "f64_less NaN y = False"
| "f64_less x NaN = False"
| "f64_less (Infinite s) (Infinite t) = (s \<and> \<not> t)"
| "f64_less (Infinite s) (Finite _ _ _) = s"
| "f64_less (Finite _ _ _) (Infinite t) = (\<not> t)"
| "f64_less (Finite s m e) (Finite t n f) =
     (let g = min e f
      in signed_int s m * 2 ^ nat (e - g) < signed_int t n * 2 ^ nat (f - g))"

text \<open>\<open>std::max(a, b)\<close> and \<open>std::min(a, b)\<close>, which return the first argument on a tie.\<close>

definition std_max :: "f64 \<Rightarrow> f64 \<Rightarrow> f64" where
  "std_max a b = (if f64_less a b then b else a)"

definition std_min :: "f64 \<Rightarrow> f64 \<Rightarrow> f64" where
  "std_min a b = (if f64_less b a then b else a)"

section \<open>The exponent of a ratio\<close>

lemma bit_len_numeral [simp]:
  "bit_len 0 = 0" "bit_len 1 = 1" "bit_len (Suc 0) = 1"
  "bit_len (numeral k) = Suc (bit_len (numeral k div 2))"
  by (simp_all add: bit_len.simps)

lemma bit_len_bounds:
  assumes "0 < n"
  shows "0 < bit_len n" "2 ^ (bit_len n - 1) \<le> n" "n < 2 ^ bit_len n"
proof -
  from assms have "0 < bit_len n \<and> 2 ^ (bit_len n - 1) \<le> n \<and> n < 2 ^ bit_len n"
  proof (induction n rule: bit_len.induct)
    case (1 n)
    show ?case
    proof (cases "n = 1")
      case True
      then show ?thesis by simp
    next
      case False
      with 1 have IH: "0 < bit_len (n div 2)" "2 ^ (bit_len (n div 2) - 1) \<le> n div 2"
        "n div 2 < 2 ^ bit_len (n div 2)" by auto
      have eq: "bit_len n = Suc (bit_len (n div 2))" using 1(2) by (simp add: bit_len.simps [of n])
      have "2 * 2 ^ (bit_len (n div 2) - 1) \<le> 2 * (n div 2)" using IH(2) by simp
      then have "2 ^ bit_len (n div 2) \<le> 2 * (n div 2)"
        using IH(1) by (simp add: power_eq_if)
      then show ?thesis using IH(3) by (simp add: eq) linarith
    qed
  qed
  then show "0 < bit_len n" "2 ^ (bit_len n - 1) \<le> n" "n < 2 ^ bit_len n" by auto
qed

lemma bit_len_real:
  assumes "0 < n"
  shows "2 powi (int (bit_len n) - 1) \<le> real n" "real n < 2 powi int (bit_len n)"
proof -
  note b = bit_len_bounds [OF assms]
  have "real (2 ^ (bit_len n - 1)) \<le> real n" using b(2) by (simp only: of_nat_le_iff)
  moreover have "2 powi (int (bit_len n) - 1) = real (2 ^ (bit_len n - 1))"
    using b(1) by (cases "bit_len n") simp_all
  ultimately show "2 powi (int (bit_len n) - 1) \<le> real n" by (simp only:)
  have "real n < real (2 ^ bit_len n)" using b(3) by (simp only: of_nat_less_iff)
  then show "real n < 2 powi int (bit_len n)" by simp
qed

lemma powi_two_nat: "(2::real) powi k = 2 ^ nat k / 2 ^ nat (- k)"
  by (cases "0 \<le> k") (simp_all add: power_int_def field_simps)

lemma ratio_exp_bounds:
  assumes "0 < n" "0 < d"
  shows "2 powi ratio_exp n d \<le> real n / real d" "real n / real d < 2 powi (ratio_exp n d + 1)"
proof -
  let ?a = "bit_len n" and ?b = "bit_len d"
  define k where "k = int ?a - int ?b"
  note n = bit_len_real [OF assms(1)] and d = bit_len_real [OF assms(2)]
  have "2 powi (int ?a - 1) / 2 powi int ?b \<le> real n / real d"
    using n d assms by (intro frac_le) simp_all
  moreover have "(2::real) powi (int ?a - 1) / 2 powi int ?b = 2 powi (k - 1)"
    by (subst power_int_diff [symmetric]) (simp_all add: k_def algebra_simps)
  ultimately have lo: "2 powi (k - 1) \<le> real n / real d" by (simp only:)
  have "real n / real d < 2 powi int ?a / 2 powi (int ?b - 1)"
    using n d assms by (intro frac_less) simp_all
  moreover have "(2::real) powi int ?a / 2 powi (int ?b - 1) = 2 powi (k + 1)"
    by (subst power_int_diff [symmetric]) (simp_all add: k_def algebra_simps)
  ultimately have hi: "real n / real d < 2 powi (k + 1)" by (simp only:)
  have cmp: "d * 2 ^ nat k \<le> n * 2 ^ nat (- k) \<longleftrightarrow> 2 powi k \<le> real n / real d"
  proof -
    have "2 powi k \<le> real n / real d \<longleftrightarrow> real d * 2 ^ nat k \<le> real n * 2 ^ nat (- k)"
      using assms by (simp add: powi_two_nat [of k] field_simps)
    also have "\<dots> \<longleftrightarrow> real (d * 2 ^ nat k) \<le> real (n * 2 ^ nat (- k))" by simp
    finally show ?thesis by (simp only: of_nat_le_iff)
  qed
  show "2 powi ratio_exp n d \<le> real n / real d" "real n / real d < 2 powi (ratio_exp n d + 1)"
    using lo hi by (auto simp: ratio_exp_def Let_def k_def [symmetric] cmp not_le)
qed

section \<open>Rounding to an integer\<close>

definition rne :: "real \<Rightarrow> int" where
  "rne x =
     (let f = \<lfloor>x\<rfloor>
      in if x - real_of_int f < 1 / 2 then f else if 1 / 2 < x - real_of_int f then f + 1
      else if even f then f else f + 1)"

lemma rne_of_int [simp]: "rne (of_int i) = i"
  by (simp add: rne_def)

lemma rne_bounds: "\<lfloor>x\<rfloor> \<le> rne x" "rne x \<le> \<lfloor>x\<rfloor> + 1"
  by (simp_all add: rne_def Let_def)

lemma rne_mono: "x \<le> y \<Longrightarrow> rne x \<le> rne y"
proof -
  assume le: "x \<le> y"
  show ?thesis
  proof (cases "\<lfloor>x\<rfloor> = \<lfloor>y\<rfloor>")
    case True
    with le show ?thesis by (simp add: rne_def Let_def)
  next
    case False
    with floor_mono [OF le] have "\<lfloor>x\<rfloor> + 1 \<le> \<lfloor>y\<rfloor>" by simp
    with rne_bounds [of x] rne_bounds [of y] show ?thesis by linarith
  qed
qed

lemma rne_error: "\<bar>of_int (rne x) - x\<bar> \<le> 1 / 2"
  unfolding rne_def Let_def by (auto simp: abs_if) linarith+

lemma rne_div_real:
  assumes "0 < d"
  shows "int (rne_div n d) = rne (real n / real d)"
proof -
  have f: "\<lfloor>real n / real d\<rfloor> = int (n div d)" by (rule floor_divide_of_nat_eq)
  have "real n = real (n div d) * real d + real (n mod d)"
    by (metis mod_div_mult_eq of_nat_add of_nat_mult add.commute)
  then have r: "real n / real d - of_int (int (n div d)) = real (n mod d) / real d"
    using assms by (simp add: field_simps)
  have c1: "real (n mod d) / real d < 1 / 2 \<longleftrightarrow> 2 * (n mod d) < d"
    using assms by (simp add: field_simps) (metis of_nat_less_iff of_nat_mult of_nat_numeral mult.commute)
  have c2: "1 / 2 < real (n mod d) / real d \<longleftrightarrow> d < 2 * (n mod d)"
    using assms by (simp add: field_simps) (metis of_nat_less_iff of_nat_mult of_nat_numeral mult.commute)
  show ?thesis
    unfolding rne_def f Let_def r c1 c2 by (simp add: rne_div_def Let_def)
qed

section \<open>Rounding on the real numbers\<close>

text \<open>
  \<open>f64_rnd x\<close> is the nearest multiple of \<open>2 powi f64_grid x\<close> for a real \<open>x \<ge> 0\<close>: what
  \<open>f64_round\<close> computes, unless it overflows. It is monotone and exact on the values that have
  at most 53 significant bits; every bound on a floating-point result below follows from these.
\<close>

definition f64_grid :: "real \<Rightarrow> int" where
  "f64_grid x = max (\<lfloor>log 2 x\<rfloor> - 52) (- 1074)"

definition f64_rnd :: "real \<Rightarrow> real" where
  "f64_rnd x = of_int (rne (x / 2 powi f64_grid x)) * 2 powi f64_grid x"

lemma powr_two_powi: "(2::real) powr real_of_int k = 2 powi k"
  using powr_real_of_int' [of 2 k] by simp

lemma log2_floor_iff:
  assumes "0 < x"
  shows "\<lfloor>log 2 x\<rfloor> = k \<longleftrightarrow> 2 powi k \<le> x \<and> x < 2 powi (k + 1)"
proof -
  have "real_of_int k + 1 = real_of_int (k + 1)" by simp
  with floor_log_eq_powr_iff [of x 2 k] assms show ?thesis by (simp only: powr_two_powi)
qed

lemma log2_floor_eq:
  assumes "2 powi k \<le> x" "x < 2 powi (k + 1)"
  shows "\<lfloor>log 2 x\<rfloor> = k"
proof -
  have "0 < x" using assms(1) by (rule less_le_trans [rotated]) simp
  then show ?thesis
    using assms log2_floor_iff by blast
qed

lemma log2_floor_bounds:
  assumes "0 < x"
  shows "2 powi \<lfloor>log 2 x\<rfloor> \<le> x" "x < 2 powi (\<lfloor>log 2 x\<rfloor> + 1)"
  using log2_floor_iff [OF assms, of "\<lfloor>log 2 x\<rfloor>"] by blast+

lemma powi_two_mono: "j \<le> k \<Longrightarrow> (2::real) powi j \<le> 2 powi k"
  by (rule power_int_increasing) simp_all

lemma f64_grid_mono: "0 < x \<Longrightarrow> x \<le> y \<Longrightarrow> f64_grid x \<le> f64_grid y"
  unfolding f64_grid_def by (intro max.mono diff_mono floor_mono) simp_all

lemma f64_grid_upper: "0 < x \<Longrightarrow> x < 2 powi (f64_grid x + 53)"
proof -
  assume "0 < x"
  then have "x < 2 powi (\<lfloor>log 2 x\<rfloor> + 1)" by (rule log2_floor_bounds)
  also have "\<dots> \<le> 2 powi (f64_grid x + 53)"
    by (rule powi_two_mono) (simp add: f64_grid_def)
  finally show ?thesis .
qed

lemma f64_grid_lower: "0 < x \<Longrightarrow> f64_grid x > - 1074 \<Longrightarrow> 2 powi (f64_grid x + 52) \<le> x"
proof -
  assume x: "0 < x" "f64_grid x > - 1074"
  then have "f64_grid x + 52 = \<lfloor>log 2 x\<rfloor>" by (simp add: f64_grid_def)
  then show ?thesis using log2_floor_bounds(1) [OF x(1)] by simp
qed

lemma powi_split: "(2::real) powi (g + k) = 2 powi k * 2 powi g"
  by (simp add: power_int_add)

lemma powi_nat_mult: "g \<le> e \<Longrightarrow> (2::real) ^ nat (e - g) * 2 powi g = 2 powi e"
proof -
  assume "g \<le> e"
  then have "(2::real) ^ nat (e - g) = 2 powi (e - g)" by (simp add: power_int_def)
  then show ?thesis by (simp add: power_int_diff)
qed

lemma f64_rnd_zero [simp]: "f64_rnd 0 = 0"
  by (simp add: f64_rnd_def rne_def)

lemma rne_le_int: "x \<le> of_int i \<Longrightarrow> rne x \<le> i"
  using rne_mono [of x "of_int i"] by simp

lemma rne_ge_int: "of_int i \<le> x \<Longrightarrow> i \<le> rne x"
  using rne_mono [of "of_int i" x] by simp

lemma f64_rnd_nonneg: "0 \<le> x \<Longrightarrow> 0 \<le> f64_rnd x"
  using rne_ge_int [of 0 "x / 2 powi f64_grid x"] by (simp add: f64_rnd_def)

text \<open>Rounding stays inside the binade, its upper end included.\<close>

lemma f64_rnd_upper: "0 < x \<Longrightarrow> f64_rnd x \<le> 2 powi (f64_grid x + 53)"
proof -
  assume "0 < x"
  then have "x / 2 powi f64_grid x \<le> of_int (2 ^ 53)"
    using f64_grid_upper [of x] by (simp add: powi_split field_simps)
  then have "of_int (rne (x / 2 powi f64_grid x)) \<le> (of_int (2 ^ 53) :: real)"
    by (subst of_int_le_iff) (rule rne_le_int)
  then show ?thesis by (simp add: f64_rnd_def powi_split mult_right_mono)
qed

lemma f64_rnd_lower: "0 < x \<Longrightarrow> f64_grid x > - 1074 \<Longrightarrow> 2 powi (f64_grid x + 52) \<le> f64_rnd x"
proof -
  assume x: "0 < x" "f64_grid x > - 1074"
  then have "of_int (2 ^ 52) \<le> x / 2 powi f64_grid x"
    using f64_grid_lower [of x] by (simp add: powi_split field_simps)
  then have "(of_int (2 ^ 52) :: real) \<le> of_int (rne (x / 2 powi f64_grid x))"
    by (subst of_int_le_iff) (rule rne_ge_int)
  then show ?thesis by (simp add: f64_rnd_def powi_split mult_right_mono)
qed

lemma f64_rnd_mono:
  assumes "0 \<le> x" "x \<le> y"
  shows "f64_rnd x \<le> f64_rnd y"
proof (cases "x = 0")
  case True
  with assms show ?thesis by (simp add: f64_rnd_nonneg)
next
  case False
  with assms have x: "0 < x" and y: "0 < y" by auto
  show ?thesis
  proof (cases "f64_grid x = f64_grid y")
    case True
    have "rne (x / 2 powi f64_grid y) \<le> rne (y / 2 powi f64_grid y)"
      using assms by (intro rne_mono divide_right_mono) simp_all
    then show ?thesis by (simp add: f64_rnd_def True mult_right_mono)
  next
    case False
    with f64_grid_mono [OF x assms(2)] have g: "f64_grid x < f64_grid y" by simp
    have "f64_rnd x \<le> 2 powi (f64_grid x + 53)" by (rule f64_rnd_upper [OF x])
    also have "\<dots> \<le> 2 powi (f64_grid y + 52)" using g by (intro powi_two_mono) simp
    also have "\<dots> \<le> f64_rnd y"
      using g by (intro f64_rnd_lower [OF y]) (simp add: f64_grid_def)
    finally show ?thesis .
  qed
qed

lemma f64_rnd_exact:
  assumes "m < 2 ^ 53" "- 1074 \<le> e"
  shows "f64_rnd (real m * 2 powi e) = real m * 2 powi e"
proof (cases "m = 0")
  case False
  let ?x = "real m * 2 powi e"
  have x: "0 < ?x" using False by simp
  have g: "f64_grid ?x \<le> e"
  proof -
    have "?x < 2 powi (e + 53)"
    proof -
      have "real m < real (2 ^ 53)" using assms(1) by (simp only: of_nat_less_iff)
      then show ?thesis by (simp add: powi_split)
    qed
    then have "2 powi \<lfloor>log 2 ?x\<rfloor> < (2::real) powi (e + 53)"
      using log2_floor_bounds(1) [OF x] by simp
    then have "\<lfloor>log 2 ?x\<rfloor> < e + 53"
      using powi_two_mono [of "e + 53" "\<lfloor>log 2 ?x\<rfloor>"] by (meson not_le)
    then show ?thesis using assms(2) by (simp add: f64_grid_def)
  qed
  have "?x / 2 powi f64_grid ?x = of_int (int m * 2 ^ nat (e - f64_grid ?x))"
  proof -
    have "?x / 2 powi f64_grid ?x = real m * 2 powi (e - f64_grid ?x)"
      by (simp add: power_int_diff)
    also have "\<dots> = of_int (int m * 2 ^ nat (e - f64_grid ?x))"
      using g by (simp add: power_int_def)
    finally show ?thesis .
  qed
  then have "rne (?x / 2 powi f64_grid ?x) = int m * 2 ^ nat (e - f64_grid ?x)"
    by (simp only: rne_of_int)
  then have "f64_rnd ?x = real m * (2 ^ nat (e - f64_grid ?x) * 2 powi f64_grid ?x)"
    by (simp add: f64_rnd_def)
  also have "(2::real) ^ nat (e - f64_grid ?x) * 2 powi f64_grid ?x = 2 powi e"
    by (rule powi_nat_mult [OF g])
  finally show ?thesis .
qed simp

text \<open>Rounding errs by at most half a unit in the last place.\<close>

lemma f64_rnd_error: "\<bar>f64_rnd x - x\<bar> \<le> 2 powi f64_grid x / 2"
proof -
  let ?g = "2 powi f64_grid x :: real"
  have "f64_rnd x - x = (of_int (rne (x / ?g)) - x / ?g) * ?g"
    by (simp add: f64_rnd_def field_simps)
  then have "\<bar>f64_rnd x - x\<bar> = \<bar>of_int (rne (x / ?g)) - x / ?g\<bar> * ?g"
    by (simp add: abs_mult)
  also have "\<dots> \<le> 1 / 2 * ?g" by (rule mult_right_mono [OF rne_error]) simp
  finally show ?thesis by simp
qed

section \<open>The value of a rounded ratio\<close>

definition sign_real :: "bool \<Rightarrow> real" where
  "sign_real s = (if s then - 1 else 1)"

definition f64_real :: "f64 \<Rightarrow> real" where
  "f64_real x = (case x of Finite s m e \<Rightarrow> sign_real s * (real m * 2 powi e) | _ \<Rightarrow> 0)"

lemma f64_real_Finite [simp]: "f64_real (Finite s m e) = sign_real s * (real m * 2 powi e)"
  by (simp add: f64_real_def)

lemma f64_zero_simps [simp]:
  "isfinite (f64_zero s)" "f64_real (f64_zero s) = 0" "f64_canonical (f64_zero s)"
  by (simp_all add: f64_zero_def f64_canonical_def)

lemma ratio_exp_grid:
  assumes "0 < n" "0 < d"
  shows "max (ratio_exp n d - 52) (- 1074) = f64_grid (real n / real d)"
  using log2_floor_eq [OF ratio_exp_bounds [OF assms]] by (simp add: f64_grid_def)

lemma rne_div_grid:
  assumes "0 < d"
  shows "int (rne_div (n * 2 ^ nat (- e)) (d * 2 ^ nat e)) = rne (real n / real d / 2 powi e)"
proof -
  have "real (n * 2 ^ nat (- e)) / real (d * 2 ^ nat e) = real n / real d / 2 powi e"
    by (simp add: powi_two_nat [of e])
  then show ?thesis using assms by (simp add: rne_div_real)
qed

definition f64_limit :: real where
  "f64_limit = 2 powi 1024"

lemma powi_two_add: "(2::real) powi a * 2 powi b = 2 powi (a + b)"
  by (simp add: power_int_add)

lemma f64_limit_split: "a + b = 1024 \<Longrightarrow> 2 powi a * 2 powi b = f64_limit"
  by (simp only: f64_limit_def powi_two_add)

lemma f64_limit_pos [simp]: "0 < f64_limit" "\<not> f64_limit \<le> 0"
  unfolding f64_limit_def not_le by (rule zero_less_power_int, simp)+

lemma real_less_pow: "q < 2 ^ k \<Longrightarrow> real q < 2 ^ k"
  by (metis of_nat_less_iff of_nat_numeral of_nat_power)

lemma real_ge_pow: "2 ^ k \<le> q \<Longrightarrow> 2 ^ k \<le> real q"
  by (metis of_nat_le_iff of_nat_numeral of_nat_power)

lemma nat_le_pow: "real q \<le> 2 ^ k \<Longrightarrow> q \<le> 2 ^ k"
  by (metis of_nat_le_iff of_nat_numeral of_nat_power)

lemma nat_ge_pow: "2 ^ k \<le> real q \<Longrightarrow> 2 ^ k \<le> q"
  by (metis of_nat_le_iff of_nat_numeral of_nat_power)

lemma pack_threshold:
  assumes "q < 2 ^ 53" "e \<le> 971 \<or> 2 ^ 52 \<le> q"
  shows "real q * 2 powi e < f64_limit \<longleftrightarrow> e \<le> 971"
proof
  assume "e \<le> 971"
  then have "(2::real) powi e \<le> 2 powi 971" by (rule powi_two_mono)
  moreover have "real q < 2 powi 53" using real_less_pow [OF assms(1)] by simp
  ultimately have "real q * 2 powi e < 2 powi 53 * 2 powi 971" by (intro mult_less_le_imp_less) simp_all
  also have "\<dots> = f64_limit" by (rule f64_limit_split) simp
  finally show "real q * 2 powi e < f64_limit" .
next
  assume lt: "real q * 2 powi e < f64_limit"
  show "e \<le> 971"
  proof (rule ccontr)
    assume "\<not> e \<le> 971"
    then have e: "(2::real) powi 972 \<le> 2 powi e" by (intro powi_two_mono) simp
    have "2 powi 52 \<le> real q"
      using assms(2) \<open>\<not> e \<le> 971\<close> real_ge_pow [of 52 q] by simp
    with e have "2 powi 52 * 2 powi 972 \<le> real q * 2 powi e" by (intro mult_mono) simp_all
    moreover have "2 powi 52 * 2 powi 972 = f64_limit" by (rule f64_limit_split) simp
    ultimately show False using lt by simp
  qed
qed

text \<open>Either the rounded ratio stays below \<open>f64_limit\<close> and is the result, or it is infinite.\<close>

lemma f64_round_significand:
  fixes n d :: nat
  assumes "0 < n" "0 < d"
  obtains q :: nat and e :: int where "- 1074 \<le> e" "q \<le> 2 ^ 53" "- 1074 < e \<longrightarrow> 2 ^ 52 \<le> q"
    "f64_rnd (real n / real d) = real q * 2 powi e"
    "f64_round s n d = (if q = 2 ^ 53 then f64_pack s (2 ^ 52) (e + 1) else f64_pack s q e)"
proof -
  let ?x = "real n / real d"
  let ?e = "f64_grid ?x"
  let ?q = "rne_div (n * 2 ^ nat (- ?e)) (d * 2 ^ nat ?e)"
  have x: "0 < ?x" using assms by simp
  have rq: "f64_rnd ?x = real ?q * 2 powi ?e"
    unfolding f64_rnd_def rne_div_grid [OF assms(2), symmetric] by simp
  have "real ?q * 2 powi ?e \<le> 2 ^ 53 * 2 powi ?e"
    using f64_rnd_upper [OF x] by (simp add: rq [symmetric] powi_split)
  then have q_le: "?q \<le> 2 ^ 53" by (intro nat_le_pow) simp
  have q_ge: "2 ^ 52 \<le> ?q" if "- 1074 < ?e"
  proof -
    have "2 ^ 52 * 2 powi ?e \<le> real ?q * 2 powi ?e"
      using f64_rnd_lower [OF x that] by (simp add: rq [symmetric] powi_split)
    then show ?thesis by (intro nat_ge_pow) simp
  qed
  have "f64_round s n d = (if ?q = 2 ^ 53 then f64_pack s (2 ^ 52) (?e + 1) else f64_pack s ?q ?e)"
    using assms by (simp add: f64_round_def ratio_exp_grid Let_def)
  moreover have "- 1074 \<le> ?e" by (simp add: f64_grid_def)
  ultimately show thesis using q_le q_ge rq by (intro that [of ?e ?q] impI)
qed

text \<open>Packing a significand that is normal, or at the lowest exponent.\<close>

lemma f64_pack_spec:
  assumes "q < 2 ^ 53" "- 1074 \<le> e" "2 ^ 52 \<le> q \<or> e = - 1074"
  shows "real q * 2 powi e < f64_limit \<longrightarrow> isfinite (f64_pack s q e) \<and>
      f64_real (f64_pack s q e) = sign_real s * (real q * 2 powi e) \<and> f64_canonical (f64_pack s q e)"
    and "f64_limit \<le> real q * 2 powi e \<longrightarrow> f64_pack s q e = Infinite s"
proof -
  have lt: "real q * 2 powi e < f64_limit \<longleftrightarrow> e \<le> 971" using assms by (intro pack_threshold) linarith+
  show "real q * 2 powi e < f64_limit \<longrightarrow> isfinite (f64_pack s q e) \<and>
      f64_real (f64_pack s q e) = sign_real s * (real q * 2 powi e) \<and> f64_canonical (f64_pack s q e)"
    using lt assms by (simp add: f64_pack_def f64_canonical_def)
  show "f64_limit \<le> real q * 2 powi e \<longrightarrow> f64_pack s q e = Infinite s"
    using lt by (simp add: f64_pack_def not_less [symmetric])
qed

lemma f64_round_spec:
  fixes n d :: nat
  assumes d: "0 < d"
  defines "r \<equiv> f64_rnd (real n / real d)"
  shows "r < f64_limit \<Longrightarrow> isfinite (f64_round s n d) \<and> f64_real (f64_round s n d) = sign_real s * r
           \<and> f64_canonical (f64_round s n d)"
    and "f64_limit \<le> r \<Longrightarrow> f64_round s n d = Infinite s"
proof -
  have "(r < f64_limit \<longrightarrow> isfinite (f64_round s n d) \<and> f64_real (f64_round s n d) = sign_real s * r
           \<and> f64_canonical (f64_round s n d)) \<and>
        (f64_limit \<le> r \<longrightarrow> f64_round s n d = Infinite s)"
  proof (cases "n = 0")
    case True
    then show ?thesis by (simp add: f64_round_def r_def)
  next
    case False
    then have "0 < n" by simp
    from this d show ?thesis
    proof (rule f64_round_significand)
      fix q :: nat and e :: int
      assume q: "- 1074 \<le> e" "q \<le> 2 ^ 53" "- 1074 < e \<longrightarrow> 2 ^ 52 \<le> q" "f64_rnd (real n / real d) = real q * 2 powi e"
        and eq: "f64_round s n d = (if q = 2 ^ 53 then f64_pack s (2 ^ 52) (e + 1) else f64_pack s q e)"
      show ?thesis
      proof (cases "q = 2 ^ 53")
        case True
        then have "r = real (2 ^ 52) * 2 powi (e + 1)" "f64_round s n d = f64_pack s (2 ^ 52) (e + 1)"
          using q(4) eq by (simp_all add: r_def power_int_add)
        then show ?thesis using f64_pack_spec [of "2 ^ 52" "e + 1" s] q(1) by simp
      next
        case False
        then have "r = real q * 2 powi e" "f64_round s n d = f64_pack s q e" "q < 2 ^ 53"
          using q(2,4) eq by (simp_all add: r_def)
        moreover have "2 ^ 52 \<le> q \<or> e = - 1074" using q(1,3) by linarith
        ultimately show ?thesis using f64_pack_spec [of q e s] q(1) by simp
      qed
    qed
  qed
  then show "r < f64_limit \<Longrightarrow> isfinite (f64_round s n d) \<and> f64_real (f64_round s n d) = sign_real s * r
           \<and> f64_canonical (f64_round s n d)"
    and "f64_limit \<le> r \<Longrightarrow> f64_round s n d = Infinite s" by blast+
qed

section \<open>The value of each operation\<close>

text \<open>\<open>f64_srnd\<close> is \<open>f64_rnd\<close> with the sign taken out: the rounding of any real number.\<close>

definition f64_srnd :: "real \<Rightarrow> real" where
  "f64_srnd x = (if x < 0 then - f64_rnd (- x) else f64_rnd x)"

lemma f64_srnd_nonneg: "0 \<le> x \<Longrightarrow> f64_srnd x = f64_rnd x"
  by (simp add: f64_srnd_def)

lemma f64_srnd_minus: "0 \<le> x \<Longrightarrow> f64_srnd (- x) = - f64_rnd x"
  by (cases "x = 0") (simp_all add: f64_srnd_def)

lemma f64_srnd_mono: "x \<le> y \<Longrightarrow> f64_srnd x \<le> f64_srnd y"
proof (cases "x < 0 \<and> 0 \<le> y")
  case True
  then have "- f64_rnd (- x) \<le> 0" "0 \<le> f64_rnd y" by (simp_all add: f64_rnd_nonneg)
  with True show ?thesis by (simp add: f64_srnd_def)
next
  case False
  assume "x \<le> y"
  with False show ?thesis
    using f64_rnd_mono [of x y] f64_rnd_mono [of "- y" "- x"] by (auto simp: f64_srnd_def)
qed

lemma f64_srnd_exact:
  assumes "\<bar>i\<bar> < 2 ^ 53" "- 1074 \<le> e"
  shows "f64_srnd (of_int i * 2 powi e) = of_int i * 2 powi e"
proof (cases "i < 0")
  case True
  then obtain m where m: "i = - int m" by (metis neg_int_cases)
  with assms True have "m < 2 ^ 53" by simp
  then show ?thesis
    using f64_rnd_exact [of m e] assms True by (simp add: f64_srnd_def m mult_less_0_iff)
next
  case False
  then obtain m where m: "i = int m" by (metis not_less nonneg_int_cases)
  with assms have "m < 2 ^ 53" by simp
  then show ?thesis
    using f64_rnd_exact [of m e] assms by (simp add: m f64_srnd_nonneg)
qed

lemma f64_srnd_int: "\<bar>i\<bar> < 2 ^ 53 \<Longrightarrow> f64_srnd (of_int i) = of_int i"
  using f64_srnd_exact [of i 0] by simp

lemma f64_rnd_below_limit: "0 \<le> x \<Longrightarrow> x \<le> 2 powi 1023 \<Longrightarrow> f64_rnd x < f64_limit"
proof -
  assume "0 \<le> x" "x \<le> 2 powi 1023"
  then have "f64_rnd x \<le> f64_rnd (real 1 * 2 powi 1023)" by (intro f64_rnd_mono) (simp_all only: of_nat_1 mult_1)
  also have "\<dots> = real 1 * 2 powi 1023" by (rule f64_rnd_exact) simp_all
  also have "\<dots> < 2 powi 1024" unfolding of_nat_1 mult_1 by (rule power_int_strict_increasing) simp_all
  finally show ?thesis by (simp only: f64_limit_def)
qed

lemma f64_round_value:
  assumes "0 < d" "real n / real d \<le> 2 powi 1023"
  shows "isfinite (f64_round s n d)"
    and "f64_real (f64_round s n d) = f64_srnd (sign_real s * (real n / real d))"
proof -
  have "f64_rnd (real n / real d) < f64_limit" using assms by (intro f64_rnd_below_limit) simp_all
  note spec = f64_round_spec(1) [OF assms(1) this, of s]
  then show "isfinite (f64_round s n d)" by simp
  show "f64_real (f64_round s n d) = f64_srnd (sign_real s * (real n / real d))"
    using spec by (simp add: f64_srnd_nonneg f64_srnd_minus sign_real_def)
qed

lemma f64_of_nat_value:
  assumes "n < 2 ^ 1000"
  shows "isfinite (f64_of_nat n)" "f64_real (f64_of_nat n) = f64_rnd (real n)"
proof -
  have "real n < 2 powi 1000" using real_less_pow [OF assms] by (simp only: power_int_numeral)
  also have "\<dots> \<le> 2 powi 1023" by (rule powi_two_mono) simp
  finally have "real n / real 1 \<le> 2 powi 1023" by (simp only: of_nat_1 div_by_1 less_imp_le)
  note v = f64_round_value [OF zero_less_one this, of False]
  then show "isfinite (f64_of_nat n)" "f64_real (f64_of_nat n) = f64_rnd (real n)"
    by (simp_all add: f64_of_nat_def f64_srnd_nonneg sign_real_def)
qed

lemma sign_real_xor: "sign_real (s \<noteq> t) = sign_real s * sign_real t"
  by (simp add: sign_real_def)

lemma abs_f64_real: "\<bar>f64_real (Finite s m e)\<bar> = real m * 2 powi e"
  by (simp add: sign_real_def abs_mult)

lemma f64_mul_value:
  assumes "isfinite x" "isfinite y" "\<bar>f64_real x * f64_real y\<bar> \<le> 2 powi 1023"
  shows "isfinite (f64_mul x y)" "f64_real (f64_mul x y) = f64_srnd (f64_real x * f64_real y)"
proof -
  obtain s m e t n f where xy: "x = Finite s m e" "y = Finite t n f"
    using assms(1,2) by (auto elim!: isfiniteE)
  have r: "real (m * n * 2 ^ nat (e + f)) / real (2 ^ nat (- (e + f)))
      = real m * 2 powi e * (real n * 2 powi f)"
  proof -
    have "real m * 2 powi e * (real n * 2 powi f) = real m * real n * 2 powi (e + f)"
      by (simp add: power_int_add)
    then show ?thesis by (simp add: powi_two_nat [of "e + f"])
  qed
  have "real (m * n * 2 ^ nat (e + f)) / real (2 ^ nat (- (e + f))) \<le> 2 powi 1023"
    using assms(3) unfolding r xy abs_mult abs_f64_real .
  note v = f64_round_value [OF _ this, of "s \<noteq> t"]
  have "f64_mul x y = f64_round (s \<noteq> t) (m * n * 2 ^ nat (e + f)) (2 ^ nat (- (e + f)))"
    by (simp add: xy)
  with v show "isfinite (f64_mul x y)"
    "f64_real (f64_mul x y) = f64_srnd (f64_real x * f64_real y)"
    unfolding r sign_real_xor by (simp_all add: xy mult_ac)
qed

lemma f64_div_value:
  assumes "isfinite x" "isfinite y" "f64_real y \<noteq> 0" "\<bar>f64_real x / f64_real y\<bar> \<le> 2 powi 1023"
  shows "isfinite (f64_div x y)" "f64_real (f64_div x y) = f64_srnd (f64_real x / f64_real y)"
proof -
  obtain s m e t n f where xy: "x = Finite s m e" "y = Finite t n f"
    using assms(1,2) by (auto elim!: isfiniteE)
  have n: "n \<noteq> 0" using assms(3) by (auto simp: xy)
  have r: "real (m * 2 ^ nat (e - f)) / real (n * 2 ^ nat (f - e))
      = real m * 2 powi e / (real n * 2 powi f)"
  proof -
    have "real m * 2 powi e / (real n * 2 powi f) = real m / real n * 2 powi (e - f)"
      by (simp add: power_int_diff)
    then show ?thesis by (simp add: powi_two_nat [of "e - f"])
  qed
  have sgn: "sign_real s * a / (sign_real t * b) = sign_real (s \<noteq> t) * (a / b)" for a b
    by (simp add: sign_real_def)
  have "real (m * 2 ^ nat (e - f)) / real (n * 2 ^ nat (f - e)) \<le> 2 powi 1023"
    using assms(4) unfolding r xy abs_divide abs_f64_real .
  note v = f64_round_value [OF _ this, of "s \<noteq> t"]
  have "f64_div x y = f64_round (s \<noteq> t) (m * 2 ^ nat (e - f)) (n * 2 ^ nat (f - e))"
    using n by (simp add: xy)
  with v n show "isfinite (f64_div x y)"
    "f64_real (f64_div x y) = f64_srnd (f64_real x / f64_real y)"
    unfolding r by (simp_all add: xy sgn)
qed

lemma signed_int_scale:
  assumes "g \<le> e"
  shows "of_int (signed_int s m * 2 ^ nat (e - g)) * 2 powi g = f64_real (Finite s m e)"
  using powi_nat_mult [OF assms] by (simp add: signed_int_def sign_real_def)

text \<open>A sum of finite values is the rounding of a ratio, the exact sum's absolute value.\<close>

lemma f64_add_form:
  assumes "isfinite x" "isfinite y"
  obtains n d z where "0 < d" "real n / real d = \<bar>f64_real x + f64_real y\<bar>"
    "f64_add x y = (if f64_real x + f64_real y = 0 then f64_zero z
       else f64_round (f64_real x + f64_real y < 0) n d)"
proof -
  obtain s m e t n f where xy: "x = Finite s m e" "y = Finite t n f"
    using assms(1,2) by (auto elim!: isfiniteE)
  define g where "g = min e f"
  define i where "i = signed_int s m * 2 ^ nat (e - g) + signed_int t n * 2 ^ nat (f - g)"
  have sum: "f64_real x + f64_real y = of_int i * 2 powi g"
    using signed_int_scale [of g e s m] signed_int_scale [of g f t n]
    by (simp add: i_def xy g_def distrib_right)
  show thesis
  proof (rule that [of "2 ^ nat (- g)" "nat \<bar>i\<bar> * 2 ^ nat g" "s \<and> t"])
    show "real (nat \<bar>i\<bar> * 2 ^ nat g) / real (2 ^ nat (- g)) = \<bar>f64_real x + f64_real y\<bar>"
      unfolding sum using powi_two_nat [of g] by (simp add: abs_mult)
    show "f64_add x y = (if f64_real x + f64_real y = 0 then f64_zero (s \<and> t)
        else f64_round (f64_real x + f64_real y < 0) (nat \<bar>i\<bar> * 2 ^ nat g) (2 ^ nat (- g)))"
    proof -
      have "\<not> (2::real) powi g < 0" by (simp add: not_less)
      then show ?thesis
        unfolding sum by (simp add: xy g_def [symmetric] i_def [symmetric] Let_def mult_less_0_iff)
    qed
  qed simp
qed

lemma f64_add_value:
  assumes "isfinite x" "isfinite y" "\<bar>f64_real x + f64_real y\<bar> \<le> 2 powi 1023"
  shows "isfinite (f64_add x y)" "f64_real (f64_add x y) = f64_srnd (f64_real x + f64_real y)"
proof -
  from assms(1,2) obtain n d z where r: "0 < d" "real n / real d = \<bar>f64_real x + f64_real y\<bar>"
    "f64_add x y = (if f64_real x + f64_real y = 0 then f64_zero z
       else f64_round (f64_real x + f64_real y < 0) n d)" by (rule f64_add_form)
  note v = f64_round_value [OF r(1), of n "f64_real x + f64_real y < 0", unfolded r(2), OF assms(3)]
  have "sign_real (f64_real x + f64_real y < 0) * \<bar>f64_real x + f64_real y\<bar> = f64_real x + f64_real y"
    by (simp add: sign_real_def)
  with v show "isfinite (f64_add x y)"
    "f64_real (f64_add x y) = f64_srnd (f64_real x + f64_real y)"
    by (simp_all add: r(3) f64_srnd_nonneg)
qed

lemma f64_add_overflow:
  assumes "isfinite x" "isfinite y" "f64_limit \<le> f64_real x + f64_real y"
  shows "f64_add x y = Infinite False"
proof -
  from assms(1,2) obtain n d z where r: "0 < d" "real n / real d = \<bar>f64_real x + f64_real y\<bar>"
    "f64_add x y = (if f64_real x + f64_real y = 0 then f64_zero z
       else f64_round (f64_real x + f64_real y < 0) n d)" by (rule f64_add_form)
  have pos: "0 < f64_real x + f64_real y" using assms(3) f64_limit_pos(1) by linarith
  have "f64_limit = f64_rnd f64_limit"
    using f64_rnd_exact [of 1 1024] by (simp add: f64_limit_def)
  also have "\<dots> \<le> f64_rnd (f64_real x + f64_real y)"
    using assms(3) f64_limit_pos(1) by (intro f64_rnd_mono) (simp_all add: less_imp_le)
  finally have "f64_limit \<le> f64_rnd (real n / real d)" using pos r(2) by simp
  from f64_round_spec(2) [OF r(1) this] show ?thesis using pos by (simp add: r(3))
qed

lemma f64_less_value:
  assumes "isfinite x" "isfinite y"
  shows "f64_less x y \<longleftrightarrow> f64_real x < f64_real y"
proof -
  obtain s m e t n f where xy: "x = Finite s m e" "y = Finite t n f"
    using assms(1,2) by (auto elim!: isfiniteE)
  define g where "g = min e f"
  let ?a = "signed_int s m * 2 ^ nat (e - g)" and ?b = "signed_int t n * 2 ^ nat (f - g)"
  have "?a < ?b \<longleftrightarrow> real_of_int ?a * 2 powi g < real_of_int ?b * 2 powi g"
    by (simp del: of_int_mult of_int_power)
  also have "\<dots> \<longleftrightarrow> f64_real x < f64_real y"
    by (simp only: signed_int_scale g_def xy min.cobounded1 min.cobounded2)
  finally show ?thesis by (simp add: xy g_def [symmetric] Let_def)
qed
text \<open>Every operation stays inside binary64.\<close>

lemma f64_round_canonical [simp]: "0 < d \<Longrightarrow> f64_canonical (f64_round s n d)"
  using f64_round_spec [of d n s]
  by (cases "f64_rnd (real n / real d) < f64_limit") (simp_all add: f64_canonical_def)

lemma f64_ops_canonical:
  "f64_canonical (f64_of_nat n)" "f64_canonical (f64_add x y)" "f64_canonical (f64_mul x y)"
  "f64_canonical (f64_div x y)"
proof -
  show "f64_canonical (f64_of_nat n)" by (simp add: f64_of_nat_def)
  show "f64_canonical (f64_add x y)"
    by (cases "(x, y)" rule: f64_add.cases) (simp_all add: Let_def, simp_all add: f64_canonical_def)
  show "f64_canonical (f64_mul x y)"
    by (cases "(x, y)" rule: f64_mul.cases) (simp_all, simp_all add: f64_canonical_def)
  show "f64_canonical (f64_div x y)"
    by (cases "(x, y)" rule: f64_div.cases) (simp_all, simp_all add: f64_canonical_def)
qed

lemma isfinite_less_trans:
  assumes "isfinite x" "isfinite y" "isfinite z" "\<not> f64_less y x" "\<not> f64_less z y"
  shows "\<not> f64_less z x"
  using assms by (simp add: f64_less_value)

lemma std_max_value:
  assumes "isfinite a" "isfinite b"
  shows "isfinite (std_max a b)" "f64_real (std_max a b) = max (f64_real a) (f64_real b)"
  using assms by (simp_all add: std_max_def f64_less_value)

lemma std_min_value:
  assumes "isfinite a" "isfinite b"
  shows "isfinite (std_min a b)" "f64_real (std_min a b) = min (f64_real a) (f64_real b)"
  using assms by (simp_all add: std_min_def f64_less_value)

section \<open>Integers below \<open>2 ^ 53\<close> are exact\<close>

lemma int53_bound: "\<bar>i\<bar> < 2 ^ 53 \<Longrightarrow> \<bar>real_of_int i\<bar> \<le> 2 powi 1023"
proof -
  assume "\<bar>i\<bar> < 2 ^ 53"
  then have "real_of_int \<bar>i\<bar> \<le> real_of_int (2 ^ 53)" by (simp only: of_int_le_iff less_imp_le)
  also have "\<dots> = 2 ^ 53" by simp
  also have "(2::real) ^ 53 \<le> 2 ^ 1023" by (rule power_increasing) simp_all
  finally show ?thesis by (simp add: power_int_def)
qed

lemma f64_of_nat_small:
  assumes "n < 2 ^ 53"
  shows "isfinite (f64_of_nat n)" "f64_real (f64_of_nat n) = of_int (int n)"
proof -
  have "n < 2 ^ 1000" using assms by (rule less_le_trans) simp
  from f64_of_nat_value [OF this] show "isfinite (f64_of_nat n)" "f64_real (f64_of_nat n) = of_int (int n)"
    using f64_srnd_int [of "int n"] assms by (simp_all add: f64_srnd_nonneg)
qed

lemma f64_add_ints:
  assumes "isfinite x" "isfinite y" "f64_real x = of_int a" "f64_real y = of_int b" "\<bar>a + b\<bar> < 2 ^ 53"
  shows "isfinite (f64_add x y)" "f64_real (f64_add x y) = of_int (a + b)"
proof -
  have "\<bar>f64_real x + f64_real y\<bar> \<le> 2 powi 1023" using int53_bound [OF assms(5)] assms(3,4) by simp
  from f64_add_value [OF assms(1,2) this]
  show "isfinite (f64_add x y)" "f64_real (f64_add x y) = of_int (a + b)"
    using f64_srnd_int [OF assms(5)] assms(3,4) by simp_all
qed

lemma f64_mul_ints:
  assumes "isfinite x" "isfinite y" "f64_real x = of_int a" "f64_real y = of_int b" "\<bar>a * b\<bar> < 2 ^ 53"
  shows "isfinite (f64_mul x y)" "f64_real (f64_mul x y) = of_int (a * b)"
proof -
  have "\<bar>f64_real x * f64_real y\<bar> \<le> 2 powi 1023" using int53_bound [OF assms(5)] assms(3,4) by simp
  from f64_mul_value [OF assms(1,2) this]
  show "isfinite (f64_mul x y)" "f64_real (f64_mul x y) = of_int (a * b)"
    using f64_srnd_int [OF assms(5)] assms(3,4) by simp_all
qed

end
