(* ===== verification/Wire.thy ===== *)
theory Wire
  imports Cxx_Double
begin

text \<open>
  The protobuf messages of \<open>proto/metrics.proto\<close> that the C++ code reads and writes, one record
  per message. A \<open>map<string, string>\<close> is an association list with distinct keys, an
  \<open>optional string\<close> an option, a \<open>repeated\<close> field a list. The three query requests share the
  fields the store's filter templates read (\<open>metric_name\<close>, \<open>client_id\<close>, \<open>tags_filter\<close>), so they
  extend one record and the templates become functions on any extension of it.
\<close>

section \<open>Samples and batches\<close>

type_synonym tag_map = "(string \<times> string) list"

record metric =
  m_name :: string
  m_value :: f64
  m_tags :: tag_map
  m_timestamp_ms :: int
  m_source_client_id :: string

record metric_batch =
  b_client_id :: string
  b_metrics :: "metric list"
  b_batch_id :: string

text \<open>A default-constructed message has empty and zero fields.\<close>

definition default_metric :: metric where
  "default_metric = \<lparr>m_name = '''', m_value = f64_zero False, m_tags = [], m_timestamp_ms = 0,
     m_source_client_id = ''''\<rparr>"

text \<open>The acknowledgement of a batch that is durably committed; \<open>ack_duplicate\<close> if it was already before.\<close>

record batch_ack =
  ack_batch_id :: string
  ack_duplicate :: bool

section \<open>Queries\<close>

record query_filter =
  q_metric_name :: string
  q_client_id :: "string option"
  q_tags_filter :: tag_map

record range_request = query_filter +
  from_ms :: int
  to_ms :: int
  page_size :: uint32
  page_token :: string

record range_response =
  r_metrics :: "metric list"
  r_avg :: f64
  r_max :: f64
  r_min :: f64
  next_page_token :: string

definition default_range_response :: range_response where
  "default_range_response = \<lparr>r_metrics = [], r_avg = f64_zero False, r_max = f64_zero False,
     r_min = f64_zero False, next_page_token = ''''\<rparr>"

type_synonym latest_request = query_filter

record latest_response =
  l_metric :: metric

record subscribe_request = query_filter +
  after_event_id :: int

record metric_event =
  e_metric :: metric
  rolling_avg_1m :: f64
  has_rolling_avg_1m :: bool
  e_event_id :: int

definition default_metric_event :: metric_event where
  "default_metric_event = \<lparr>e_metric = default_metric, rolling_avg_1m = f64_zero False,
     has_rolling_avg_1m = False, e_event_id = 0\<rparr>"

section \<open>What the wire types guarantee\<close>

text \<open>The timestamp of a message is an \<open>int64\<close> and the keys of its tag map are distinct.\<close>

definition metric_wf :: "metric \<Rightarrow> bool" where
  "metric_wf m \<longleftrightarrow> int64_range (m_timestamp_ms m) \<and> keys_distinct (m_tags m)"

definition batch_wf :: "metric_batch \<Rightarrow> bool" where
  "batch_wf b \<longleftrightarrow> (\<forall>m \<in> set (b_metrics b). metric_wf m)"

section \<open>Concrete messages for the worked examples\<close>

definition example_metric :: "string \<Rightarrow> nat \<Rightarrow> int \<Rightarrow> metric" where
  "example_metric n v t = default_metric\<lparr>m_name := n, m_value := Finite False v 0, m_timestamp_ms := t\<rparr>"

definition example_batch :: "string \<Rightarrow> metric list \<Rightarrow> metric_batch" where
  "example_batch k ms = \<lparr>b_client_id = ''agent-a'', b_metrics = ms, b_batch_id = k\<rparr>"

lemmas example_defs = example_metric_def example_batch_def default_metric_def

end
