(* ===== verification/Store_Interface.thy ===== *)
theory Store_Interface
  imports Wire
begin

text \<open>
  \<open>ITimeSeriesStore\<close> (\<open>cpp/aggregator/i_time_series_store.h\<close>): the outcome and error types of the
  storage boundary, and its contract as a locale. What a client of the boundary may conclude from
  the contract alone (redelivery of a committed batch is invisible, resuming an event stream repeats
  nothing and loses only what the store has evicted) is proved here; the in-memory store discharges the laws.
\<close>

section \<open>Outcomes and errors\<close>

datatype batch_commit_outcome = Committed | Duplicate

datatype store_error_code =
  InvalidArgument | Connection | Transaction | Constraint | Query | Configuration

record store_error =
  err_code :: store_error_code
  err_operation :: string
  err_context :: string
  err_retryable :: bool

definition make_error :: "store_error_code \<Rightarrow> string \<Rightarrow> string \<Rightarrow> bool \<Rightarrow> store_error" where
  "make_error c operation ctxt retryable =
     \<lparr>err_code = c, err_operation = operation, err_context = ctxt, err_retryable = retryable\<rparr>"

section \<open>The commit contract\<close>

text \<open>Committing a list of batches in order, keeping what each commit returned.\<close>

fun commit_all :: "('st \<Rightarrow> 'b \<Rightarrow> ('e + batch_commit_outcome) \<times> 'st) \<Rightarrow> 'b list \<Rightarrow> 'st
    \<Rightarrow> ('e + batch_commit_outcome) list \<times> 'st" where
  "commit_all commit [] st = ([], st)"
| "commit_all commit (b # bs) st =
     (case commit st b of (r, st') \<Rightarrow> (case commit_all commit bs st' of (rs, st'') \<Rightarrow> (r # rs, st'')))"

lemma commit_all_snoc:
  "commit_all commit bs st = (rs, st') \<Longrightarrow> commit st' b = (r, st'') \<Longrightarrow> commit_all commit (bs @ [b]) st = (rs @ [r], st'')"
  by (induction bs arbitrary: st rs) (auto split: prod.splits)

lemma commit_all_append_results:
  "commit_all commit (bs @ cs) st = (case commit_all commit bs st of (rs, st1) \<Rightarrow>
     (case commit_all commit cs st1 of (rs', st2) \<Rightarrow> (rs @ rs', st2)))"
  by (induction bs arbitrary: st) (simp_all split: prod.split)

lemma commit_all_length: "commit_all commit bs st = (rs, st') \<Longrightarrow> length rs = length bs"
  by (induction bs arbitrary: st rs) (auto split: prod.splits)

locale batch_store =
  fixes commit :: "'st \<Rightarrow> 'b \<Rightarrow> ('e + batch_commit_outcome) \<times> 'st"
    and batch_key :: "'b \<Rightarrow> 'k" and keys :: "'st \<Rightarrow> 'k set" and invalid :: "'b \<Rightarrow> bool"
    and inv :: "'st \<Rightarrow> bool"
  assumes inv_commit: "inv st \<Longrightarrow> inv (snd (commit st b))"
    and commit_duplicate: "inv st \<Longrightarrow> \<not> invalid b \<Longrightarrow> batch_key b \<in> keys st \<Longrightarrow>
      commit st b = (Inr Duplicate, st)"
    and commit_error: "inv st \<Longrightarrow> commit st b = (Inl e, st') \<Longrightarrow> st' = st"
    and commit_invalid: "inv st \<Longrightarrow> invalid b \<Longrightarrow> \<exists>e. commit st b = (Inl e, st)"
    and commit_new: "inv st \<Longrightarrow> commit st b = (Inr Committed, st') \<Longrightarrow>
      batch_key b \<notin> keys st \<and> keys st' = insert (batch_key b) (keys st)"
    and commit_repeat: "inv st \<Longrightarrow> commit st b = (Inr Duplicate, st') \<Longrightarrow>
      batch_key b \<in> keys st \<and> st' = st"
begin

lemma keys_commit: "inv st \<Longrightarrow> keys st \<subseteq> keys (snd (commit st b))"
proof -
  assume inv: "inv st"
  obtain r st' where c: "commit st b = (r, st')" by fastforce
  show ?thesis
  proof (cases r)
    case (Inl e)
    with commit_error [OF inv, of b e st'] c show ?thesis by simp
  next
    case (Inr out)
    with commit_new [OF inv, of b st'] commit_repeat [OF inv, of b st'] c show ?thesis
      by (cases out) auto
  qed
qed

lemma commit_all_inv:
  "inv st \<Longrightarrow> inv (snd (commit_all commit bs st)) \<and> keys st \<subseteq> keys (snd (commit_all commit bs st))"
proof (induction bs arbitrary: st)
  case Nil
  then show ?case by simp
next
  case (Cons b bs)
  obtain r st' where c: "commit st b = (r, st')" by fastforce
  then have "inv st'" "keys st \<subseteq> keys st'"
    using inv_commit [OF Cons.prems, of b] keys_commit [OF Cons.prems, of b] by simp_all
  with Cons.IH [of st'] c show ?case by (auto split: prod.split)
qed

lemma commit_all_append:
  "snd (commit_all commit (bs @ cs) st) = snd (commit_all commit cs (snd (commit_all commit bs st)))"
  by (induction bs arbitrary: st) (simp_all add: case_prod_beta)

text \<open>A batch that has been committed may be delivered again at any later point: no state changes.\<close>

lemma redelivery_invisible:
  assumes "inv st" "batch_key b \<in> keys (snd (commit_all commit bs st))"
  shows "snd (commit_all commit (bs @ [b] @ cs) st) = snd (commit_all commit (bs @ cs) st)"
proof -
  let ?st = "snd (commit_all commit bs st)"
  have inv: "inv ?st" using commit_all_inv [OF assms(1)] by blast
  have "snd (commit ?st b) = ?st"
  proof (cases "invalid b")
    case True
    then show ?thesis using commit_invalid [OF inv, of b] by auto
  next
    case False
    then show ?thesis using commit_duplicate [OF inv False assms(2)] by simp
  qed
  then have "snd (commit_all commit ([b] @ cs) ?st) = snd (commit_all commit cs ?st)"
    by (auto split: prod.split)
  then show ?thesis unfolding commit_all_append [of bs] by simp
qed

end

section \<open>The event replay contract\<close>

text \<open>
  A subscriber polls the store from its last event ID; between two polls the store may change.
\<close>

fun follow_events :: "('st \<Rightarrow> int \<Rightarrow> 'e list) \<Rightarrow> ('e \<Rightarrow> int) \<Rightarrow> 'st list \<Rightarrow> int \<Rightarrow> 'e list" where
  "follow_events poll ident [] after = []"
| "follow_events poll ident (st # sts) after =
     (let es = poll st after
      in es @ follow_events poll ident sts (if es = [] then after else ident (last es)))"

text \<open>
  \<open>events st\<close> are the events that \<open>st\<close> still holds and \<open>latest st\<close> is the last ID it has given: a store may lose events, but
  what it holds of the old ones later it held before.
\<close>

locale event_source =
  fixes poll :: "'st \<Rightarrow> int \<Rightarrow> 'e list" and ident :: "'e \<Rightarrow> int" and events :: "'st \<Rightarrow> 'e list"
    and latest :: "'st \<Rightarrow> int" and ok :: "'st \<Rightarrow> bool" and extends :: "'st \<Rightarrow> 'st \<Rightarrow> bool"
  assumes poll_prefix: "ok st \<Longrightarrow> 0 \<le> after \<Longrightarrow>
      \<exists>n. 0 < n \<and> poll st after = take n (filter (\<lambda>e. after < ident e) (events st))"
    and idents_increase: "ok st \<Longrightarrow> sorted_wrt (<) (map ident (events st))"
    and idents_given: "ok st \<Longrightarrow> e \<in> set (events st) \<Longrightarrow> ident e \<le> latest st"
    and nothing_returns: "ok st \<Longrightarrow> ok st' \<Longrightarrow> extends st st' \<Longrightarrow> e \<in> set (events st') \<Longrightarrow>
      ident e \<le> latest st \<Longrightarrow> e \<in> set (events st)"
begin

text \<open>One poll: what it leaves out lies behind what it returns, and it is empty only if nothing is there.\<close>

lemma poll_facts:
  assumes "ok st" "0 \<le> after"
  shows "sorted_wrt (<) (map ident (poll st after))"
    "\<forall>e \<in> set (poll st after). after < ident e \<and> e \<in> set (events st)"
    "\<forall>e \<in> set (events st). after < ident e \<and> e \<notin> set (poll st after) \<longrightarrow>
       poll st after \<noteq> [] \<and> ident (last (poll st after)) < ident e"
proof -
  let ?all = "filter (\<lambda>e. after < ident e) (events st)"
  obtain n where n: "0 < n" "poll st after = take n ?all" using poll_prefix [OF assms] by blast
  have sorted: "sorted_wrt (<) (map ident (take n ?all @ drop n ?all))"
    using idents_increase [OF assms(1)] by (simp add: sorted_wrt_map sorted_wrt_filter)
  then show "sorted_wrt (<) (map ident (poll st after))" unfolding n(2) map_append sorted_wrt_append by blast
  show "\<forall>e \<in> set (poll st after). after < ident e \<and> e \<in> set (events st)"
    unfolding n(2) by (auto dest: in_set_takeD)
  show "\<forall>e \<in> set (events st). after < ident e \<and> e \<notin> set (poll st after) \<longrightarrow>
       poll st after \<noteq> [] \<and> ident (last (poll st after)) < ident e"
  proof (intro ballI impI)
    fix e assume e: "e \<in> set (events st)" "after < ident e \<and> e \<notin> set (poll st after)"
    then have "e \<in> set (take n ?all @ drop n ?all)" by (simp only: append_take_drop_id) simp
    with e(2) have d: "e \<in> set (drop n ?all)" unfolding n(2) set_append by blast
    then have ne: "take n ?all \<noteq> []" using n(1) by auto
    have "\<forall>x \<in> set (take n ?all). ident x < ident e"
      using sorted d unfolding map_append sorted_wrt_append by (simp only: set_map) blast
    then show "poll st after \<noteq> [] \<and> ident (last (poll st after)) < ident e"
      using last_in_set [OF ne] ne unfolding n(2) by blast
  qed
qed

lemma poll_all:
  assumes "ok st" "0 \<le> after" "e \<in> set (events st)" "after < ident e"
  shows "poll st after \<noteq> []" "ident e \<le> ident (last (poll st after)) \<Longrightarrow> e \<in> set (poll st after)"
proof -
  have "poll st after \<noteq> [] \<and> (e \<in> set (poll st after) \<or> ident (last (poll st after)) < ident e)"
    using poll_facts(3) [OF assms(1,2)] assms(3,4) by (cases "e \<in> set (poll st after)") auto
  then show "poll st after \<noteq> []" "ident e \<le> ident (last (poll st after)) \<Longrightarrow> e \<in> set (poll st after)" by auto
qed

text \<open>
  A whole subscription: in order, nothing twice, and of what lies before its last event nothing is missing that the last
  state still holds.
\<close>

lemma follow_facts:
  assumes "\<forall>st \<in> set sts. ok st" "sorted_wrt extends sts" "0 \<le> after" "es = follow_events poll ident sts after"
  shows "sorted_wrt (<) (map ident es) \<and>
    (\<forall>e \<in> set es. after < ident e \<and> (\<exists>st \<in> set sts. e \<in> set (events st))) \<and>
    (\<forall>e. sts \<noteq> [] \<longrightarrow> e \<in> set (events (last sts)) \<longrightarrow> after < ident e \<longrightarrow> es \<noteq> [] \<longrightarrow> ident e \<le> ident (last es) \<longrightarrow> e \<in> set es)"
  using assms
proof (induction sts arbitrary: after es)
  case (Cons st sts)
  let ?p = "poll st after"
  define cur where "cur = (if ?p = [] then after else ident (last ?p))"
  define es' where "es' = follow_events poll ident sts cur"
  have ok: "ok st" and es: "es = ?p @ es'" using Cons.prems(1,4) by (simp_all add: es'_def cur_def Let_def)
  note p = poll_facts [OF ok Cons.prems(3)]
  have cur: "after \<le> cur" using p(2) last_in_set [of ?p] by (auto simp: cur_def intro: less_imp_le)
  then have "0 \<le> cur" using Cons.prems(3) by simp
  have later: "\<forall>st \<in> set sts. ok st" "sorted_wrt extends sts" using Cons.prems(1,2) by simp_all
  note IH = Cons.IH [OF later \<open>0 \<le> cur\<close> es'_def]
  have le: "ident x \<le> cur" if "x \<in> set ?p" for x
  proof -
    have "sorted (map ident ?p)" using p(1) by (rule strict_sorted_imp_sorted)
    from sorted_last [OF this] that show ?thesis by (auto simp: cur_def)
  qed
  have "sorted_wrt (<) (map ident es)" using p(1) IH le by (fastforce simp: es sorted_wrt_append)
  moreover have "\<forall>e \<in> set es. after < ident e \<and> (\<exists>st \<in> set (st # sts). e \<in> set (events st))"
    using p(2) IH cur by (fastforce simp: es)
  moreover have "e \<in> set es" if e: "e \<in> set (events (last (st # sts)))" "after < ident e" "es \<noteq> []" "ident e \<le> ident (last es)" for e
  proof (cases "ident e \<le> cur")
    case True
    then have ne: "?p \<noteq> []" using e(2) by (auto simp: cur_def)
    have "last ?p \<in> set (events st)" using p(2) last_in_set [OF ne] by blast
    from idents_given [OF ok this] have given: "ident e \<le> latest st" using True ne by (simp add: cur_def)
    have "e \<in> set (events st)"
    proof (cases "sts = []")
      case False
      then have "ok (last sts)" "extends st (last sts)" "e \<in> set (events (last sts))"
        using later(1) Cons.prems(2) e(1) by simp_all
      then show ?thesis using nothing_returns [OF ok _ _ _ given] by blast
    qed (use e(1) in simp)
    from poll_all(2) [OF ok Cons.prems(3) this e(2)] True ne show ?thesis by (simp add: es cur_def)
  next
    case False
    then have "es' \<noteq> []" using e(2-4) by (auto simp: es cur_def split: if_splits)
    moreover from this have "sts \<noteq> []" by (auto simp: es'_def)
    ultimately show ?thesis using IH e(1,4) False by (simp add: es)
  qed
  ultimately show ?case by blast
qed simp

text \<open>Once a poll of the last state comes back empty, everything that is still there has been delivered.\<close>

lemma follow_complete:
  assumes "\<forall>st \<in> set sts. ok st" "sorted_wrt extends sts" "0 \<le> after" "es = follow_events poll ident sts after"
    and "sts \<noteq> []" "poll (last sts) (if es = [] then after else ident (last es)) = []"
    and "e \<in> set (events (last sts))" "after < ident e"
  shows "e \<in> set es"
proof -
  let ?cursor = "if es = [] then after else ident (last es)"
  note facts = follow_facts [OF assms(1-4)]
  have "0 \<le> ?cursor" using facts assms(3) last_in_set [of es] by fastforce
  then have "\<not> ?cursor < ident e" using poll_all(1) [OF _ _ assms(7)] assms(1,5,6) by auto
  then have "es \<noteq> [] \<and> ident e \<le> ident (last es)" using assms(8) by (auto split: if_splits)
  with facts assms(5,7,8) show ?thesis by blast
qed

end

end
