(* ===== verification/Cxx_Algorithm.thy ===== *)
theory Cxx_Algorithm
  imports Prelude
begin

text \<open>
  The binary searches of the standard library that the store uses on its ordered buffers:
  \<open>std::ranges::lower_bound\<close> and \<open>std::ranges::upper_bound\<close> with a projection, halving the
  remaining length as the library does, and their agreement with the linear search for the first
  element that fails the predicate, on any sequence partitioned by it.
\<close>

section \<open>The halving search\<close>

function bisect :: "('a \<Rightarrow> bool) \<Rightarrow> 'a list \<Rightarrow> nat \<Rightarrow> nat \<Rightarrow> nat" where
  "bisect p xs first len =
     (if len = 0 then first
      else (let half = len div 2; middle = first + half
            in if p (xs ! middle) then bisect p xs (Suc middle) (len - half - 1)
               else bisect p xs first half))"
  by pat_completeness auto
termination
  by (relation "measure (\<lambda>(p, xs, first, len). len)") auto

declare bisect.simps [simp del]

definition lower_bound :: "('a \<Rightarrow> 'k::linorder) \<Rightarrow> 'k \<Rightarrow> 'a list \<Rightarrow> nat" where
  "lower_bound proj key xs = bisect (\<lambda>x. proj x < key) xs 0 (length xs)"

definition upper_bound :: "('a \<Rightarrow> 'k::linorder) \<Rightarrow> 'k \<Rightarrow> 'a list \<Rightarrow> nat" where
  "upper_bound proj key xs = bisect (\<lambda>x. \<not> key < proj x) xs 0 (length xs)"

text \<open>The two steps of the search, as rules that only fire once the length is known.\<close>

lemma bisect_eval:
  "bisect p xs first 0 = first"
  "0 < len \<Longrightarrow> p (xs ! (first + len div 2)) \<Longrightarrow>
     bisect p xs first len = bisect p xs (Suc (first + len div 2)) (len - len div 2 - 1)"
  "0 < len \<Longrightarrow> \<not> p (xs ! (first + len div 2)) \<Longrightarrow> bisect p xs first len = bisect p xs first (len div 2)"
  by (simp_all add: bisect.simps [of p xs first] Let_def)


section \<open>Correctness on partitioned sequences\<close>

definition partitioned :: "('a \<Rightarrow> bool) \<Rightarrow> 'a list \<Rightarrow> bool" where
  "partitioned p xs \<longleftrightarrow> (\<forall>i j. i < j \<and> j < length xs \<and> p (xs ! j) \<longrightarrow> p (xs ! i))"

lemma partitionedD:
  "partitioned p xs \<Longrightarrow> i < j \<Longrightarrow> j < length xs \<Longrightarrow> p (xs ! j) \<Longrightarrow> p (xs ! i)"
  unfolding partitioned_def by blast

lemma bisect_split:
  assumes "partitioned p xs" "first + len \<le> length xs"
    "\<forall>i < first. p (xs ! i)" "\<forall>i. first + len \<le> i \<and> i < length xs \<longrightarrow> \<not> p (xs ! i)"
  shows "bisect p xs first len \<le> length xs \<and> (\<forall>i < bisect p xs first len. p (xs ! i)) \<and>
    (\<forall>i. bisect p xs first len \<le> i \<and> i < length xs \<longrightarrow> \<not> p (xs ! i))"
  using assms
proof (induction p xs first len rule: bisect.induct)
  case (1 p xs first len)
  show ?case
  proof (cases "len = 0")
    case True
    have "bisect p xs first len = first" using True by (subst bisect.simps) simp
    with True 1(4,5,6) show ?thesis by (simp only:) simp
  next
    case False
    define half where "half = len div 2"
    define middle where "middle = first + half"
    have mid: "middle < length xs" and fin: "Suc middle + (len - half - 1) = first + len"
      using False 1(4) by (simp_all add: middle_def half_def)
    note eq = bisect.simps [of p xs first len]
    show ?thesis
    proof (cases "p (xs ! middle)")
      case True
      have "\<forall>i < Suc middle. p (xs ! i)"
        using partitionedD [OF 1(3) _ mid True] True by (metis less_antisym)
      with 1(4,6) have
        "bisect p xs (Suc middle) (len - half - 1) \<le> length xs \<and>
          (\<forall>i < bisect p xs (Suc middle) (len - half - 1). p (xs ! i)) \<and>
          (\<forall>i. bisect p xs (Suc middle) (len - half - 1) \<le> i \<and> i < length xs \<longrightarrow> \<not> p (xs ! i))"
        by (intro 1(1) [OF False half_def middle_def True 1(3)]) (simp_all only: fin)
      with True False show ?thesis by (simp add: eq half_def middle_def Let_def)
    next
      case np: False
      have "\<forall>i. first + half \<le> i \<and> i < length xs \<longrightarrow> \<not> p (xs ! i)"
        using partitionedD [OF 1(3), of middle] np by (metis middle_def le_neq_implies_less)
      moreover have "first + half \<le> length xs" using mid by (simp add: middle_def)
      ultimately have
        "bisect p xs first half \<le> length xs \<and> (\<forall>i < bisect p xs first half. p (xs ! i)) \<and>
          (\<forall>i. bisect p xs first half \<le> i \<and> i < length xs \<longrightarrow> \<not> p (xs ! i))"
        using 1(5) by (intro 1(2) [OF False half_def middle_def np 1(3)])
      with np False show ?thesis by (simp add: eq half_def middle_def Let_def)
    qed
  qed
qed

lemma bisect_takeWhile:
  assumes "partitioned p xs"
  shows "bisect p xs 0 (length xs) = length (takeWhile p xs)"
proof -
  let ?r = "bisect p xs 0 (length xs)"
  have "?r \<le> length xs \<and> (\<forall>i < ?r. p (xs ! i)) \<and>
      (\<forall>i. ?r \<le> i \<and> i < length xs \<longrightarrow> \<not> p (xs ! i))"
    by (rule bisect_split [OF assms]) auto
  then have r: "?r \<le> length xs" "\<And>i. i < ?r \<Longrightarrow> p (xs ! i)"
    "\<And>i. ?r \<le> i \<Longrightarrow> i < length xs \<Longrightarrow> \<not> p (xs ! i)"
    by blast+
  have "takeWhile p xs = take ?r xs"
    by (rule takeWhile_eq_take_P_nth) (use r(2,3) in blast)+
  with r(1) show ?thesis by simp
qed

lemma bisect_take_drop:
  assumes "partitioned p xs"
  shows "take (bisect p xs 0 (length xs)) xs = takeWhile p xs"
    "drop (bisect p xs 0 (length xs)) xs = dropWhile p xs"
  by (simp_all add: bisect_takeWhile [OF assms] takeWhile_eq_take [symmetric] dropWhile_eq_drop)

lemma partitioned_sorted:
  assumes "sorted (map proj xs)"
  shows "partitioned (\<lambda>x. proj x < key) xs" "partitioned (\<lambda>x. \<not> key < proj x) xs"
proof -
  have m: "proj (xs ! i) \<le> proj (xs ! j)" if "i < j" "j < length xs" for i j
    using sorted_nth_mono [OF assms, of i j] that by simp
  show "partitioned (\<lambda>x. proj x < key) xs" "partitioned (\<lambda>x. \<not> key < proj x) xs"
    using m unfolding partitioned_def by (meson le_less_trans order.strict_trans2 not_less order_trans)+
qed

lemma lower_bound_sorted:
  assumes "sorted (map proj xs)"
  shows "take (lower_bound proj key xs) xs = takeWhile (\<lambda>x. proj x < key) xs"
    "drop (lower_bound proj key xs) xs = dropWhile (\<lambda>x. proj x < key) xs"
  unfolding lower_bound_def by (rule bisect_take_drop [OF partitioned_sorted(1) [OF assms]])+

lemma upper_bound_sorted:
  assumes "sorted (map proj xs)"
  shows "take (upper_bound proj key xs) xs = takeWhile (\<lambda>x. proj x \<le> key) xs"
    "drop (upper_bound proj key xs) xs = dropWhile (\<lambda>x. proj x \<le> key) xs"
  using bisect_take_drop [OF partitioned_sorted(2) [OF assms, of key]]
  unfolding upper_bound_def by (simp_all add: not_less)

end
