(* ===== verification/Memory_Store.thy ===== *)
theory Memory_Store
  imports Store_Interface Cxx_Algorithm "HOL-Library.Multiset"
begin

text \<open>
  \<open>InMemoryTimeSeriesStore\<close>
  (\<open>cpp/aggregator/impl/in_memory_time_series_store\<close>): its state, the ordered bounded buffers and
  \<open>commit_batch\<close>. The writer holds the exclusive lock from the duplicate check to the last
  assignment and readers hold the shared lock, so every operation is one atomic step on the state;
  \<open>Store_Concurrency\<close> proves that from the individual accesses.
\<close>

section \<open>State\<close>

text \<open>
  Buffers are ordered by (timestamp, event ID): \<open>std::pair\<close> compares lexicographically.
\<close>

datatype sample_key = Sample_Key (key_timestamp: int) (key_event: int)

instantiation sample_key :: linorder
begin

definition less_sample_key :: "sample_key \<Rightarrow> sample_key \<Rightarrow> bool" where
  "less_sample_key a b \<longleftrightarrow> key_timestamp a < key_timestamp b \<or>
     (key_timestamp a = key_timestamp b \<and> key_event a < key_event b)"

definition less_eq_sample_key :: "sample_key \<Rightarrow> sample_key \<Rightarrow> bool" where
  "less_eq_sample_key a b \<longleftrightarrow> a < b \<or> a = (b :: sample_key)"

instance
proof
  fix x y z :: sample_key
  show "x < y \<longleftrightarrow> x \<le> y \<and> \<not> y \<le> x" "x \<le> x" "x \<le> y \<Longrightarrow> y \<le> z \<Longrightarrow> x \<le> z"
    "x \<le> y \<Longrightarrow> y \<le> x \<Longrightarrow> x = y"
    by (auto simp: less_sample_key_def less_eq_sample_key_def)
  show "x \<le> y \<or> y \<le> x"
    by (cases x; cases y) (auto simp: less_sample_key_def less_eq_sample_key_def)
qed

end

record stored_metric =
  s_metric :: metric
  s_event_id :: int

definition key_of :: "stored_metric \<Rightarrow> sample_key" where
  "key_of s = Sample_Key (m_timestamp_ms (s_metric s)) (s_event_id s)"

record store =
  capacity_per_metric :: nat
  metric_buffers :: "(string \<times> stored_metric list) list"
  committed_batch_ids :: "string set"
  st_current_event_id :: int

definition default_capacity_per_metric :: nat where
  "default_capacity_per_metric = 10000"

definition new_store :: "nat \<Rightarrow> store" where
  "new_store capacity =
     \<lparr>capacity_per_metric = (if capacity = 0 then default_capacity_per_metric else capacity),
      metric_buffers = [], committed_batch_ids = {}, st_current_event_id = 0\<rparr>"

section \<open>Committing a batch\<close>

definition validate_batch :: "metric_batch \<Rightarrow> store_error option" where
  "validate_batch batch =
     (if b_client_id batch = [] then Some (make_error InvalidArgument ''commit_batch'' ''client_id'' False)
      else if b_batch_id batch = [] then Some (make_error InvalidArgument ''commit_batch'' ''batch_id'' False)
      else if b_metrics batch = [] then Some (make_error InvalidArgument ''commit_batch'' ''metrics'' False)
      else if \<exists>m \<in> set (b_metrics batch). m_name m = [] \<or> \<not> isfinite (m_value m)
           then Some (make_error InvalidArgument ''commit_batch'' ''metric'' False)
      else None)"

definition insert_bounded_metric :: "stored_metric list \<Rightarrow> stored_metric \<Rightarrow> nat \<Rightarrow> stored_metric list" where
  "insert_bounded_metric buffer stored capacity =
     (let inserted =
        (if buffer = [] \<or> key_of (last buffer) \<le> key_of stored then buffer @ [stored]
         else (let i = upper_bound key_of (key_of stored) buffer
               in take i buffer @ [stored] @ drop i buffer))
      in if capacity < length inserted then tl inserted else inserted)"

text \<open>
  The staging loop: the first metric of a name copies that name's buffer (or starts an empty one),
  every metric gets the client identity of the batch and the next event ID.
\<close>

definition stage_buffer :: "store \<Rightarrow> string \<Rightarrow> (string \<times> stored_metric list) list
    \<Rightarrow> (string \<times> stored_metric list) list" where
  "stage_buffer st name staged =
     (case map_of staged name of
        Some _ \<Rightarrow> staged
      | None \<Rightarrow>
          (name, case map_of (metric_buffers st) name of Some buffer \<Rightarrow> buffer | None \<Rightarrow> []) # staged)"

definition insert_staged :: "nat \<Rightarrow> string \<Rightarrow> stored_metric \<Rightarrow> (string \<times> stored_metric list) list
    \<Rightarrow> (string \<times> stored_metric list) list" where
  "insert_staged capacity name stored staged =
     AList.update name
       (insert_bounded_metric (case map_of staged name of Some buffer \<Rightarrow> buffer | None \<Rightarrow> []) stored capacity)
       staged"

fun stage_metrics :: "store \<Rightarrow> string \<Rightarrow> metric list \<Rightarrow> (string \<times> stored_metric list) list \<times> int
    \<Rightarrow> (string \<times> stored_metric list) list \<times> int" where
  "stage_metrics st client [] acc = acc"
| "stage_metrics st client (m # ms) (staged, next_event_id) =
     stage_metrics st client ms
       (insert_staged (capacity_per_metric st) (m_name m)
          \<lparr>s_metric = m\<lparr>m_source_client_id := client\<rparr>, s_event_id = next_event_id + 1\<rparr>
          (stage_buffer st (m_name m) staged),
        next_event_id + 1)"

text \<open>
  Existing buffers are swapped in place; a new name's node moves to an unspecified place of the
  iteration order, here the front.
\<close>

fun publish_staged_buffers :: "(string \<times> 'b) list \<Rightarrow> (string \<times> 'b) list \<Rightarrow> (string \<times> 'b) list" where
  "publish_staged_buffers destination [] = destination"
| "publish_staged_buffers destination ((k, b) # staged) =
     publish_staged_buffers
       (case map_of destination k of
          Some _ \<Rightarrow> AList.update k b destination
        | None \<Rightarrow> (k, b) # destination)
       staged"

definition commit_batch :: "store \<Rightarrow> metric_batch \<Rightarrow> (store_error + batch_commit_outcome) \<times> store" where
  "commit_batch st batch =
     (case validate_batch batch of
        Some e \<Rightarrow> (Inl e, st)
      | None \<Rightarrow>
          if b_batch_id batch \<in> committed_batch_ids st then (Inr Duplicate, st)
          else if int (length (b_metrics batch)) > int64_max - st_current_event_id st
          then (Inl (make_error Constraint ''commit_batch'' ''event_id_exhausted'' False), st)
          else (case stage_metrics st (b_client_id batch) (b_metrics batch) ([], st_current_event_id st) of
              (staged, next_event_id) \<Rightarrow>
                (Inr Committed,
                 st\<lparr>committed_batch_ids := insert (b_batch_id batch) (committed_batch_ids st),
                    metric_buffers := publish_staged_buffers (metric_buffers st) staged,
                    st_current_event_id := next_event_id\<rparr>)))"

definition current_event_id :: "store \<Rightarrow> store_error + int" where
  "current_event_id st = Inr (st_current_event_id st)"

section \<open>Bounded insertion keeps the newest samples\<close>

text \<open>
  \<open>retained cap xs\<close> is what a buffer of capacity \<open>cap\<close> should hold of the samples \<open>xs\<close>: the \<open>cap\<close>
  greatest in the order of (timestamp, event ID).
\<close>

definition retained :: "nat \<Rightarrow> stored_metric list \<Rightarrow> stored_metric list" where
  "retained cap xs = (let s = sort_key key_of xs in drop (length s - cap) s)"

definition ordered_insert :: "stored_metric \<Rightarrow> stored_metric list \<Rightarrow> stored_metric list" where
  "ordered_insert x xs =
     takeWhile (\<lambda>y. key_of y \<le> key_of x) xs @ [x] @ dropWhile (\<lambda>y. key_of y \<le> key_of x) xs"

lemma insert_bounded_ordered:
  assumes "sorted (map key_of buffer)"
  shows "insert_bounded_metric buffer x cap =
    (if cap < Suc (length buffer) then tl (ordered_insert x buffer) else ordered_insert x buffer)"
proof -
  have len: "length (ordered_insert x buffer) = Suc (length buffer)"
    by (simp add: ordered_insert_def length_takeWhile_dropWhile)
  have "(if buffer = [] \<or> key_of (last buffer) \<le> key_of x then buffer @ [x]
      else (let i = upper_bound key_of (key_of x) buffer in take i buffer @ [x] @ drop i buffer))
      = ordered_insert x buffer"
  proof (cases "buffer = [] \<or> key_of (last buffer) \<le> key_of x")
    case True
    have "\<forall>y \<in> set buffer. key_of y \<le> key_of x"
      using sorted_last [OF assms] True by (metis empty_iff list.set(1) order_trans)
    then have tw: "takeWhile (\<lambda>y. key_of y \<le> key_of x) buffer = buffer"
      "dropWhile (\<lambda>y. key_of y \<le> key_of x) buffer = []"
      by (simp_all only: takeWhile_eq_all_conv dropWhile_eq_Nil_conv)
    show ?thesis using True unfolding ordered_insert_def tw by simp
  next
    case False
    then show ?thesis
      by (simp add: Let_def upper_bound_sorted [OF assms] ordered_insert_def)
  qed
  then show ?thesis by (simp add: insert_bounded_metric_def len Let_def)
qed

lemma dropWhile_above:
  assumes "sorted (map key_of xs)" "y \<in> set (dropWhile (\<lambda>y. key_of y \<le> k) xs)"
  shows "k < key_of y"
proof (cases "dropWhile (\<lambda>y. key_of y \<le> k) xs")
  case Nil
  with assms(2) show ?thesis unfolding Nil by simp
next
  case (Cons z zs)
  then have "k < key_of z" by (metis hd_dropWhile list.distinct(1) list.sel(1) not_less)
  moreover have "sorted (map key_of (takeWhile (\<lambda>y. key_of y \<le> k) xs)
      @ map key_of (dropWhile (\<lambda>y. key_of y \<le> k) xs))"
    using assms(1) by (simp flip: map_append)
  then have "\<forall>y \<in> set zs. key_of z \<le> key_of y"
    unfolding Cons by (simp add: sorted_append)
  ultimately show ?thesis using assms(2) unfolding Cons by auto
qed

lemma sorted_ordered_insert:
  assumes "sorted (map key_of xs)"
  shows "sorted (map key_of (ordered_insert x xs))"
proof -
  let ?p = "\<lambda>y. key_of y \<le> key_of x"
  have all: "sorted (map key_of (takeWhile ?p xs @ dropWhile ?p xs))"
    using assms by (simp only: takeWhile_dropWhile_id)
  have lo: "\<forall>y \<in> set (takeWhile ?p xs). key_of y \<le> key_of x" by (meson set_takeWhileD)
  have hi: "\<forall>y \<in> set (dropWhile ?p xs). key_of x \<le> key_of y"
    using dropWhile_above [OF assms] less_imp_le by blast
  show ?thesis unfolding ordered_insert_def by (rule sorted_between [OF all lo hi])
qed

lemma mset_ordered_insert: "mset (ordered_insert x xs) = add_mset x (mset xs)"
proof -
  have "mset xs = mset (takeWhile (\<lambda>y. key_of y \<le> key_of x) xs)
      + mset (dropWhile (\<lambda>y. key_of y \<le> key_of x) xs)"
    by (simp flip: mset_append)
  then show ?thesis by (simp add: ordered_insert_def)
qed

lemma sort_key_snoc:
  assumes "inj_on key_of (set (xs @ [x]))"
  shows "sort_key key_of (xs @ [x]) = ordered_insert x (sort_key key_of xs)"
proof (rule sort_key_inj_key_eq)
  show "mset (xs @ [x]) = mset (ordered_insert x (sort_key key_of xs))"
    by (simp add: mset_ordered_insert)
  show "inj_on key_of (set (xs @ [x]))" by (rule assms)
  show "sorted (map key_of (ordered_insert x (sort_key key_of xs)))"
    by (rule sorted_ordered_insert) simp
qed

text \<open>Inserting into the newest \<open>n\<close> and cutting is cutting after inserting into all.\<close>

lemma ordered_insert_drop:
  assumes "sorted (map key_of s)" "d \<le> length s"
  shows "tl (ordered_insert x (drop d s)) = drop (Suc d) (ordered_insert x s)"
    and "d = 0 \<Longrightarrow> ordered_insert x (drop d s) = ordered_insert x s"
proof -
  let ?p = "\<lambda>y. key_of y \<le> key_of x"
  show "tl (ordered_insert x (drop d s)) = drop (Suc d) (ordered_insert x s)"
  proof (cases "d \<le> length (takeWhile ?p s)")
    case True
    have s: "s = takeWhile ?p s @ dropWhile ?p s" by simp
    have ds: "drop d s = drop d (takeWhile ?p s) @ dropWhile ?p s"
      using True by (subst s) (simp only: drop_append diff_is_0_eq' drop_0)
    have "\<forall>y \<in> set (drop d (takeWhile ?p s)). ?p y"
      by (meson in_set_dropD set_takeWhileD)
    note block = takeWhile_block [OF this takeWhile_dropWhile_Nil]
    have t: "takeWhile ?p (drop d s) = drop d (takeWhile ?p s)" "dropWhile ?p (drop d s) = dropWhile ?p s"
      unfolding ds by (rule block)+
    have "drop d (ordered_insert x s) = ordered_insert x (drop d s)"
      using True by (simp add: ordered_insert_def t)
    then show ?thesis by (metis drop_Suc tl_drop)
  next
    case False
    have s: "s = takeWhile ?p s @ dropWhile ?p s" by simp
    have ds: "drop d s = drop (d - length (takeWhile ?p s)) (dropWhile ?p s)"
      using False by (subst s) (simp only: drop_append, simp)
    have np: "\<forall>y \<in> set (drop d s). \<not> ?p y"
      unfolding ds using dropWhile_above [OF assms(1)] by (meson in_set_dropD not_less)
    then have "takeWhile ?p (drop d s) = []" "dropWhile ?p (drop d s) = drop d s"
      by (cases "drop d s"; simp)+
    then have "tl (ordered_insert x (drop d s)) = drop d s"
      by (simp add: ordered_insert_def)
    moreover have "drop (Suc d) (ordered_insert x s) = drop d s"
      unfolding ds using False by (simp add: ordered_insert_def Suc_diff_le)
    ultimately show ?thesis by simp
  qed
qed simp

lemma length_ordered_insert [simp]: "length (ordered_insert x xs) = Suc (length xs)"
  by (simp add: ordered_insert_def length_takeWhile_dropWhile)

lemma insert_bounded_retained:
  assumes "inj_on key_of (set (xs @ [x]))"
  shows "insert_bounded_metric (retained cap xs) x cap = retained cap (xs @ [x])"
proof -
  let ?s = "sort_key key_of xs" and ?d = "length xs - cap"
  have R: "retained cap xs = drop ?d ?s" by (simp add: retained_def)
  have sorted: "sorted (map key_of (drop ?d ?s))"
    using sorted_wrt_drop [of "(\<le>)" "map key_of ?s" ?d] by (simp add: drop_map)
  have new: "retained cap (xs @ [x]) = drop (Suc (length xs) - cap) (ordered_insert x ?s)"
    by (simp add: retained_def Let_def sort_key_snoc [OF assms])
  show ?thesis
  proof (cases "cap \<le> length xs")
    case True
    then have "insert_bounded_metric (drop ?d ?s) x cap = tl (ordered_insert x (drop ?d ?s))"
      by (simp add: insert_bounded_ordered [OF sorted])
    also have "\<dots> = drop (Suc ?d) (ordered_insert x ?s)"
      by (rule ordered_insert_drop) simp_all
    finally show ?thesis unfolding R new using True by (simp add: Suc_diff_le)
  next
    case False
    then have "insert_bounded_metric (drop ?d ?s) x cap = ordered_insert x (drop ?d ?s)"
      by (subst insert_bounded_ordered [OF sorted]) simp
    with False show ?thesis unfolding R new by simp
  qed
qed

lemma retained_Nil [simp]: "retained cap [] = []"
  by (simp add: retained_def)

lemma retained_single: "0 < cap \<Longrightarrow> retained cap [x] = [x]"
  by (simp add: retained_def)

lemma retained_facts:
  "sorted (map key_of (retained cap xs))" "set (retained cap xs) \<subseteq> set xs"
  "length (retained cap xs) = min cap (length xs)" "length xs \<le> cap \<Longrightarrow> set (retained cap xs) = set xs"
proof -
  show "sorted (map key_of (retained cap xs))"
    using sorted_wrt_drop [of "(\<le>)" "map key_of (sort_key key_of xs)"]
    by (simp add: retained_def drop_map Let_def)
  show "set (retained cap xs) \<subseteq> set xs"
    using set_drop_subset [of _ "sort_key key_of xs"] by (simp add: retained_def Let_def)
  show "length (retained cap xs) = min cap (length xs)" by (simp add: retained_def Let_def)
  show "length xs \<le> cap \<Longrightarrow> set (retained cap xs) = set xs" by (simp add: retained_def)
qed

section \<open>The event log behind the buffers\<close>

text \<open>
  The abstract store is the list of every metric ever committed, in commit order: the event with ID
  \<open>i + 1\<close> is at position \<open>i\<close>. The buffer of a name holds the newest retained samples of that name.
\<close>

definition stored_of :: "metric list \<Rightarrow> stored_metric list" where
  "stored_of hist = map (\<lambda>i. \<lparr>s_metric = hist ! i, s_event_id = int (Suc i)\<rparr>) [0..<length hist]"

definition samples :: "metric list \<Rightarrow> string \<Rightarrow> stored_metric list" where
  "samples hist n = filter (\<lambda>s. m_name (s_metric s) = n) (stored_of hist)"

definition log_entry_ok :: "metric \<Rightarrow> bool" where
  "log_entry_ok m \<longleftrightarrow> m_name m \<noteq> [] \<and> isfinite (m_value m) \<and> m_source_client_id m \<noteq> []"

definition store_log :: "store \<Rightarrow> metric list \<Rightarrow> bool" where
  "store_log st hist \<longleftrightarrow>
     0 < capacity_per_metric st \<and> st_current_event_id st = int (length hist) \<and>
     int (length hist) \<le> int64_max \<and> keys_distinct (metric_buffers st) \<and>
     (\<forall>m \<in> set hist. log_entry_ok m) \<and>
     (\<forall>n. map_of (metric_buffers st) n =
        (if samples hist n = [] then None else Some (retained (capacity_per_metric st) (samples hist n))))"

lemma stored_of_snoc:
  "stored_of (hist @ [m]) = stored_of hist @ [\<lparr>s_metric = m, s_event_id = int (length hist) + 1\<rparr>]"
  by (simp add: stored_of_def nth_append)

lemma length_stored_of [simp]: "length (stored_of hist) = length hist"
  by (simp add: stored_of_def)

lemma stored_of_nth: "i < length hist \<Longrightarrow>
    stored_of hist ! i = \<lparr>s_metric = hist ! i, s_event_id = int (Suc i)\<rparr>"
  by (simp add: stored_of_def)

lemma samples_snoc:
  "samples (hist @ [m]) n = samples hist n @
     (if m_name m = n then [\<lparr>s_metric = m, s_event_id = int (length hist) + 1\<rparr>] else [])"
  by (simp add: samples_def stored_of_snoc)

lemma set_stored_ofD:
  "s \<in> set (stored_of hist) \<Longrightarrow>
     1 \<le> s_event_id s \<and> s_event_id s \<le> int (length hist) \<and> s_metric s = hist ! nat (s_event_id s - 1)"
  by (auto simp: stored_of_def)

lemma stored_of_event_inj: "inj_on s_event_id (set (stored_of hist))"
  by (rule inj_onI) (auto simp: stored_of_def)

lemma samples_key_inj: "inj_on key_of (set (samples hist n))"
proof (rule inj_onI)
  fix s t assume "s \<in> set (samples hist n)" "t \<in> set (samples hist n)" "key_of s = key_of t"
  then show "s = t" using stored_of_event_inj [of hist] by (auto simp: samples_def key_of_def inj_on_def)
qed

lemma new_store_log: "store_log (new_store n) []"
  by (simp add: store_log_def new_store_def samples_def stored_of_def int64_max_def
      default_capacity_per_metric_def)

section \<open>The staging loop against the log\<close>

definition owned :: "string \<Rightarrow> metric \<Rightarrow> metric" where
  "owned client m = m\<lparr>m_source_client_id := client\<rparr>"

lemma m_name_owned [simp]: "m_name (owned c m) = m_name m" "m_value (owned c m) = m_value m"
  "m_source_client_id (owned c m) = c"
  by (simp_all add: owned_def)

definition staged_ok :: "store \<Rightarrow> metric list \<Rightarrow> metric list \<Rightarrow> (string \<times> stored_metric list) list \<Rightarrow> bool" where
  "staged_ok st base prev staged \<longleftrightarrow> keys_distinct staged \<and>
     (\<forall>n. map_of staged n = (if n \<in> m_name ` set prev
        then Some (retained (capacity_per_metric st) (samples (base @ prev) n)) else None))"

lemma samples_untouched: "n \<notin> m_name ` set prev \<Longrightarrow> samples (base @ prev) n = samples base n"
proof (induction prev rule: rev_induct)
  case (snoc m prev)
  then show ?case using samples_snoc [of "base @ prev" m n] by (auto split: if_splits)
qed simp

lemma stage_step:
  assumes "store_log st base" "staged_ok st base prev staged"
  shows "staged_ok st base (prev @ [owned c m])
    (insert_staged (capacity_per_metric st) (m_name m)
       \<lparr>s_metric = owned c m, s_event_id = int (length (base @ prev)) + 1\<rparr>
       (stage_buffer st (m_name m) staged))"
proof -
  let ?cap = "capacity_per_metric st" and ?n = "m_name m" and ?staged = "stage_buffer st (m_name m) staged"
  let ?stored = "\<lparr>s_metric = owned c m, s_event_id = int (length (base @ prev)) + 1\<rparr>"
  have buf: "(case map_of ?staged ?n of Some b \<Rightarrow> b | None \<Rightarrow> []) = retained ?cap (samples (base @ prev) ?n)"
  proof (cases "?n \<in> m_name ` set prev")
    case True
    with assms(2) show ?thesis by (simp add: stage_buffer_def staged_ok_def)
  next
    case False
    with assms(1,2) show ?thesis
      by (simp add: stage_buffer_def staged_ok_def store_log_def samples_untouched)
  qed
  have new: "samples (base @ prev @ [owned c m]) ?n = samples (base @ prev) ?n @ [?stored]"
    using samples_snoc [of "base @ prev" "owned c m" ?n] by simp
  have "insert_bounded_metric (retained ?cap (samples (base @ prev) ?n)) ?stored ?cap
      = retained ?cap (samples (base @ prev @ [owned c m]) ?n)"
    unfolding new using samples_key_inj [of "base @ prev @ [owned c m]" ?n] unfolding new
    by (rule insert_bounded_retained)
  moreover have "keys_distinct ?staged"
    using assms(2) by (auto simp: stage_buffer_def staged_ok_def split: option.split)
  moreover have "map_of ?staged n = map_of staged n" if "n \<noteq> ?n" for n
    using that by (simp add: stage_buffer_def split: option.split)
  moreover have "samples (base @ prev @ [owned c m]) n = samples (base @ prev) n" if "n \<noteq> ?n" for n
    using that samples_snoc [of "base @ prev" "owned c m" n] by simp
  ultimately show ?thesis
    using assms(2) unfolding insert_staged_def buf by (auto simp: staged_ok_def update_conv')
qed

lemma stage_metrics_log:
  assumes "store_log st base" "staged_ok st base prev staged"
  shows "staged_ok st base (prev @ map (owned c) ms)
      (fst (stage_metrics st c ms (staged, int (length (base @ prev))))) \<and>
    snd (stage_metrics st c ms (staged, int (length (base @ prev)))) = int (length (base @ prev @ ms))"
  using assms(2)
proof (induction ms arbitrary: prev staged)
  case Nil
  then show ?case by simp
next
  case (Cons m ms)
  note staged = stage_step [OF assms(1) Cons.prems, where m = m and c = c]
  show ?case using Cons.IH [OF staged] by (simp add: Let_def owned_def [symmetric] add_ac)
qed

lemma publish_lookup:
  assumes "keys_distinct destination" "keys_distinct staged"
  shows "keys_distinct (publish_staged_buffers destination staged) \<and>
    map_of (publish_staged_buffers destination staged) n =
      (case map_of staged n of Some b \<Rightarrow> Some b | None \<Rightarrow> map_of destination n)"
  using assms
proof (induction destination staged rule: publish_staged_buffers.induct)
  case (1 destination)
  then show ?case by simp
next
  case (2 destination k b staged)
  let ?d = "case map_of destination k of Some _ \<Rightarrow> AList.update k b destination | None \<Rightarrow> (k, b) # destination"
  have "keys_distinct ?d" using 2(2) by (auto split: option.split)
  moreover have "map_of ?d m = (if m = k then Some b else map_of destination m)" for m
    by (auto simp: update_conv' split: option.split)
  ultimately show ?case using 2 by (auto split: option.split)
qed

section \<open>A commit against the log\<close>

lemma validate_batch_None:
  "validate_batch b = None \<longleftrightarrow> b_client_id b \<noteq> [] \<and> b_batch_id b \<noteq> [] \<and> b_metrics b \<noteq> [] \<and>
     (\<forall>m \<in> set (b_metrics b). m_name m \<noteq> [] \<and> isfinite (m_value m))"
  by (auto simp: validate_batch_def)

lemma samples_append_empty:
  "samples (base @ prev) n = [] \<longleftrightarrow> samples base n = [] \<and> n \<notin> m_name ` set prev"
proof (induction prev rule: rev_induct)
  case (snoc m prev)
  then show ?case using samples_snoc [of "base @ prev" m n] by (auto split: if_splits)
qed simp

text \<open>The four outcomes of a commit, as introduction and elimination of its result.\<close>

lemma commit_batch_cases:
  obtains (invalid) e where "validate_batch b = Some e" "commit_batch st b = (Inl e, st)"
  | (duplicate) "validate_batch b = None" "b_batch_id b \<in> committed_batch_ids st"
      "commit_batch st b = (Inr Duplicate, st)"
  | (exhausted) "validate_batch b = None" "b_batch_id b \<notin> committed_batch_ids st"
      "int64_max - st_current_event_id st < int (length (b_metrics b))"
      "commit_batch st b = (Inl (make_error Constraint ''commit_batch'' ''event_id_exhausted'' False), st)"
  | (committed) staged next_id where "validate_batch b = None" "b_batch_id b \<notin> committed_batch_ids st"
      "int (length (b_metrics b)) \<le> int64_max - st_current_event_id st"
      "stage_metrics st (b_client_id b) (b_metrics b) ([], st_current_event_id st) = (staged, next_id)"
      "commit_batch st b = (Inr Committed,
         st\<lparr>committed_batch_ids := insert (b_batch_id b) (committed_batch_ids st),
            metric_buffers := publish_staged_buffers (metric_buffers st) staged,
            st_current_event_id := next_id\<rparr>)"
proof (cases "validate_batch b")
  case (Some e)
  then show thesis by (intro invalid) (simp_all add: commit_batch_def)
next
  case None
  obtain staged next_id where s:
    "stage_metrics st (b_client_id b) (b_metrics b) ([], st_current_event_id st) = (staged, next_id)"
    by fastforce
  consider "b_batch_id b \<in> committed_batch_ids st"
    | "b_batch_id b \<notin> committed_batch_ids st" "int64_max - st_current_event_id st < int (length (b_metrics b))"
    | "b_batch_id b \<notin> committed_batch_ids st" "int (length (b_metrics b)) \<le> int64_max - st_current_event_id st"
    by linarith
  then show thesis
  proof cases
    case 1
    with None show thesis by (intro duplicate) (simp_all add: commit_batch_def)
  next
    case 2
    with None show thesis by (intro exhausted) (simp_all add: commit_batch_def)
  next
    case 3
    with None s show thesis by (intro committed) (simp_all add: commit_batch_def)
  qed
qed

lemma commit_committed_log:
  assumes log: "store_log st hist" and c: "commit_batch st b = (Inr Committed, st')"
  shows "store_log st' (hist @ map (owned (b_client_id b)) (b_metrics b)) \<and>
    b_batch_id b \<notin> committed_batch_ids st \<and>
    committed_batch_ids st' = insert (b_batch_id b) (committed_batch_ids st) \<and>
    capacity_per_metric st' = capacity_per_metric st"
proof (cases rule: commit_batch_cases [of b st])
  case (committed staged next_id)
  let ?new = "map (owned (b_client_id b)) (b_metrics b)" and ?cap = "capacity_per_metric st"
  have id: "st_current_event_id st = int (length (hist @ []))" using log by (simp add: store_log_def)
  have init: "staged_ok st hist [] []" by (simp add: staged_ok_def)
  have staged: "staged_ok st hist ?new staged" "next_id = int (length (hist @ ?new))"
    using stage_metrics_log [OF log init, of "b_client_id b" "b_metrics b"] committed(4)
    unfolding id by simp_all
  have st': "st' = st\<lparr>committed_batch_ids := insert (b_batch_id b) (committed_batch_ids st),
            metric_buffers := publish_staged_buffers (metric_buffers st) staged,
            st_current_event_id := next_id\<rparr>"
    using committed(5) c by simp
  have pub: "keys_distinct (publish_staged_buffers (metric_buffers st) staged)"
    "map_of (publish_staged_buffers (metric_buffers st) staged) n =
      (case map_of staged n of Some b \<Rightarrow> Some b | None \<Rightarrow> map_of (metric_buffers st) n)" for n
    using publish_lookup [of "metric_buffers st" staged] staged(1) log
    by (simp_all add: staged_ok_def store_log_def)
  have look: "map_of (metric_buffers st') n = (if samples (hist @ ?new) n = [] then None
      else Some (retained ?cap (samples (hist @ ?new) n)))" for n
    using staged(1) log
    by (simp add: st' pub staged_ok_def store_log_def samples_append_empty samples_untouched image_image)
  have "\<forall>m \<in> set (hist @ ?new). log_entry_ok m"
    using log committed(1) by (auto simp: store_log_def log_entry_ok_def validate_batch_None)
  moreover have "int (length (hist @ ?new)) \<le> int64_max"
    using committed(3) by (simp add: id)
  moreover have "keys_distinct (metric_buffers st')" using pub(1) by (simp add: st')
  ultimately show ?thesis
    using committed(2) log look staged(2) by (simp add: store_log_def st')
qed (use c in simp_all)

lemma commit_unchanged:
  "commit_batch st b = (r, st') \<Longrightarrow> r \<noteq> Inr Committed \<Longrightarrow> st' = st"
  by (cases rule: commit_batch_cases [of b st]) simp_all

section \<open>The store as an implementation of the contract\<close>

definition store_ok :: "store \<Rightarrow> bool" where
  "store_ok st \<longleftrightarrow> (\<exists>hist. store_log st hist)"

lemma commit_store_ok: "store_ok st \<Longrightarrow> store_ok (snd (commit_batch st b))"
proof -
  assume "store_ok st"
  then obtain hist where log: "store_log st hist" by (auto simp: store_ok_def)
  obtain r st' where c: "commit_batch st b = (r, st')" by fastforce
  show ?thesis
  proof (cases "r = Inr Committed")
    case True
    with commit_committed_log [OF log] c show ?thesis by (auto simp: store_ok_def)
  next
    case False
    with commit_unchanged [OF c] log c show ?thesis by (auto simp: store_ok_def)
  qed
qed

interpretation memory_store: batch_store commit_batch b_batch_id committed_batch_ids
  "\<lambda>b. validate_batch b \<noteq> None" store_ok
proof unfold_locales
  fix st :: store and b :: metric_batch and e :: store_error and st' :: store
  assume ok: "store_ok st"
  show "store_ok (snd (commit_batch st b))" by (rule commit_store_ok [OF ok])
  show "commit_batch st b = (Inr Duplicate, st)"
    if "\<not> validate_batch b \<noteq> None" "b_batch_id b \<in> committed_batch_ids st"
    using that by (cases rule: commit_batch_cases [of b st]) simp_all
  show "st' = st" if "commit_batch st b = (Inl e, st')"
    using commit_unchanged [OF that] by simp
  show "\<exists>e. commit_batch st b = (Inl e, st)" if "validate_batch b \<noteq> None"
    using that by (cases rule: commit_batch_cases [of b st]) simp_all
  show "b_batch_id b \<notin> committed_batch_ids st \<and>
      committed_batch_ids st' = insert (b_batch_id b) (committed_batch_ids st)"
    if "commit_batch st b = (Inr Committed, st')"
    using ok commit_committed_log [OF _ that] by (auto simp: store_ok_def)
  show "b_batch_id b \<in> committed_batch_ids st \<and> st' = st"
    if "commit_batch st b = (Inr Duplicate, st')"
    using that by (cases rule: commit_batch_cases [of b st]) simp_all
qed

text \<open>The log that a sequence of commits with their results builds.\<close>

fun committed_log :: "metric_batch list \<Rightarrow> (store_error + batch_commit_outcome) list \<Rightarrow> metric list" where
  "committed_log (b # bs) (r # rs) =
     (if r = Inr Committed then map (owned (b_client_id b)) (b_metrics b) else []) @ committed_log bs rs"
| "committed_log _ _ = []"

lemma commit_all_log:
  assumes "store_log st hist" "commit_all commit_batch bs st = (rs, st')"
  shows "store_log st' (hist @ committed_log bs rs) \<and> capacity_per_metric st' = capacity_per_metric st"
  using assms
proof (induction bs arbitrary: st hist rs)
  case Nil
  then show ?case by simp
next
  case (Cons b bs)
  obtain r st1 where c: "commit_batch st b = (r, st1)" by fastforce
  obtain rs1 where cs: "commit_all commit_batch bs st1 = (rs1, st')" and rs: "rs = r # rs1"
    using Cons.prems(2) c by (auto split: prod.splits)
  show ?case
  proof (cases "r = Inr Committed")
    case True
    note l = commit_committed_log [OF Cons.prems(1), of b st1]
    with c True have "store_log st1 (hist @ map (owned (b_client_id b)) (b_metrics b))"
      "capacity_per_metric st1 = capacity_per_metric st" by simp_all
    with Cons.IH [OF this(1) cs] True rs show ?thesis by simp
  next
    case False
    with commit_unchanged [OF c] have "st1 = st" by simp
    with Cons.IH [OF _ cs] Cons.prems(1) False rs show ?thesis by simp
  qed
qed

section \<open>Properties of ingestion\<close>

fun committed_batches :: "metric_batch list \<Rightarrow> (store_error + batch_commit_outcome) list \<Rightarrow> metric_batch list" where
  "committed_batches (b # bs) (r # rs) = (if r = Inr Committed then [b] else []) @ committed_batches bs rs"
| "committed_batches _ _ = []"

lemma committed_log_batches:
  "committed_log bs rs = concat (map (\<lambda>b. map (owned (b_client_id b)) (b_metrics b)) (committed_batches bs rs))"
  by (induction bs rs rule: committed_batches.induct) simp_all

lemma store_ok_new: "store_ok (new_store cap)"
  using new_store_log by (auto simp: store_ok_def)

lemma commit_all_once:
  assumes "store_ok st" "commit_all commit_batch bs st = (rs, st')"
  shows "distinct (map b_batch_id (committed_batches bs rs)) \<and>
    committed_batch_ids st' = committed_batch_ids st \<union> b_batch_id ` set (committed_batches bs rs) \<and>
    committed_batch_ids st \<inter> b_batch_id ` set (committed_batches bs rs) = {}"
  using assms
proof (induction bs arbitrary: st rs)
  case Nil
  then show ?case by simp
next
  case (Cons b bs)
  obtain r st1 where c: "commit_batch st b = (r, st1)" by fastforce
  obtain rs1 where cs: "commit_all commit_batch bs st1 = (rs1, st')" and rs: "rs = r # rs1"
    using Cons.prems(2) c by (auto split: prod.splits)
  have ok: "store_ok st1" using commit_store_ok [OF Cons.prems(1), of b] c by simp
  note IH = Cons.IH [OF ok cs]
  show ?case
  proof (cases "r = Inr Committed")
    case True
    with memory_store.commit_new [OF Cons.prems(1), of b st1] c
    have "b_batch_id b \<notin> committed_batch_ids st"
      "committed_batch_ids st1 = insert (b_batch_id b) (committed_batch_ids st)" by simp_all
    with IH True rs show ?thesis by auto
  next
    case False
    with commit_unchanged [OF c] IH rs show ?thesis by simp
  qed
qed

text \<open>
  C2: Refinement of the abstract event log. After any sequence of commits on a new store, the state
  is a function of the log of committed metrics, in commit order and owned by their batches'
  clients: event IDs are gap free from one to the length of the log (which fits in an int64), and
  the buffer of every metric name is the newest \<open>capacity\<close> samples of that name in the order of
  (timestamp, event ID), present only for names that occur.
\<close>

theorem commits_refine_event_log:
  assumes "commit_all commit_batch bs (new_store cap) = (rs, st)"
  shows "current_event_id st = Inr (int (length (committed_log bs rs))) \<and>
    int (length (committed_log bs rs)) \<le> int64_max \<and>
    capacity_per_metric st = (if cap = 0 then default_capacity_per_metric else cap) \<and>
    keys_distinct (metric_buffers st) \<and>
    map_of (metric_buffers st) n =
      (if samples (committed_log bs rs) n = [] then None
       else Some (retained (capacity_per_metric st) (samples (committed_log bs rs) n)))"
  using commit_all_log [OF new_store_log assms]
  by (simp add: store_log_def current_event_id_def new_store_def)

lemmas store_eval = commit_batch_def validate_batch_def new_store_def make_error_def
  stage_buffer_def insert_staged_def insert_bounded_metric_def upper_bound_def
  bisect_eval key_of_def less_eq_sample_key_def less_sample_key_def

theorem commits_refine_event_log_witness:
  "\<exists>rs st. commit_all commit_batch
      [example_batch ''b1'' [example_metric ''cpu'' 3 20, example_metric ''cpu'' 4 10],
       example_batch ''b1'' [example_metric ''cpu'' 9 30]] (new_store 5) = (rs, st) \<and>
    rs = [Inr Committed, Inr Duplicate] \<and>
    current_event_id st = Inr (int (length (committed_log
      [example_batch ''b1'' [example_metric ''cpu'' 3 20, example_metric ''cpu'' 4 10],
       example_batch ''b1'' [example_metric ''cpu'' 9 30]] rs)))"
proof -
  let ?bs = "[example_batch ''b1'' [example_metric ''cpu'' 3 20, example_metric ''cpu'' 4 10],
       example_batch ''b1'' [example_metric ''cpu'' 9 30]]"
  obtain rs st where c: "commit_all commit_batch ?bs (new_store 5) = (rs, st)" by fastforce
  then have "rs = [Inr Committed, Inr Duplicate]"
    by (simp add: store_eval example_defs int64_max_def Let_def split: prod.splits)
  with c commits_refine_event_log [OF c] show ?thesis by blast
qed

text \<open>
  C14: Idempotent ingestion. In any sequence of commits on a new store no batch ID is committed
  twice, the store remembers exactly the IDs it committed, and delivering an already committed batch
  once more at any point of the sequence leaves the final state unchanged.
\<close>

theorem commits_are_idempotent:
  assumes "commit_all commit_batch bs (new_store cap) = (rs, st)"
  shows "distinct (map b_batch_id (committed_batches bs rs)) \<and>
    committed_batch_ids st = b_batch_id ` set (committed_batches bs rs) \<and>
    (b_batch_id b \<in> committed_batch_ids st \<longrightarrow>
       snd (commit_all commit_batch (bs @ [b] @ later) (new_store cap)) =
       snd (commit_all commit_batch (bs @ later) (new_store cap)))"
  using commit_all_once [OF store_ok_new assms] assms
    memory_store.redelivery_invisible [OF store_ok_new, of b bs cap later]
  by (simp add: new_store_def)

theorem commits_are_idempotent_witness:
  "snd (commit_all commit_batch ([example_batch ''b1'' [example_metric ''cpu'' 3 20]] @
       [example_batch ''b1'' [example_metric ''cpu'' 9 30]] @ [example_batch ''b2'' [example_metric ''cpu'' 5 10]])
       (new_store 2)) =
   snd (commit_all commit_batch ([example_batch ''b1'' [example_metric ''cpu'' 3 20]] @
       [example_batch ''b2'' [example_metric ''cpu'' 5 10]]) (new_store 2))"
proof -
  obtain rs st where c: "commit_all commit_batch [example_batch ''b1'' [example_metric ''cpu'' 3 20]] (new_store 2) = (rs, st)"
    by fastforce
  then have "''b1'' \<in> committed_batch_ids st"
    by (auto simp: store_eval example_defs int64_max_def Let_def split: prod.splits)
  then show ?thesis
    using commits_are_idempotent [OF c, of "example_batch ''b1'' [example_metric ''cpu'' 9 30]"
      "[example_batch ''b2'' [example_metric ''cpu'' 5 10]]"] by (simp add: example_batch_def)
qed

text \<open>
  C34: Which commits are refused, and with what. On a reachable store a commit fails exactly when the
  batch is malformed (the first offending field, in the order client ID, batch ID, metrics, metric,
  is named) or, for a valid batch not committed before, when its metrics no longer fit below the
  greatest event ID; every failure and every duplicate leaves the store as it was.
\<close>

theorem commit_refusals:
  assumes "commit_all commit_batch bs (new_store cap) = (rs, st)" "commit_batch st b = (r, st')"
  shows "(r \<noteq> Inr Committed \<longrightarrow> st' = st) \<and>
    (\<forall>e. r = Inl e \<longrightarrow> \<not> err_retryable e \<and> err_operation e = ''commit_batch'' \<and>
      (err_code e, err_context e) =
        (if b_client_id b = [] then (InvalidArgument, ''client_id'')
         else if b_batch_id b = [] then (InvalidArgument, ''batch_id'')
         else if b_metrics b = [] then (InvalidArgument, ''metrics'')
         else if \<exists>m \<in> set (b_metrics b). m_name m = [] \<or> \<not> isfinite (m_value m)
              then (InvalidArgument, ''metric'')
         else (Constraint, ''event_id_exhausted''))) \<and>
    (has_value r \<longleftrightarrow> validate_batch b = None \<and>
      (b_batch_id b \<in> committed_batch_ids st \<or>
       int (length (committed_log bs rs)) + int (length (b_metrics b)) \<le> int64_max))"
proof -
  have id: "st_current_event_id st = int (length (committed_log bs rs))"
    using commit_all_log [OF new_store_log assms(1)] by (simp add: store_log_def)
  show ?thesis
  proof (cases rule: commit_batch_cases [of b st])
    case (invalid e)
    then show ?thesis using assms(2)
      by (auto simp: validate_batch_def make_error_def split: if_splits)
  next
    case duplicate
    then show ?thesis using assms(2) by auto
  next
    case exhausted
    then show ?thesis using assms(2) id
      by (auto simp: validate_batch_None make_error_def)
  next
    case committed
    then show ?thesis using assms(2) id by auto
  qed
qed

theorem commit_refusals_witness:
  "commit_batch (new_store 2) (example_batch ''b1'' [default_metric]) =
     (Inl (make_error InvalidArgument ''commit_batch'' ''metric'' False), new_store 2)"
proof -
  let ?b = "example_batch ''b1'' [default_metric]"
  obtain r st' where c: "commit_batch (new_store 2) ?b = (r, st')" by fastforce
  have none: "commit_all commit_batch [] (new_store 2) = ([], new_store 2)" by simp
  have bad: "validate_batch ?b \<noteq> None" by (simp add: validate_batch_def example_defs)
  note t = commit_refusals [OF none c]
  from t bad have "\<not> has_value r" by simp
  then obtain e where r: "r = Inl e" by (cases r) simp_all
  have "st' = new_store 2" using t r by simp
  moreover have "e = make_error InvalidArgument ''commit_batch'' ''metric'' False"
    using t r by (cases e) (simp add: example_defs make_error_def)
  ultimately show ?thesis using c r by simp
qed

text \<open>
  C23: The bounded ordered insertion, with its fast path for the newest sample, its binary search and
  its eviction, is the specification "sort by (timestamp, event ID) and keep the newest
  \<open>capacity\<close>": for every ordered buffer within its capacity and every sample of a new key.
\<close>

theorem insert_keeps_newest:
  assumes "sorted (map key_of buffer)" "length buffer \<le> cap" "distinct (map key_of buffer)"
    "key_of s \<notin> key_of ` set buffer"
  shows "insert_bounded_metric buffer s cap = retained cap (buffer @ [s])"
proof -
  have "retained cap buffer = buffer"
    using assms(1,2) by (simp add: retained_def sorted_sort_id sort_key_id_if_sorted)
  moreover have "inj_on key_of (set (buffer @ [s]))"
    using assms(3,4) by (auto simp: distinct_map)
  ultimately show ?thesis using insert_bounded_retained [of buffer s cap] by simp
qed

theorem insert_keeps_newest_witness:
  "insert_bounded_metric
     [\<lparr>s_metric = example_metric ''cpu'' 1 10, s_event_id = 1\<rparr>, \<lparr>s_metric = example_metric ''cpu'' 2 30, s_event_id = 2\<rparr>]
     \<lparr>s_metric = example_metric ''cpu'' 3 20, s_event_id = 3\<rparr> 2 =
   retained 2 ([\<lparr>s_metric = example_metric ''cpu'' 1 10, s_event_id = 1\<rparr>,
     \<lparr>s_metric = example_metric ''cpu'' 2 30, s_event_id = 2\<rparr>] @ [\<lparr>s_metric = example_metric ''cpu'' 3 20, s_event_id = 3\<rparr>])"
  by (rule insert_keeps_newest) (simp_all add: key_of_def example_defs less_eq_sample_key_def less_sample_key_def)

text \<open>
  A late sample of a full buffer is acknowledged but never visible: when the buffer of a name is
  at capacity and every retained sample is newer, committing a single older sample of that name
  succeeds and consumes an event ID, yet leaves the buffer exactly as it was.
\<close>

lemma late_sample_is_dropped:
  assumes "commit_all commit_batch bs (new_store cap) = (rs, st)"
    "map_of (metric_buffers st) (m_name m) = Some buffer" "length buffer = capacity_per_metric st"
    "\<forall>s \<in> set buffer. m_timestamp_ms m < m_timestamp_ms (s_metric s)"
    "b_metrics b = [m]" "commit_batch st b = (Inr Committed, st')"
  shows "map_of (metric_buffers st') (m_name m) = Some buffer \<and>
    st_current_event_id st' = st_current_event_id st + 1"
proof -
  let ?cap = "capacity_per_metric st" and ?log = "committed_log bs rs" and ?m = "owned (b_client_id b) m"
  let ?s = "\<lparr>s_metric = ?m, s_event_id = int (length ?log) + 1\<rparr>"
  have log: "store_log st ?log" using commit_all_log [OF new_store_log assms(1)] by simp
  then have buffer: "buffer = retained ?cap (samples ?log (m_name m))" and cap: "0 < ?cap"
    using assms(2) by (simp_all add: store_log_def split: if_splits)
  have new: "samples (?log @ [?m]) (m_name m) = samples ?log (m_name m) @ [?s]"
    using samples_snoc [of ?log ?m "m_name m"] by simp
  have "retained ?cap (samples (?log @ [?m]) (m_name m)) = insert_bounded_metric buffer ?s ?cap"
    unfolding new buffer using samples_key_inj [of "?log @ [?m]" "m_name m"] unfolding new
    by (rule insert_bounded_retained [symmetric])
  also have "\<dots> = tl (ordered_insert ?s buffer)"
    using retained_facts(1) [of ?cap] assms(3) unfolding buffer by (simp add: insert_bounded_ordered)
  also have "\<dots> = buffer"
  proof -
    have "\<not> key_of y \<le> key_of ?s" if "y \<in> set buffer" for y
      using assms(4) that by (auto simp: key_of_def less_eq_sample_key_def less_sample_key_def owned_def)
    moreover have "buffer \<noteq> []" using assms(3) cap by auto
    ultimately show ?thesis by (cases buffer) (simp_all add: ordered_insert_def)
  qed
  finally have same: "retained ?cap (samples (?log @ [?m]) (m_name m)) = buffer" .
  have "store_log st' (?log @ [?m]) \<and> capacity_per_metric st' = ?cap"
    using commit_committed_log [OF log assms(6)] assms(5) by simp
  then show ?thesis using log same new by (simp add: store_log_def)
qed

end
