(* ===== verification/Cxx_Text.thy ===== *)
theory Cxx_Text
  imports Prelude
begin

text \<open>
  Text as the program reads and writes it with the C++ standard library: \<open>std::to_string\<close> and
  stream output of integers, \<open>std::from_chars\<close>, and extraction from \<open>std::istringstream\<close> in the
  classic locale. A \<open>std::string\<close> is a list of 8-bit characters.
\<close>

section \<open>Positional numerals\<close>

definition is_digit :: "char \<Rightarrow> bool" where
  "is_digit c \<longleftrightarrow> 48 \<le> (of_char c :: nat) \<and> (of_char c :: nat) \<le> 57"

definition digit_val :: "char \<Rightarrow> nat" where
  "digit_val c = of_char c - 48"

definition digit_char :: "nat \<Rightarrow> char" where
  "digit_char d = char_of (48 + d)"

text \<open>Lower-case hexadecimal digits, as \<open>std::hex\<close> prints them.\<close>

definition hex_char :: "nat \<Rightarrow> char" where
  "hex_char d = (if d < 10 then char_of (48 + d) else char_of (87 + d))"

definition hex_val :: "char \<Rightarrow> nat" where
  "hex_val c = (if (of_char c :: nat) \<le> 57 then of_char c - 48 else of_char c - 87)"

fun render :: "nat \<Rightarrow> (nat \<Rightarrow> char) \<Rightarrow> nat \<Rightarrow> string" where
  "render b dc n = (if b < 2 \<or> n < b then [dc n] else render b dc (n div b) @ [dc (n mod b)])"

declare render.simps [simp del]

definition read_digits :: "nat \<Rightarrow> (char \<Rightarrow> nat) \<Rightarrow> string \<Rightarrow> nat" where
  "read_digits b dv s = foldl (\<lambda>a c. b * a + dv c) 0 s"

lemma read_digits_simps [simp]:
  "read_digits b dv [] = 0" "read_digits b dv (s @ [c]) = b * read_digits b dv s + dv c"
  by (simp_all add: read_digits_def)

text \<open>
  A numeral system: a base, the character of each digit below it and the value of each character.
  Reading what was printed gives the number back, so printing is injective; the printed characters
  are digits and there is at least one.
\<close>

locale numeral_system =
  fixes base :: nat and dchar :: "nat \<Rightarrow> char" and dval :: "char \<Rightarrow> nat"
  assumes base_ge: "2 \<le> base"
    and dval_dchar: "d < base \<Longrightarrow> dval (dchar d) = d"
begin

lemma render_unfold:
  "render base dchar n =
     (if n < base then [dchar n] else render base dchar (n div base) @ [dchar (n mod base)])"
  using base_ge by (simp add: render.simps [of base dchar n])

lemma render_induct [case_names less step]:
  assumes "\<And>n. n < base \<Longrightarrow> P n" "\<And>n. base \<le> n \<Longrightarrow> P (n div base) \<Longrightarrow> P n"
  shows "P n"
proof (induction n rule: less_induct)
  case (less n)
  show ?case
  proof (cases "n < base")
    case True
    then show ?thesis by (rule assms(1))
  next
    case False
    then have "n div base < n" using base_ge by simp
    with False show ?thesis using less assms(2) by simp
  qed
qed

lemma render_not_Nil: "render base dchar n \<noteq> []"
  by (simp add: render_unfold)

lemma read_render: "read_digits base dval (render base dchar n) = n"
proof (induction n rule: render_induct)
  case (less n)
  then show ?case by (subst render_unfold) (simp add: read_digits_def dval_dchar)
next
  case (step n)
  then show ?case using base_ge by (subst render_unfold) (simp add: dval_dchar)
qed

lemma render_inject: "render base dchar m = render base dchar n \<longleftrightarrow> m = n"
  by (metis read_render)

lemma render_chars: "c \<in> set (render base dchar n) \<Longrightarrow> \<exists>d < base. c = dchar d"
proof (induction n rule: render_induct)
  case (less n)
  then show ?case by (subst (asm) render_unfold) auto
next
  case (step n)
  have "n mod base < base" using base_ge by simp
  with step show ?case by (subst (asm) (2) render_unfold) auto
qed

lemma length_render:
  assumes "n < base ^ Suc k"
  shows "length (render base dchar n) \<le> Suc k"
  using assms
proof (induction k arbitrary: n)
  case 0
  then show ?case by (simp add: render_unfold)
next
  case (Suc k)
  show ?case
  proof (cases "n < base")
    case False
    have "n div base < base ^ Suc k"
      using Suc.prems base_ge by (simp add: less_mult_imp_div_less mult.commute)
    with Suc.IH False show ?thesis by (simp add: render_unfold [of n])
  qed (simp add: render_unfold)
qed

end

interpretation dec: numeral_system 10 digit_char digit_val
  by unfold_locales (simp_all add: digit_char_def digit_val_def)

interpretation hex: numeral_system 16 hex_char hex_val
  by unfold_locales (auto simp: hex_char_def hex_val_def)

lemma is_digit_char: "d < 10 \<Longrightarrow> is_digit (digit_char d)"
  by (simp add: is_digit_def digit_char_def)

section \<open>Printing integers\<close>

definition dec_string :: "nat \<Rightarrow> string" where
  "dec_string n = render 10 digit_char n"

text \<open>\<open>std::to_string(std::int64_t)\<close>.\<close>

definition to_string :: "int \<Rightarrow> string" where
  "to_string v = (if v < 0 then ''-'' @ dec_string (nat (- v)) else dec_string (nat v))"

text \<open>\<open>std::hex << std::setfill('0') << std::setw(16)\<close> of an unsigned 64-bit integer.\<close>

definition hex16_string :: "uint64 \<Rightarrow> string" where
  "hex16_string w =
     (let h = render 16 hex_char (unat w) in replicate (16 - length h) (CHR ''0'') @ h)"

lemma dec_string_digits: "\<forall>c \<in> set (dec_string n). is_digit c"
  unfolding dec_string_def using dec.render_chars is_digit_char by blast

lemma dec_string_not_Nil [simp]: "dec_string n \<noteq> []"
  by (simp add: dec_string_def dec.render_not_Nil)

lemma dec_string_inject [simp]: "dec_string m = dec_string n \<longleftrightarrow> m = n"
  by (simp add: dec_string_def dec.render_inject)

lemma length_hex16 [simp]: "length (hex16_string w) = 16"
proof -
  have "unat w < 16 ^ Suc 15" using unat_uint64_less [of w] by simp
  from hex.length_render [OF this] show ?thesis by (simp add: hex16_string_def Let_def)
qed

lemma hex_read_zeros:
  "read_digits 16 hex_val (replicate k (CHR ''0'') @ s) = read_digits 16 hex_val s"
  by (induction k) (simp_all add: read_digits_def hex_val_def)

lemma hex16_inject [simp]: "hex16_string v = hex16_string w \<longleftrightarrow> v = w"
proof
  assume "hex16_string v = hex16_string w"
  then have "read_digits 16 hex_val (hex16_string v) = read_digits 16 hex_val (hex16_string w)"
    by simp
  then show "v = w"
    by (simp add: hex16_string_def Let_def hex_read_zeros hex.read_render word_unat_eq_iff)
qed simp

section \<open>Reading integers: \<open>std::from_chars\<close>\<close>

text \<open>
  \<open>from_chars lo hi s\<close> is \<open>std::from_chars\<close> in base ten into an integer type with range
  \<open>lo..hi\<close>: an optional minus sign for a signed type, then as many digits as there are. The result
  holds the unread text, the error code and, without an error, the value. There is no leading
  whitespace and no plus sign.
\<close>

datatype errc = Errc_ok | Errc_invalid_argument | Errc_result_out_of_range

definition from_chars :: "int \<Rightarrow> int \<Rightarrow> string \<Rightarrow> string \<times> errc \<times> int option" where
  "from_chars lo hi s =
     (let neg = (lo < 0 \<and> s \<noteq> [] \<and> hd s = CHR ''-'');
          body = (if neg then tl s else s);
          digits = takeWhile is_digit body;
          rest = dropWhile is_digit body;
          v = (if neg then - int (read_digits 10 digit_val digits)
               else int (read_digits 10 digit_val digits))
      in if digits = [] then (s, Errc_invalid_argument, None)
         else if v < lo \<or> hi < v then (rest, Errc_result_out_of_range, None)
         else (rest, Errc_ok, Some v))"

text \<open>
  What the program's two parsing helpers share: the text is not empty and \<open>from_chars\<close> succeeds
  having read all of it.
\<close>

definition parse_whole :: "int \<Rightarrow> int \<Rightarrow> string \<Rightarrow> int option" where
  "parse_whole lo hi text =
     (if text = [] then None
      else case from_chars lo hi text of
          (rest, err, v) \<Rightarrow> if err = Errc_ok \<and> rest = [] then v else None)"

lemma takeWhile_dec [simp]:
  "takeWhile is_digit (dec_string n) = dec_string n" "dropWhile is_digit (dec_string n) = []"
  using dec_string_digits [of n] by (simp_all add: takeWhile_eq_all_conv dropWhile_eq_Nil_conv)

lemma read_dec [simp]: "read_digits 10 digit_val (dec_string n) = n"
  by (simp add: dec_string_def dec.read_render)

lemma minus_not_digit [simp]: "\<not> is_digit (CHR ''-'')" "\<not> is_digit (CHR '':'')"
  "\<not> is_digit (CHR '' '')"
  by (simp_all add: is_digit_def)

lemma hd_dec_string: "hd (dec_string n) \<noteq> CHR ''-''"
proof -
  have "is_digit (hd (dec_string n))" using dec_string_digits [of n] by simp
  then show ?thesis by auto
qed

text \<open>The codec of an integer type: parsing what was printed gives the value back.\<close>

lemma parse_to_string:
  assumes "lo \<le> v" "v \<le> hi"
  shows "parse_whole lo hi (to_string v) = Some v"
proof (cases "v < 0")
  case True
  with assms show ?thesis
    by (simp add: parse_whole_def from_chars_def to_string_def Let_def)
next
  case False
  with assms hd_dec_string [of "nat v"] show ?thesis
    by (simp add: parse_whole_def from_chars_def to_string_def Let_def)
qed

lemma to_string_chars: "c \<in> set (to_string v) \<Longrightarrow> is_digit c \<or> c = CHR ''-''"
  using dec_string_digits by (auto simp: to_string_def split: if_splits)

lemma to_string_not_Nil [simp]: "to_string v \<noteq> []"
  by (simp add: to_string_def)

lemma parse_whole_range: "parse_whole lo hi s = Some v \<Longrightarrow> lo \<le> v \<and> v \<le> hi"
  by (auto simp: parse_whole_def from_chars_def Let_def split: if_splits)

text \<open>Nothing but an optional sign and digits is accepted.\<close>

lemma parse_whole_digits:
  assumes "parse_whole lo hi s = Some v"
  shows "s \<noteq> [] \<and> (\<forall>c \<in> set s. is_digit c \<or> c = CHR ''-'')"
proof -
  let ?neg = "lo < 0 \<and> s \<noteq> [] \<and> hd s = CHR ''-''"
  have s: "s \<noteq> []" and d: "dropWhile is_digit (if ?neg then tl s else s) = []"
    using assms by (auto simp: parse_whole_def from_chars_def Let_def split: if_splits)
  from d have "\<forall>c \<in> set (if ?neg then tl s else s). is_digit c"
    by (simp only: dropWhile_eq_Nil_conv)
  with s show ?thesis by (cases s) (auto split: if_splits)
qed

section \<open>Fields joined by a separator\<close>

text \<open>\<open>split_at sep s\<close> is the text before and after the first \<open>sep\<close>, if there is one.\<close>

definition split_at :: "char \<Rightarrow> string \<Rightarrow> (string \<times> string) option" where
  "split_at sep s =
     (if sep \<in> set s
      then Some (takeWhile (\<lambda>c. c \<noteq> sep) s, tl (dropWhile (\<lambda>c. c \<noteq> sep) s)) else None)"

lemma split_at_join: "sep \<notin> set f \<Longrightarrow> split_at sep (f @ sep # r) = Some (f, r)"
proof -
  assume "sep \<notin> set f"
  then have "takeWhile (\<lambda>c. c \<noteq> sep) (f @ sep # r) = f \<and> dropWhile (\<lambda>c. c \<noteq> sep) (f @ sep # r) = sep # r"
    by (induction f) auto
  then show ?thesis by (simp add: split_at_def)
qed

lemma split_at_SomeD: "split_at sep s = Some (f, r) \<Longrightarrow> s = f @ sep # r \<and> sep \<notin> set f"
proof -
  assume a: "split_at sep s = Some (f, r)"
  then have mem: "sep \<in> set s" and f: "f = takeWhile (\<lambda>c. c \<noteq> sep) s"
    and r: "r = tl (dropWhile (\<lambda>c. c \<noteq> sep) s)"
    by (auto simp: split_at_def split: if_splits)
  from mem have ne: "dropWhile (\<lambda>c. c \<noteq> sep) s \<noteq> []" by simp
  then have "hd (dropWhile (\<lambda>c. c \<noteq> sep) s) = sep" using hd_dropWhile [OF ne] by simp
  with ne r have "dropWhile (\<lambda>c. c \<noteq> sep) s = sep # r" by (metis list.collapse)
  then show ?thesis
    using takeWhile_dropWhile_id [of "\<lambda>c. c \<noteq> sep" s] f by (auto dest: set_takeWhileD)
qed

text \<open>
  A field codec prints values without the separator and parses them back, so a field can be cut off
  the front of a joined text and decoded, and two joined texts agree only field by field.
\<close>

locale field_codec =
  fixes sep :: char and pr :: "'a \<Rightarrow> string" and pa :: "string \<Rightarrow> 'a option" and ok :: "'a \<Rightarrow> bool"
  assumes parse_print: "ok v \<Longrightarrow> pa (pr v) = Some v"
    and print_no_sep: "sep \<notin> set (pr v)"
begin

lemma split_field: "split_at sep (pr v @ sep # r) = Some (pr v, r)"
  by (rule split_at_join [OF print_no_sep])

lemma print_inject: "ok v \<Longrightarrow> ok w \<Longrightarrow> pr v = pr w \<longleftrightarrow> v = w"
  by (metis option.inject parse_print)

lemma join_inject:
  assumes "ok v" "ok w"
  shows "pr v @ sep # r = pr w @ sep # t \<longleftrightarrow> v = w \<and> r = t"
  using split_field [of v r] split_field [of w t] print_inject [OF assms] by auto

text \<open>The same for a field at the end of a text, found from the right.\<close>

lemma last_field_inject:
  assumes "ok v" "ok w"
  shows "l @ sep # pr v = k @ sep # pr w \<longleftrightarrow> l = k \<and> v = w"
proof
  assume "l @ sep # pr v = k @ sep # pr w"
  then have "rev (pr v) @ sep # rev l = rev (pr w) @ sep # rev k"
    by (metis append.assoc append_Cons append_Nil rev.simps(2) rev_append)
  then have "split_at sep (rev (pr v) @ sep # rev l) = split_at sep (rev (pr w) @ sep # rev k)"
    by simp
  then have "rev (pr v) = rev (pr w) \<and> rev l = rev k"
    using split_at_join [of sep "rev (pr v)" "rev l"] split_at_join [of sep "rev (pr w)" "rev k"]
      print_no_sep by simp
  then show "l = k \<and> v = w" using print_inject [OF assms] by simp
qed simp

end

interpretation int64_field: field_codec "CHR '':''" to_string "parse_whole int64_min int64_max" int64_range
proof unfold_locales
  show "parse_whole int64_min int64_max (to_string v) = Some v" if "int64_range v" for v
    using that by (intro parse_to_string) (simp_all add: int64_range_def)
  show "CHR '':'' \<notin> set (to_string v)" for v
    using to_string_chars [of "CHR '':''" v] by auto
qed

interpretation dec_field: field_codec "CHR ''-''" dec_string "\<lambda>s. Some (read_digits 10 digit_val s)"
  "\<lambda>_. True"
  by unfold_locales (use dec_string_digits in force)+

section \<open>Extraction from \<open>std::istringstream\<close>\<close>

text \<open>
  A stream over a string: what has not been read and the two error bits that matter here. The
  extractions follow the library: \<open>sentry\<close> skips leading whitespace, and fails on a stream that is
  not good or has nothing left; reading a string takes the next word; reading an unsigned integer
  takes an optional sign and digits, wraps a negative value, stores 0 when there is no digit and the
  maximum on overflow (setting the fail bit both times), and leaves the variable alone when
  the sentry fails.
\<close>

record istream =
  unread :: string
  eofbit :: bool
  failbit :: bool

definition open_stream :: "string \<Rightarrow> istream" where
  "open_stream s = \<lparr>unread = s, eofbit = False, failbit = False\<rparr>"

definition stream_good :: "istream \<Rightarrow> bool" where
  "stream_good st \<longleftrightarrow> \<not> eofbit st \<and> \<not> failbit st"

definition is_space :: "char \<Rightarrow> bool" where
  "is_space c \<longleftrightarrow> c = CHR '' '' \<or> (9 \<le> (of_char c :: nat) \<and> (of_char c :: nat) \<le> 13)"

definition sentry :: "istream \<Rightarrow> bool \<times> istream" where
  "sentry st =
     (if stream_good st then
        (let r = dropWhile is_space (unread st)
         in if r = [] then (False, st\<lparr>unread := [], eofbit := True, failbit := True\<rparr>)
            else (True, st\<lparr>unread := r\<rparr>))
      else (False, st\<lparr>failbit := True\<rparr>))"

definition extract_string :: "istream \<Rightarrow> string \<Rightarrow> string \<times> istream" where
  "extract_string st old =
     (case sentry st of (ok, st') \<Rightarrow>
        if ok then
          (let w = takeWhile (\<lambda>c. \<not> is_space c) (unread st');
               r = dropWhile (\<lambda>c. \<not> is_space c) (unread st')
           in (w, st'\<lparr>unread := r, eofbit := (r = [])\<rparr>))
        else (old, st'))"

definition num_get_u64 :: "string \<Rightarrow> uint64 \<times> bool \<times> string" where
  "num_get_u64 s =
     (let neg = (s \<noteq> [] \<and> hd s = CHR ''-'');
          body = (if s \<noteq> [] \<and> (hd s = CHR ''-'' \<or> hd s = CHR ''+'') then tl s else s);
          digits = takeWhile is_digit body;
          rest = dropWhile is_digit body;
          n = read_digits 10 digit_val digits
      in if digits = [] then (0, True, rest)
         else if unat uint64_max < n then (uint64_max, True, rest)
         else (if neg then - of_nat n else of_nat n, False, rest))"

definition extract_u64 :: "istream \<Rightarrow> uint64 \<Rightarrow> uint64 \<times> istream" where
  "extract_u64 st old =
     (case sentry st of (ok, st') \<Rightarrow>
        if ok then
          (case num_get_u64 (unread st') of (v, bad, r) \<Rightarrow>
             (v, st'\<lparr>unread := r, eofbit := (r = []), failbit := bad\<rparr>))
        else (old, st'))"

definition getline :: "istream \<Rightarrow> string \<Rightarrow> string \<times> istream" where
  "getline st old =
     (if stream_good st then
        (let l = takeWhile (\<lambda>c. c \<noteq> CHR 0x0A) (unread st);
             r = dropWhile (\<lambda>c. c \<noteq> CHR 0x0A) (unread st)
         in if r = [] then (l, st\<lparr>unread := [], eofbit := True, failbit := (l = [])\<rparr>)
            else (l, st\<lparr>unread := tl r\<rparr>))
      else (old, st\<lparr>failbit := True\<rparr>))"

lemma dropWhile_newline_shorter:
  "c \<in> set xs \<Longrightarrow> length (dropWhile (\<lambda>c. c \<noteq> d) xs) - Suc 0 < length xs"
  using length_dropWhile_le [of "\<lambda>c. c \<noteq> d" xs] by (cases xs) auto

text \<open>The lines that \<open>while (std::getline(input, line))\<close> runs its body on.\<close>

function getline_loop :: "istream \<Rightarrow> string \<Rightarrow> string list" where
  "getline_loop st old =
     (case getline st old of (l, st') \<Rightarrow> if failbit st' then [] else l # getline_loop st' l)"
  by pat_completeness auto
termination
  by (relation "measure (\<lambda>(st, old). length (unread st) + (if eofbit st then 0 else 1))")
    (auto simp: getline_def stream_good_def Let_def dropWhile_newline_shorter split: if_splits)

declare getline_loop.simps [simp del]

lemma num_get_dec:
  assumes "n \<le> unat uint64_max" "r = [] \<or> \<not> is_digit (hd r)"
  shows "num_get_u64 (dec_string n @ r) = (of_nat n, False, r)"
proof -
  have hd: "hd (dec_string n @ r) = hd (dec_string n)" by simp
  have "is_digit (hd (dec_string n))" using dec_string_digits [of n] by simp
  then have h: "hd (dec_string n) \<noteq> CHR ''-''" "hd (dec_string n) \<noteq> CHR ''+''"
    by (auto simp: is_digit_def)
  have tw: "takeWhile is_digit (dec_string n @ r) = dec_string n"
    using assms(2) dec_string_digits [of n]
    by (cases r) (simp_all add: takeWhile_append2)
  have dw: "dropWhile is_digit (dec_string n @ r) = r"
    using assms(2) dec_string_digits [of n]
    by (cases r) (simp_all add: dropWhile_append)
  show ?thesis
    unfolding num_get_u64_def Let_def hd using h assms(1) tw dw by simp
qed

lemma space_not_digit: "is_space c \<Longrightarrow> \<not> is_digit c"
  by (auto simp: is_space_def is_digit_def)

text \<open>Extracting a printed number, after any whitespace, from a stream with more text behind it.\<close>

lemma extract_u64_dec:
  assumes "stream_good st" "unread st = ws @ dec_string n @ c # r" "\<forall>x \<in> set ws. is_space x"
    "n \<le> unat uint64_max" "\<not> is_digit c"
  shows "extract_u64 st old = (of_nat n, st\<lparr>unread := c # r\<rparr>)"
proof -
  obtain d ds where d: "dec_string n = d # ds" by (cases "dec_string n") simp_all
  have "is_digit d" using dec_string_digits [of n] by (simp add: d)
  then have "\<not> is_space d" using space_not_digit by blast
  then have "dropWhile is_space (unread st) = dec_string n @ c # r"
    using assms(2,3) by (simp add: d)
  moreover have "num_get_u64 (dec_string n @ c # r) = (of_nat n, False, c # r)"
    using assms(4,5) by (intro num_get_dec) simp_all
  ultimately show ?thesis
    using assms(1) by (simp add: extract_u64_def sentry_def stream_good_def)
qed

end
