(* ===== verification/Page_Token.thy ===== *)
theory Page_Token
  imports Cxx_Text
begin

text \<open>
  The opaque continuation tokens of \<open>query_range\<close>
  (\<open>cpp/aggregator/impl/in_memory_time_series_store/in_memory_time_series_store.cpp\<close>):
  \<open>v1:<snapshot event ID>:<timestamp>:<event ID>\<close>, written by \<open>encode_page_token\<close> and read, with
  every field checked, by \<open>decode_page_token\<close>.
\<close>

section \<open>Definitions\<close>

record range_page_cursor =
  snapshot_event_id :: int
  cursor_timestamp_ms :: int
  cursor_event_id :: int

definition page_token_prefix :: string where
  "page_token_prefix = ''v1:''"

text \<open>\<open>parse_integer\<close> at type \<open>std::int64_t\<close>: the whole text or nothing.\<close>

definition parse_integer :: "string \<Rightarrow> int option" where
  "parse_integer text = parse_whole int64_min int64_max text"

definition take_token_field :: "string \<Rightarrow> (string \<times> string) option" where
  "take_token_field token = split_at (CHR '':'') token"

definition decode_page_token :: "string \<Rightarrow> range_page_cursor option" where
  "decode_page_token token =
     (if take (length page_token_prefix) token \<noteq> page_token_prefix then None
      else case take_token_field (drop (length page_token_prefix) token) of
        None \<Rightarrow> None
      | Some (snapshot_field, token') \<Rightarrow>
          (case take_token_field token' of
             None \<Rightarrow> None
           | Some (timestamp_field, token'') \<Rightarrow>
               (case (parse_integer snapshot_field, parse_integer timestamp_field, parse_integer token'') of
                  (Some snap, Some ts, Some ev) \<Rightarrow>
                    if snap \<le> 0 \<or> ev \<le> 0 \<or> snap < ev then None
                    else Some \<lparr>snapshot_event_id = snap, cursor_timestamp_ms = ts, cursor_event_id = ev\<rparr>
                | _ \<Rightarrow> None)))"

definition encode_page_token :: "range_page_cursor \<Rightarrow> string" where
  "encode_page_token cursor =
     page_token_prefix @ to_string (snapshot_event_id cursor) @ '':'' @
     to_string (cursor_timestamp_ms cursor) @ '':'' @ to_string (cursor_event_id cursor)"

section \<open>Round trip\<close>

definition cursor_valid :: "range_page_cursor \<Rightarrow> bool" where
  "cursor_valid c \<longleftrightarrow> int64_range (snapshot_event_id c) \<and> int64_range (cursor_timestamp_ms c) \<and>
     0 < cursor_event_id c \<and> cursor_event_id c \<le> snapshot_event_id c"

lemma parse_integer_to_string: "int64_range v \<Longrightarrow> parse_integer (to_string v) = Some v"
  unfolding parse_integer_def by (rule int64_field.parse_print)

lemma encode_decode:
  assumes "cursor_valid c"
  shows "decode_page_token (encode_page_token c) = Some c"
proof -
  have "int64_range (cursor_event_id c)"
    using assms by (auto simp: cursor_valid_def int64_range_def int64_min_def)
  with assms show ?thesis
    by (simp add: decode_page_token_def encode_page_token_def page_token_prefix_def take_token_field_def
        int64_field.split_field parse_integer_to_string cursor_valid_def)
qed

lemma decode_valid:
  assumes "decode_page_token t = Some c"
  shows "cursor_valid c"
proof -
  have r: "parse_integer s = Some v \<Longrightarrow> int64_range v" for s v
    unfolding parse_integer_def int64_range_def by (rule parse_whole_range)
  from assms show ?thesis
    by (auto simp: decode_page_token_def cursor_valid_def split: if_splits option.splits prod.splits dest!: r)
qed

lemma encode_not_Nil [simp]: "encode_page_token c \<noteq> []"
  by (simp add: encode_page_token_def page_token_prefix_def)

end
