(* ===== verification/Store_Queries.thy ===== *)
theory Store_Queries
  imports Memory_Store Page_Token
begin

text \<open>
  The three queries of \<open>InMemoryTimeSeriesStore\<close>: a page of a time range with aggregates over the
  whole range, the latest sample, and the events after a cursor. Each holds the shared lock from its
  first read of the store to its last, so it is a function of one state
  (\<open>Store_Concurrency\<close>).
\<close>

section \<open>Filters\<close>

definition matches_tags :: "metric \<Rightarrow> tag_map \<Rightarrow> bool" where
  "matches_tags m tags_filter = list_all (\<lambda>(k, v). map_of (m_tags m) k = Some v) tags_filter"

definition matches_filters :: "metric \<Rightarrow> 'a query_filter_scheme \<Rightarrow> bool" where
  "matches_filters m request \<longleftrightarrow>
     m_name m = q_metric_name request \<and>
     (case q_client_id request of None \<Rightarrow> True | Some c \<Rightarrow> m_source_client_id m = c) \<and>
     matches_tags m (q_tags_filter request)"

definition validate_query_filters :: "'a query_filter_scheme \<Rightarrow> string \<Rightarrow> store_error option" where
  "validate_query_filters request operation =
     (if q_metric_name request = []
      then Some (make_error InvalidArgument operation ''metric_name'' False)
      else if q_client_id request = Some []
      then Some (make_error InvalidArgument operation ''client_id'' False)
      else None)"

section \<open>Aggregates\<close>

record aggregate_stats =
  st_avg :: f64
  st_max :: f64
  st_min :: f64

text \<open>The loop carries the running sum, maximum and minimum.\<close>

fun stats_loop :: "f64 list \<Rightarrow> f64 \<times> f64 \<times> f64 \<Rightarrow> f64 \<times> f64 \<times> f64" where
  "stats_loop [] acc = acc"
| "stats_loop (v # vs) (acc, mx, mn) = stats_loop vs (f64_add acc v, std_max mx v, std_min mn v)"

definition compute_stats :: "f64 list \<Rightarrow> aggregate_stats" where
  "compute_stats values =
     (case values of
        [] \<Rightarrow> \<lparr>st_avg = f64_zero False, st_max = f64_zero False, st_min = f64_zero False\<rparr>
      | front # _ \<Rightarrow>
          (case stats_loop values (f64_zero False, front, front) of
             (acc, mx, mn) \<Rightarrow>
               \<lparr>st_avg = f64_div acc (f64_of_nat (length values)), st_max = mx, st_min = mn\<rparr>))"

section \<open>Range queries\<close>

definition default_page_size :: uint32 where
  "default_page_size = 1000"

definition maximum_page_size :: uint32 where
  "maximum_page_size = 10000"

definition is_after_cursor :: "int \<Rightarrow> int \<Rightarrow> range_page_cursor \<Rightarrow> bool" where
  "is_after_cursor timestamp_ms event_id cursor \<longleftrightarrow>
     timestamp_ms > cursor_timestamp_ms cursor \<or>
     (timestamp_ms = cursor_timestamp_ms cursor \<and> event_id > cursor_event_id cursor)"

record range_query_plan =
  plan_cursor :: "range_page_cursor option"
  plan_page_size :: uint32

definition make_range_query_plan :: "range_request \<Rightarrow> store_error + range_query_plan" where
  "make_range_query_plan request =
     (case validate_query_filters request ''query_range'' of
        Some e \<Rightarrow> Inl e
      | None \<Rightarrow>
          if from_ms request > to_ms request
          then Inl (make_error InvalidArgument ''query_range'' ''time_range'' False)
          else if page_size request > maximum_page_size
          then Inl (make_error InvalidArgument ''query_range'' ''page_size'' False)
          else
            (let size = (if page_size request = 0 then default_page_size else page_size request)
             in if page_token request = [] then Inr \<lparr>plan_cursor = None, plan_page_size = size\<rparr>
                else (case decode_page_token (page_token request) of
                    None \<Rightarrow> Inl (make_error InvalidArgument ''query_range'' ''page_token'' False)
                  | Some c \<Rightarrow> Inr \<lparr>plan_cursor = Some c, plan_page_size = size\<rparr>)))"

text \<open>What the scanning loop of \<open>build_range_page\<close> accumulates.\<close>

record page_scan =
  scan_values :: "f64 list"
  scan_metrics :: "metric list"
  last_returned :: "range_page_cursor option"
  has_more :: bool

definition empty_scan :: page_scan where
  "empty_scan = \<lparr>scan_values = [], scan_metrics = [], last_returned = None, has_more = False\<rparr>"

definition scan_sample :: "range_request \<Rightarrow> range_query_plan \<Rightarrow> int \<Rightarrow> page_scan \<Rightarrow> stored_metric \<Rightarrow> page_scan" where
  "scan_sample request plan snapshot acc s =
     (if s_event_id s > snapshot \<or> \<not> matches_filters (s_metric s) request then acc
      else
        (let acc = acc\<lparr>scan_values := scan_values acc @ [m_value (s_metric s)]\<rparr>
         in if (case plan_cursor plan of None \<Rightarrow> False
                | Some c \<Rightarrow> \<not> is_after_cursor (m_timestamp_ms (s_metric s)) (s_event_id s) c) then acc
            else if (of_nat (length (scan_metrics acc)) :: uint32) = plan_page_size plan
            then acc\<lparr>has_more := True\<rparr>
            else acc\<lparr>scan_metrics := scan_metrics acc @ [s_metric s],
                     last_returned := Some \<lparr>snapshot_event_id = snapshot,
                       cursor_timestamp_ms = m_timestamp_ms (s_metric s),
                       cursor_event_id = s_event_id s\<rparr>\<rparr>))"

fun scan_range :: "range_request \<Rightarrow> range_query_plan \<Rightarrow> int \<Rightarrow> stored_metric list \<Rightarrow> page_scan \<Rightarrow> page_scan" where
  "scan_range request plan snapshot [] acc = acc"
| "scan_range request plan snapshot (s # rest) acc =
     (if m_timestamp_ms (s_metric s) \<le> to_ms request
      then scan_range request plan snapshot rest (scan_sample request plan snapshot acc s)
      else acc)"

definition finish_page :: "page_scan \<Rightarrow> range_response" where
  "finish_page scan =
     (let stats = compute_stats (scan_values scan)
      in \<lparr>r_metrics = scan_metrics scan, r_avg = st_avg stats, r_max = st_max stats, r_min = st_min stats,
          next_page_token =
            (case last_returned scan of
               Some c \<Rightarrow> if has_more scan then encode_page_token c else []
             | None \<Rightarrow> [])\<rparr>)"

definition build_range_page :: "stored_metric list \<Rightarrow> range_request \<Rightarrow> range_query_plan \<Rightarrow> int \<Rightarrow> range_response" where
  "build_range_page buffer request plan snapshot =
     finish_page (scan_range request plan snapshot
       (drop (lower_bound (\<lambda>s. m_timestamp_ms (s_metric s)) (from_ms request) buffer) buffer) empty_scan)"

definition query_range :: "store \<Rightarrow> range_request \<Rightarrow> store_error + range_response" where
  "query_range st request =
     (case make_range_query_plan request of
        Inl e \<Rightarrow> Inl e
      | Inr plan \<Rightarrow>
          (let snapshot = (case plan_cursor plan of
                 Some c \<Rightarrow> snapshot_event_id c | None \<Rightarrow> st_current_event_id st)
           in if snapshot > st_current_event_id st
              then Inl (make_error InvalidArgument ''query_range'' ''page_token'' False)
              else (case map_of (metric_buffers st) (q_metric_name request) of
                  None \<Rightarrow> Inr default_range_response
                | Some buffer \<Rightarrow> Inr (build_range_page buffer request plan snapshot))))"

section \<open>The latest sample and the event stream\<close>

fun first_match :: "'a query_filter_scheme \<Rightarrow> stored_metric list \<Rightarrow> latest_response option" where
  "first_match request [] = None"
| "first_match request (s # rest) =
     (if \<not> matches_filters (s_metric s) request then first_match request rest
      else Some \<lparr>l_metric = s_metric s\<rparr>)"

definition query_latest :: "store \<Rightarrow> latest_request \<Rightarrow> store_error + latest_response option" where
  "query_latest st request =
     (case validate_query_filters request ''query_latest'' of
        Some e \<Rightarrow> Inl e
      | None \<Rightarrow>
          (case map_of (metric_buffers st) (q_metric_name request) of
             None \<Rightarrow> Inr None
           | Some buffer \<Rightarrow> Inr (first_match request (rev buffer))))"

definition event_of :: "stored_metric \<Rightarrow> metric_event" where
  "event_of s = default_metric_event\<lparr>e_metric := s_metric s, e_event_id := s_event_id s\<rparr>"

definition collect_matches :: "store \<Rightarrow> subscribe_request \<Rightarrow> stored_metric list" where
  "collect_matches st request =
     concat (map (\<lambda>(name, buffer).
       filter (\<lambda>s. s_event_id s > after_event_id request \<and> matches_filters (s_metric s) request) buffer)
       (metric_buffers st))"

definition query_events_after :: "store \<Rightarrow> subscribe_request \<Rightarrow> uint32 \<Rightarrow> store_error + metric_event list" where
  "query_events_after st request fetch_limit =
     (case validate_query_filters request ''query_events_after'' of
        Some e \<Rightarrow> Inl e
      | None \<Rightarrow>
          if after_event_id request < 0
          then Inl (make_error InvalidArgument ''query_events_after'' ''after_event_id'' False)
          else if fetch_limit = 0 \<or> fetch_limit > maximum_page_size
          then Inl (make_error InvalidArgument ''query_events_after'' ''fetch_limit'' False)
          else Inr (map event_of (take (unat fetch_limit)
                 (sort_key s_event_id (collect_matches st request)))))"

section \<open>What one page holds\<close>

text \<open>
  The samples of a buffer that a range request selects in a snapshot, and those of them a cursor
  leaves.
\<close>

definition in_view :: "range_request \<Rightarrow> int \<Rightarrow> stored_metric \<Rightarrow> bool" where
  "in_view request snapshot s \<longleftrightarrow>
     from_ms request \<le> m_timestamp_ms (s_metric s) \<and> m_timestamp_ms (s_metric s) \<le> to_ms request \<and>
     s_event_id s \<le> snapshot \<and> matches_filters (s_metric s) request"

definition after_cursor :: "range_page_cursor option \<Rightarrow> stored_metric \<Rightarrow> bool" where
  "after_cursor c s \<longleftrightarrow> (case c of None \<Rightarrow> True
     | Some c \<Rightarrow> is_after_cursor (m_timestamp_ms (s_metric s)) (s_event_id s) c)"

definition cursor_at :: "int \<Rightarrow> stored_metric \<Rightarrow> range_page_cursor" where
  "cursor_at snapshot s = \<lparr>snapshot_event_id = snapshot,
     cursor_timestamp_ms = m_timestamp_ms (s_metric s), cursor_event_id = s_event_id s\<rparr>"

definition page_spec :: "nat \<Rightarrow> int \<Rightarrow> stored_metric list \<Rightarrow> stored_metric list \<Rightarrow> range_response" where
  "page_spec n snapshot view rest =
     (let stats = compute_stats (map (\<lambda>s. m_value (s_metric s)) view)
      in \<lparr>r_metrics = map s_metric (take n rest), r_avg = st_avg stats, r_max = st_max stats,
          r_min = st_min stats,
          next_page_token =
            (if n < length rest then encode_page_token (cursor_at snapshot (last (take n rest))) else [])\<rparr>)"

lemma scan_range_fold:
  "scan_range request plan snapshot xs acc =
     foldl (scan_sample request plan snapshot) acc
       (takeWhile (\<lambda>s. m_timestamp_ms (s_metric s) \<le> to_ms request) xs)"
  by (induction xs arbitrary: acc) simp_all

lemma word_count_eq:
  fixes n :: uint32
  assumes "k \<le> unat n"
  shows "of_nat k = n \<longleftrightarrow> k = unat n"
proof -
  have "k < 2 ^ 32" using assms unsigned_less [of n, where 'a = nat] by simp
  then have "unat (of_nat k :: uint32) = k" by (simp add: unat_of_nat take_bit_nat_eq_self)
  then show ?thesis by auto
qed

text \<open>One sample in the loop of the page: outside the query, on an earlier page, or on this or a later one.\<close>

lemma scan_sample_outside:
  "\<not> (s_event_id s \<le> snapshot \<and> matches_filters (s_metric s) request) \<Longrightarrow> scan_sample request plan snapshot acc s = acc"
  by (auto simp: scan_sample_def)

lemma scan_sample_earlier:
  "s_event_id s \<le> snapshot \<Longrightarrow> matches_filters (s_metric s) request \<Longrightarrow> \<not> after_cursor (plan_cursor plan) s \<Longrightarrow>
     scan_sample request plan snapshot acc s = acc\<lparr>scan_values := scan_values acc @ [m_value (s_metric s)]\<rparr>"
  by (auto simp: scan_sample_def after_cursor_def Let_def split: option.splits)

lemma scan_sample_later:
  assumes "s_event_id s \<le> snapshot" "matches_filters (s_metric s) request" "after_cursor (plan_cursor plan) s"
  shows "scan_sample request plan snapshot acc s =
    (if of_nat (length (scan_metrics acc)) = plan_page_size plan
     then acc\<lparr>scan_values := scan_values acc @ [m_value (s_metric s)], has_more := True\<rparr>
     else acc\<lparr>scan_values := scan_values acc @ [m_value (s_metric s)],
            scan_metrics := scan_metrics acc @ [s_metric s], last_returned := Some (cursor_at snapshot s)\<rparr>)"
proof -
  have "\<not> (case plan_cursor plan of None \<Rightarrow> False
      | Some c \<Rightarrow> \<not> is_after_cursor (m_timestamp_ms (s_metric s)) (s_event_id s) c)"
    using assms(3) by (simp add: after_cursor_def split: option.splits)
  with assms(1,2) show ?thesis by (simp add: scan_sample_def cursor_at_def)
qed

lemma fold_scan:
  fixes request :: range_request and plan :: range_query_plan and snapshot :: int
  assumes "0 < unat (plan_page_size plan)"
  defines "n \<equiv> unat (plan_page_size plan)"
    and "P \<equiv> \<lambda>s. s_event_id s \<le> snapshot \<and> matches_filters (s_metric s) request"
  defines "R \<equiv> \<lambda>xs. filter (after_cursor (plan_cursor plan)) (filter P xs)"
  shows "foldl (scan_sample request plan snapshot) empty_scan xs =
    \<lparr>scan_values = map (\<lambda>s. m_value (s_metric s)) (filter P xs),
     scan_metrics = map s_metric (take n (R xs)),
     last_returned = (if R xs = [] then None else Some (cursor_at snapshot (last (take n (R xs))))),
     has_more = n < length (R xs)\<rparr>"
proof (induction xs rule: rev_induct)
  case Nil
  then show ?case by (simp add: R_def empty_scan_def)
next
  case (snoc s xs)
  let ?acc = "foldl (scan_sample request plan snapshot) empty_scan xs"
  have full: "(of_nat (length (take n (R xs))) :: uint32) = plan_page_size plan \<longleftrightarrow> n \<le> length (R xs)"
    using word_count_eq [of "length (take n (R xs))" "plan_page_size plan"] by (auto simp: n_def)
  have n: "0 < n" using assms(1) by (simp add: n_def)
  have run: "foldl (scan_sample request plan snapshot) empty_scan (xs @ [s]) = scan_sample request plan snapshot ?acc s"
    by simp
  consider (outside) "\<not> P s" | (earlier) "P s" "\<not> after_cursor (plan_cursor plan) s"
    | (later) "P s" "after_cursor (plan_cursor plan) s" by blast
  then show ?case
  proof cases
    case outside
    then have "scan_sample request plan snapshot ?acc s = ?acc" unfolding P_def by (rule scan_sample_outside)
    then show ?thesis unfolding run using outside snoc by (simp add: R_def)
  next
    case earlier
    then show ?thesis unfolding run using snoc by (simp add: scan_sample_earlier P_def R_def)
  next
    case later
    then have R: "R (xs @ [s]) = R xs @ [s]" by (simp add: R_def)
    have "scan_metrics ?acc = map s_metric (take n (R xs))" using snoc by simp
    with full have count: "(of_nat (length (scan_metrics ?acc)) :: uint32) = plan_page_size plan \<longleftrightarrow> n \<le> length (R xs)"
      by simp
    have step: "scan_sample request plan snapshot ?acc s =
        (if n \<le> length (R xs)
         then ?acc\<lparr>scan_values := scan_values ?acc @ [m_value (s_metric s)], has_more := True\<rparr>
         else ?acc\<lparr>scan_values := scan_values ?acc @ [m_value (s_metric s)],
                scan_metrics := scan_metrics ?acc @ [s_metric s], last_returned := Some (cursor_at snapshot s)\<rparr>)"
      using scan_sample_later [of s snapshot request plan ?acc] later unfolding count by (simp add: P_def)
    show ?thesis
    proof (cases "n \<le> length (R xs)")
      case full: True
      then have "R xs \<noteq> []" using n by auto
      with full snoc later R show ?thesis unfolding run step by (simp add: less_Suc_eq_le)
    next
      case False
      with snoc later R show ?thesis unfolding run step by simp
    qed
  qed
qed

lemma timestamps_sorted:
  assumes "sorted (map key_of xs)"
  shows "sorted (map (\<lambda>s. m_timestamp_ms (s_metric s)) xs)"
proof -
  have "sorted_wrt (\<lambda>s t. key_of s \<le> key_of t) xs" using assms by (simp add: sorted_map)
  then have "sorted_wrt (\<lambda>s t. m_timestamp_ms (s_metric s) \<le> m_timestamp_ms (s_metric t)) xs"
    by (rule sorted_wrt_mono_rel [rotated]) (auto simp: key_of_def less_eq_sample_key_def less_sample_key_def)
  then show ?thesis by (simp add: sorted_map)
qed

lemma sorted_range:
  fixes f :: "'a \<Rightarrow> 'k::linorder"
  assumes "sorted (map f xs)"
  shows "takeWhile (\<lambda>x. f x \<le> b) (dropWhile (\<lambda>x. f x < a) xs) = filter (\<lambda>x. a \<le> f x \<and> f x \<le> b) xs"
  using assms
proof (induction xs)
  case (Cons x xs)
  have tail: "takeWhile (\<lambda>x. f x \<le> b) xs = filter (\<lambda>x. a \<le> f x \<and> f x \<le> b) xs" if "a \<le> f x"
  proof -
    have "dropWhile (\<lambda>x. f x < a) xs = xs"
      using Cons.prems that by (cases xs) auto
    with Cons show ?thesis by simp
  qed
  show ?case
  proof (cases "a \<le> f x")
    case True
    moreover have "filter (\<lambda>x. a \<le> f x \<and> f x \<le> b) xs = []" if "b < f x"
      using Cons.prems that by (fastforce simp: filter_empty_conv)
    ultimately show ?thesis using tail by (auto simp: not_less not_le)
  next
    case False
    with Cons show ?thesis by (simp add: not_le)
  qed
qed simp

lemma page_of_scan:
  "finish_page \<lparr>scan_values = map (\<lambda>s. m_value (s_metric s)) view,
     scan_metrics = map s_metric (take n rest),
     last_returned = (if rest = [] then None else Some (cursor_at snapshot (last (take n rest)))),
     has_more = n < length rest\<rparr> = page_spec n snapshot view rest"
  by (auto simp: finish_page_def page_spec_def Let_def)

lemma build_range_page_spec:
  assumes "sorted (map key_of buffer)" "0 < unat (plan_page_size plan)"
  shows "build_range_page buffer request plan snapshot =
    page_spec (unat (plan_page_size plan)) snapshot (filter (in_view request snapshot) buffer)
      (filter (after_cursor (plan_cursor plan)) (filter (in_view request snapshot) buffer))"
proof -
  let ?ts = "\<lambda>s. m_timestamp_ms (s_metric s)"
  let ?P = "\<lambda>s. s_event_id s \<le> snapshot \<and> matches_filters (s_metric s) request"
  let ?range = "filter (\<lambda>s. from_ms request \<le> ?ts s \<and> ?ts s \<le> to_ms request) buffer"
  have range: "takeWhile (\<lambda>s. ?ts s \<le> to_ms request)
      (drop (lower_bound ?ts (from_ms request) buffer) buffer) = ?range"
    using sorted_range [OF timestamps_sorted [OF assms(1)]]
    by (simp add: lower_bound_sorted [OF timestamps_sorted [OF assms(1)]])
  have view: "filter ?P ?range = filter (in_view request snapshot) buffer"
    by (simp add: in_view_def [abs_def] conj_ac)
  show ?thesis
    unfolding build_range_page_def scan_range_fold range fold_scan [OF assms(2)] view page_of_scan ..
qed

abbreviation buffer_of :: "store \<Rightarrow> string \<Rightarrow> stored_metric list" where
  "buffer_of st n \<equiv> (case map_of (metric_buffers st) n of None \<Rightarrow> [] | Some b \<Rightarrow> b)"

definition snapshot_view :: "store \<Rightarrow> range_request \<Rightarrow> int \<Rightarrow> stored_metric list" where
  "snapshot_view st request snapshot =
     filter (in_view request snapshot) (buffer_of st (q_metric_name request))"

lemma default_page: "page_spec n snapshot [] [] = default_range_response"
  by (simp add: page_spec_def compute_stats_def default_range_response_def)

lemma store_ok_buffer:
  assumes "store_ok st" "map_of (metric_buffers st) n = Some b"
  shows "sorted (map key_of b)" "distinct b" "\<forall>s \<in> set b. 0 < s_event_id s \<and> s_event_id s \<le> st_current_event_id st"
    "\<forall>s \<in> set b. m_name (s_metric s) = n" "inj_on key_of (set b)" "\<forall>s \<in> set b. isfinite (m_value (s_metric s))"
proof -
  obtain hist where log: "store_log st hist" using assms(1) by (auto simp: store_ok_def)
  then have b: "b = retained (capacity_per_metric st) (samples hist n)" and cur: "st_current_event_id st = int (length hist)"
    and fin: "\<forall>m \<in> set hist. log_entry_ok m"
    using assms(2) by (simp_all add: store_log_def split: if_splits)
  note sub = retained_facts(2) [of "capacity_per_metric st" "samples hist n", folded b]
  show "sorted (map key_of b)" unfolding b by (rule retained_facts(1))
  have "distinct (stored_of hist)" by (auto simp: stored_of_def distinct_map inj_on_def)
  then show "distinct b" unfolding b by (simp add: retained_def samples_def Let_def)
  show "\<forall>s \<in> set b. 0 < s_event_id s \<and> s_event_id s \<le> st_current_event_id st"
    using sub unfolding cur by (auto simp: samples_def stored_of_def)
  show "\<forall>s \<in> set b. m_name (s_metric s) = n" using sub by (auto simp: samples_def)
  show "inj_on key_of (set b)" using sub samples_key_inj inj_on_subset by blast
  show "\<forall>s \<in> set b. isfinite (m_value (s_metric s))"
    using sub fin by (fastforce simp: samples_def stored_of_def log_entry_ok_def)
qed

lemma page_size_pos:
  "make_range_query_plan request = Inr plan \<Longrightarrow> 0 < unat (plan_page_size plan) \<and> plan_page_size plan \<le> 10000 \<and>
     plan_page_size plan = (if page_size request = 0 then 1000 else page_size request)"
  by (auto simp: make_range_query_plan_def maximum_page_size_def default_page_size_def Let_def unat_gt_0 not_less
      split: if_splits option.splits)

lemma query_range_spec:
  fixes request :: range_request
  assumes "store_ok st" "make_range_query_plan request = Inr plan"
  defines "snapshot \<equiv> (case plan_cursor plan of None \<Rightarrow> st_current_event_id st | Some c \<Rightarrow> snapshot_event_id c)"
  assumes "snapshot \<le> st_current_event_id st"
  shows "query_range st request = Inr (page_spec (unat (plan_page_size plan)) snapshot
    (snapshot_view st request snapshot)
    (filter (after_cursor (plan_cursor plan)) (snapshot_view st request snapshot)))"
proof -
  note pos = page_size_pos [OF assms(2), THEN conjunct1]
  note range = build_range_page_spec [OF store_ok_buffer(1) [OF assms(1)] pos]
  show ?thesis using assms(2,4)
    by (simp add: query_range_def snapshot_def [symmetric] snapshot_view_def Let_def range default_page
        split: option.split)
qed

section \<open>Following the page tokens\<close>

text \<open>
  A client that follows the tokens: one request per state of the store, each with the token of the
  previous response, until a response has no token. Batches are committed between the requests.
\<close>

fun follow_pages :: "store list \<Rightarrow> range_request \<Rightarrow> (store_error + range_response) list" where
  "follow_pages [] request = []"
| "follow_pages (st # sts) request =
     (case query_range st request of
        Inl e \<Rightarrow> [Inl e]
      | Inr r \<Rightarrow> Inr r # (if next_page_token r = [] then []
                          else follow_pages sts (request\<lparr>page_token := next_page_token r\<rparr>)))"

fun states_after :: "metric_batch list list \<Rightarrow> store \<Rightarrow> store list" where
  "states_after [] st = []"
| "states_after (bs # bss) st =
     (let st' = snd (commit_all commit_batch bs st) in st' # states_after bss st')"

lemma after_cursor_key:
  "after_cursor (Some (cursor_at snapshot t)) s \<longleftrightarrow> key_of t < key_of s"
  by (auto simp: after_cursor_def cursor_at_def is_after_cursor_def key_of_def less_sample_key_def)

lemma after_cursor_None [simp]: "after_cursor None s"
  by (simp add: after_cursor_def)

lemma in_view_token [simp]:
  "in_view (request\<lparr>page_token := t\<rparr>) snapshot = in_view request snapshot"
  "snapshot_view st (request\<lparr>page_token := t\<rparr>) snapshot = snapshot_view st request snapshot"
  by (simp_all add: in_view_def [abs_def] snapshot_view_def matches_filters_def)

lemma filter_beyond:
  fixes f :: "'a \<Rightarrow> 'k::linorder"
  assumes "sorted (map f xs)" "inj_on f (set xs)" "distinct xs" "i < length xs"
  shows "filter (\<lambda>s. f (xs ! i) < f s) xs = drop (Suc i) xs"
proof -
  have "sorted_wrt (<) (map f xs)"
    using assms(1-3) by (simp add: strict_sorted_iff distinct_map)
  then have strict: "\<And>j k. j < k \<Longrightarrow> k < length xs \<Longrightarrow> f (xs ! j) < f (xs ! k)"
    by (simp add: sorted_wrt_iff_nth_less)
  have "filter (\<lambda>s. f (xs ! i) < f s) xs =
      filter (\<lambda>s. f (xs ! i) < f s) (take (Suc i) xs) @ filter (\<lambda>s. f (xs ! i) < f s) (drop (Suc i) xs)"
    by (metis append_take_drop_id filter_append)
  moreover have "filter (\<lambda>s. f (xs ! i) < f s) (take (Suc i) xs) = []"
  proof -
    have "\<not> f (xs ! i) < f s" if "s \<in> set (take (Suc i) xs)" for s
    proof -
      obtain j where "j \<le> i" "s = xs ! j" using \<open>s \<in> _\<close> assms(4) by (auto simp: in_set_conv_nth less_Suc_eq_le)
      then show ?thesis using strict [of j i] assms(4) by (cases "j = i") auto
    qed
    then show ?thesis by (simp add: filter_empty_conv)
  qed
  moreover have "filter (\<lambda>s. f (xs ! i) < f s) (drop (Suc i) xs) = drop (Suc i) xs"
  proof (rule filter_True)
    show "\<forall>s \<in> set (drop (Suc i) xs). f (xs ! i) < f s"
      using strict by (auto simp: in_set_conv_nth)
  qed
  ultimately show ?thesis by simp
qed

lemma snapshot_view_facts:
  assumes "store_ok st"
  shows "sorted (map key_of (snapshot_view st request snapshot))"
    "inj_on key_of (set (snapshot_view st request snapshot))" "distinct (snapshot_view st request snapshot)"
    "\<forall>s \<in> set (snapshot_view st request snapshot). in_view request snapshot s \<and> 0 < s_event_id s"
proof -
  note b = store_ok_buffer [OF assms]
  show "sorted (map key_of (snapshot_view st request snapshot))"
    using b(1) by (auto simp: snapshot_view_def sorted_filter split: option.split)
  show "inj_on key_of (set (snapshot_view st request snapshot))"
    using b(5) by (cases "map_of (metric_buffers st) (q_metric_name request)")
      (auto simp: snapshot_view_def inj_on_def)
  show "distinct (snapshot_view st request snapshot)"
    using b(2) by (auto simp: snapshot_view_def split: option.split)
  show "\<forall>s \<in> set (snapshot_view st request snapshot). in_view request snapshot s \<and> 0 < s_event_id s"
    using b(3) by (cases "map_of (metric_buffers st) (q_metric_name request)")
      (auto simp: snapshot_view_def)
qed

definition token_at :: "int \<Rightarrow> stored_metric list \<Rightarrow> nat \<Rightarrow> string" where
  "token_at snapshot view k = (if k = 0 then [] else encode_page_token (cursor_at snapshot (view ! (k - 1))))"

text \<open>What the page that starts at position \<open>k\<close> of a snapshot holds.\<close>

lemma page_at:
  assumes st: "store_ok st" and view: "snapshot_view st request snapshot = view"
    and plan: "make_range_query_plan request = Inr \<lparr>plan_cursor = None, plan_page_size = psize\<rparr>"
    and k: "k < length view \<or> k = 0" and snap: "snapshot \<le> st_current_event_id st"
      "k = 0 \<Longrightarrow> snapshot = st_current_event_id st" "snapshot \<le> int64_max"
    and range: "int64_range (from_ms request)" "int64_range (to_ms request)"
  shows "query_range st (request\<lparr>page_token := token_at snapshot view k\<rparr>) =
    Inr (page_spec (unat psize) snapshot view (drop k view))"
proof (cases "k = 0")
  case True
  have "make_range_query_plan (request\<lparr>page_token := []\<rparr>) = Inr \<lparr>plan_cursor = None, plan_page_size = psize\<rparr>"
    using plan by (auto simp: make_range_query_plan_def validate_query_filters_def Let_def split: if_splits option.splits)
  from query_range_spec [OF st this] show ?thesis
    using True view snap(2) by (simp add: token_at_def)
next
  case False
  let ?c = "cursor_at snapshot (view ! (k - 1))" and ?r = "request\<lparr>page_token := token_at snapshot view k\<rparr>"
  note facts = snapshot_view_facts [OF st, of request snapshot, unfolded view]
  have mem: "view ! (k - 1) \<in> set view" using k False by simp
  have valid: "cursor_valid ?c"
    using facts(4) mem snap(3) range
    by (auto simp: cursor_valid_def cursor_at_def in_view_def int64_range_def int64_min_def)
  have "make_range_query_plan ?r = Inr \<lparr>plan_cursor = Some ?c, plan_page_size = psize\<rparr>"
    using plan encode_decode [OF valid] False
    by (auto simp: make_range_query_plan_def validate_query_filters_def Let_def token_at_def
        split: if_splits option.splits)
  from query_range_spec [OF st this]
  have "query_range st ?r = Inr (page_spec (unat psize) snapshot view (filter (after_cursor (Some ?c)) view))"
    using snap(1) view by (simp add: cursor_at_def)
  moreover have "filter (after_cursor (Some ?c)) view = drop k view"
    using filter_beyond [OF facts(1,2,3), of "k - 1"] k False by (simp add: after_cursor_key [abs_def])
  ultimately show ?thesis by simp
qed

lemma follow_pages_from:
  assumes "\<forall>st \<in> set sts. store_ok st \<and> snapshot \<le> st_current_event_id st \<and> snapshot_view st request snapshot = view"
    and plan: "make_range_query_plan request = Inr \<lparr>plan_cursor = None, plan_page_size = psize\<rparr>"
    and "k < length view \<or> k = 0 \<and> sts \<noteq> []" "k = 0 \<longrightarrow> snapshot = st_current_event_id (hd sts)" "snapshot \<le> int64_max"
    and range: "int64_range (from_ms request)" "int64_range (to_ms request)"
    and "length view - k \<le> length sts * unat psize"
  shows "\<exists>rs. follow_pages sts (request\<lparr>page_token := token_at snapshot view k\<rparr>) = map Inr rs \<and> rs \<noteq> [] \<and>
    concat (map r_metrics rs) = map s_metric (drop k view) \<and>
    (\<forall>r \<in> set (butlast rs). length (r_metrics r) = unat psize) \<and> length (r_metrics (last rs)) \<le> unat psize \<and>
    next_page_token (last rs) = [] \<and>
    (\<forall>r \<in> set rs. (r_avg r, r_max r, r_min r) =
      (let a = compute_stats (map (\<lambda>s. m_value (s_metric s)) view) in (st_avg a, st_max a, st_min a)))"
  using assms(1,3,4,8)
proof (induction sts arbitrary: k)
  case Nil
  then show ?case by simp
next
  case (Cons st sts)
  let ?n = "unat psize" and ?page = "page_spec (unat psize) snapshot view (drop k view)"
  have n: "0 < ?n" using page_size_pos [OF plan, THEN conjunct1] by simp
  have st: "store_ok st" "snapshot \<le> st_current_event_id st" "snapshot_view st request snapshot = view"
    using Cons.prems(1) by simp_all
  have q: "query_range st (request\<lparr>page_token := token_at snapshot view k\<rparr>) = Inr ?page"
    using Cons.prems(2,3) by (intro page_at [OF st(1,3) plan _ st(2) _ assms(5) range]) auto
  show ?case
  proof (cases "?n < length view - k")
    case False
    then have "next_page_token ?page = []" "r_metrics ?page = map s_metric (drop k view)"
      by (simp_all add: page_spec_def Let_def)
    with False q show ?thesis
      by (intro exI [of _ "[?page]"]) (auto simp: page_spec_def Let_def)
  next
    case True
    have "last (take ?n (drop k view)) = view ! (k + ?n - 1)"
      using n True by (subst last_conv_nth) auto
    then have t: "next_page_token ?page = token_at snapshot view (k + ?n)" "next_page_token ?page \<noteq> []"
      using n True by (simp_all add: page_spec_def token_at_def Let_def)
    have later: "\<forall>st \<in> set sts. store_ok st \<and> snapshot \<le> st_current_event_id st \<and>
        snapshot_view st request snapshot = view" using Cons.prems(1) by simp
    have pos: "k + ?n < length view \<or> k + ?n = 0 \<and> sts \<noteq> []"
      "k + ?n = 0 \<longrightarrow> snapshot = st_current_event_id (hd sts)" "length view - (k + ?n) \<le> length sts * ?n"
      using True n Cons.prems(4) by simp_all
    obtain rs where
      rs: "follow_pages sts (request\<lparr>page_token := token_at snapshot view (k + ?n)\<rparr>) = map Inr rs" "rs \<noteq> []"
        "concat (map r_metrics rs) = map s_metric (drop (k + ?n) view)"
        "\<forall>r \<in> set (butlast rs). length (r_metrics r) = ?n" "length (r_metrics (last rs)) \<le> ?n"
        "next_page_token (last rs) = []"
        "\<forall>r \<in> set rs. (r_avg r, r_max r, r_min r) =
          (let a = compute_stats (map (\<lambda>s. m_value (s_metric s)) view) in (st_avg a, st_max a, st_min a))"
      using Cons.IH [OF later pos] by blast
    have "drop k view = take ?n (drop k view) @ drop (k + ?n) view"
      by (metis append_take_drop_id drop_drop add.commute)
    then have "map s_metric (drop k view) = r_metrics ?page @ map s_metric (drop (k + ?n) view)"
      by (metis map_append page_spec_def range_response.simps(1))
    then show ?thesis using rs q t True
      by (intro exI [of _ "?page # rs"]) (auto simp: page_spec_def Let_def)
  qed
qed

section \<open>What commits leave of a snapshot\<close>

lemma samples_prefix:
  "filter (\<lambda>s. s_event_id s \<le> int (length hist)) (samples (hist @ ext) n) = samples hist n"
proof (induction ext rule: rev_induct)
  case Nil
  have "\<forall>s \<in> set (samples hist n). s_event_id s \<le> int (length hist)"
    using set_stored_ofD by (auto simp: samples_def)
  then show ?case by simp
next
  case (snoc m ext)
  have "int (length (hist @ ext)) + 1 > int (length hist)" by simp
  then show ?case using snoc samples_snoc [of "hist @ ext" m n] by auto
qed

lemma samples_Nil_prefix: "samples (hist @ ext) n = [] \<Longrightarrow> samples hist n = []"
  using samples_prefix [of hist ext n] by auto

lemma log_buffer: "store_log st hist \<Longrightarrow> buffer_of st n = retained (capacity_per_metric st) (samples hist n)"
  by (simp add: store_log_def)

lemma log_view:
  assumes "store_log st hist"
  shows "snapshot_view st request snapshot =
    filter (in_view request snapshot) (retained (capacity_per_metric st) (samples hist (q_metric_name request)))"
  by (simp add: snapshot_view_def log_buffer [OF assms])

text \<open>A sample is retained exactly when fewer than the capacity are greater.\<close>

lemma in_retained_iff:
  assumes "inj_on key_of (set xs)" "distinct xs"
  shows "s \<in> set (retained cap xs) \<longleftrightarrow> s \<in> set xs \<and> length (filter (\<lambda>x. key_of s < key_of x) xs) < cap"
proof (cases "s \<in> set xs")
  case True
  let ?ss = "sort_key key_of xs"
  obtain i where i: "i < length ?ss" "s = ?ss ! i" using True by (metis in_set_conv_nth set_sort)
  have "filter (\<lambda>x. key_of s < key_of x) ?ss = drop (Suc i) ?ss"
    unfolding i(2) using assms i(1) by (intro filter_beyond) simp_all
  then have "length (filter (\<lambda>x. key_of s < key_of x) ?ss) = length xs - Suc i" by simp
  then have greater: "length (filter (\<lambda>x. key_of s < key_of x) xs) = length xs - Suc i"
    by (simp add: filter_sort)
  have mem: "s \<in> set (drop k ?ss) \<longleftrightarrow> k \<le> i" for k
  proof
    assume "s \<in> set (drop k ?ss)"
    then obtain j where "j < length (drop k ?ss)" "s = drop k ?ss ! j" by (metis in_set_conv_nth)
    then have "k + j < length ?ss" "s = ?ss ! (k + j)" by simp_all
    then have "k + j = i" using i assms(2) by (metis distinct_sort nth_eq_iff_index_eq)
    then show "k \<le> i" by simp
  next
    assume "k \<le> i"
    then have "s = drop k ?ss ! (i - k)" "i - k < length (drop k ?ss)" using i by simp_all
    then show "s \<in> set (drop k ?ss)" by (metis nth_mem)
  qed
  have "s \<in> set (retained cap xs) \<longleftrightarrow> length xs - cap \<le> i" by (simp only: retained_def Let_def mem length_sort)
  moreover have "length xs - Suc i < cap \<longleftrightarrow> length xs - cap \<le> i" using i(1) by auto
  ultimately show ?thesis using True by (simp only: greater simp_thms)
qed (use retained_facts(2) in blast)

lemma distinct_samples: "distinct (samples hist n)"
proof -
  have "distinct (map s_event_id (stored_of hist))"
    by (simp add: stored_of_def comp_def distinct_map inj_on_def)
  then show ?thesis by (simp add: samples_def distinct_map)
qed

lemmas in_retained_samples = in_retained_iff [OF samples_key_inj distinct_samples]

text \<open>What has been evicted does not come back: a retained sample of the old log was retained there already.\<close>

lemma retained_back:
  assumes "s \<in> set (retained cap (samples (hist @ ext) n))" "s_event_id s \<le> int (length hist)"
  shows "s \<in> set (retained cap (samples hist n))"
proof -
  let ?old = "\<lambda>s. s_event_id s \<le> int (length hist)" and ?gt = "\<lambda>x. key_of s < key_of x"
  have s: "s \<in> set (samples (hist @ ext) n)" "length (filter ?gt (samples (hist @ ext) n)) < cap"
    using assms(1) by (simp_all add: in_retained_samples)
  have "s \<in> set (filter ?old (samples (hist @ ext) n))" using s(1) assms(2) by simp
  then have "s \<in> set (samples hist n)" by (simp only: samples_prefix)
  moreover have "length (filter ?gt (filter ?old (samples (hist @ ext) n))) \<le> length (filter ?gt (samples (hist @ ext) n))"
    using length_filter_le [of ?old "filter ?gt (samples (hist @ ext) n)"] by (simp add: conj_commute)
  then have "length (filter ?gt (samples hist n)) < cap" using s(2) by (simp only: samples_prefix)
  ultimately show ?thesis by (simp add: in_retained_samples)
qed

lemma view_stable:
  assumes "store_log st hist" "store_log st' (hist @ ext)" "capacity_per_metric st' = capacity_per_metric st"
    "snapshot \<le> st_current_event_id st"
    "set (snapshot_view st request snapshot) \<subseteq> set (buffer_of st' (q_metric_name request))"
  shows "snapshot_view st' request snapshot = snapshot_view st request snapshot"
proof -
  let ?v = "snapshot_view st request snapshot" and ?v' = "snapshot_view st' request snapshot"
  have ok: "store_ok st" "store_ok st'" using assms(1,2) by (auto simp: store_ok_def)
  note f = snapshot_view_facts [OF ok(1), of request snapshot]
    and f' = snapshot_view_facts [OF ok(2), of request snapshot]
  have "set ?v' \<subseteq> set ?v"
  proof
    fix s assume "s \<in> set ?v'"
    then have s: "in_view request snapshot s"
      "s \<in> set (retained (capacity_per_metric st) (samples (hist @ ext) (q_metric_name request)))"
      using log_view [OF assms(2)] assms(3) by auto
    have "s_event_id s \<le> int (length hist)" using s(1) assms(1,4) by (simp add: in_view_def store_log_def)
    from retained_back [OF s(2) this] s(1) show "s \<in> set ?v" by (simp add: log_view [OF assms(1)])
  qed
  moreover have "s \<in> set ?v'" if "s \<in> set ?v" for s
    using subsetD [OF assms(5) that] f(4) that unfolding snapshot_view_def [of st'] set_filter by blast
  ultimately have eq: "set ?v' = set ?v" by blast
  have inj: "inj_on key_of (set ?v' \<union> set ?v)" using f(2) unfolding eq by simp
  have d': "distinct (map key_of ?v')" by (subst distinct_map) (rule conjI [OF f'(3,2)])
  have d: "distinct (map key_of ?v)" by (subst distinct_map) (rule conjI [OF f(3,2)])
  show ?thesis by (rule map_sorted_distinct_set_unique [OF inj f'(1) d' f(1) d eq])
qed

lemma states_after_log:
  assumes "store_log st hist" "st' \<in> set (states_after bss st)"
  shows "\<exists>ext. store_log st' (hist @ ext) \<and> capacity_per_metric st' = capacity_per_metric st"
  using assms
proof (induction bss arbitrary: st hist)
  case (Cons bs bss)
  obtain rs st1 where c: "commit_all commit_batch bs st = (rs, st1)" by fastforce
  note l = commit_all_log [OF Cons.prems(1) c]
  then have log1: "store_log st1 (hist @ committed_log bs rs)" by blast
  show ?case
  proof (cases "st' = st1")
    case True
    then show ?thesis using l by blast
  next
    case False
    then have "st' \<in> set (states_after bss st1)" using Cons.prems(2) c by (simp add: Let_def)
    from Cons.IH [OF log1 this] l show ?thesis by auto
  qed
qed simp

section \<open>Properties of the queries\<close>

text \<open>
  C1: Pagination is exact. A client asks for the first page of a range on a reachable store and
  follows the page tokens, one request per page, while any batches are committed between the
  requests. As long as none of the selected samples is evicted, whether the buffer is full or not, no request fails, the pages put together
  are exactly the selected samples of the first request's snapshot in their order (nothing lost,
  repeated or added by the commits), every page but the last is full, the last has no token, and all
  pages carry the same aggregates, those of the whole selection. The number of requests that
  suffices is the size of the selection divided by the page size, plus one.
\<close>

theorem pagination_exact:
  assumes "commit_all commit_batch bs (new_store cap) = (outs, st)"
    and "make_range_query_plan request = Inr plan" "page_token request = []"
    and "int64_range (from_ms request)" "int64_range (to_ms request)"
    and "\<forall>st' \<in> set (states_after bss st).
      set (snapshot_view st request (st_current_event_id st)) \<subseteq> set (buffer_of st' (q_metric_name request))"
    and "length (snapshot_view st request (st_current_event_id st)) \<le> Suc (length bss) * unat (plan_page_size plan)"
  shows "\<exists>rs. follow_pages (st # states_after bss st) request = map Inr rs \<and> rs \<noteq> [] \<and>
    concat (map r_metrics rs) = map s_metric (snapshot_view st request (st_current_event_id st)) \<and>
    (\<forall>r \<in> set (butlast rs). length (r_metrics r) = unat (plan_page_size plan)) \<and>
    length (r_metrics (last rs)) \<le> unat (plan_page_size plan) \<and> next_page_token (last rs) = [] \<and>
    (\<forall>r \<in> set rs. (r_avg r, r_max r, r_min r) =
      (let a = compute_stats (map (\<lambda>s. m_value (s_metric s)) (snapshot_view st request (st_current_event_id st)))
       in (st_avg a, st_max a, st_min a)))"
proof -
  let ?snap = "st_current_event_id st" and ?hist = "committed_log bs outs"
  let ?view = "snapshot_view st request ?snap"
  have log: "store_log st ?hist" using commit_all_log [OF new_store_log assms(1)] by simp
  have len: "length (states_after bss st) = length bss"
    by (induction bss arbitrary: st) (simp_all add: Let_def)
  have plan: "make_range_query_plan request = Inr \<lparr>plan_cursor = None, plan_page_size = plan_page_size plan\<rparr>"
    using assms(2,3) by (auto simp: make_range_query_plan_def Let_def split: if_splits option.splits)
  have st: "\<forall>st' \<in> set (st # states_after bss st).
      store_ok st' \<and> ?snap \<le> st_current_event_id st' \<and> snapshot_view st' request ?snap = ?view"
  proof
    fix st' assume st': "st' \<in> set (st # states_after bss st)"
    show "store_ok st' \<and> ?snap \<le> st_current_event_id st' \<and> snapshot_view st' request ?snap = ?view"
    proof (cases "st' = st")
      case True
      then show ?thesis using log by (auto simp: store_ok_def)
    next
      case False
      then have m: "st' \<in> set (states_after bss st)" using st' by simp
      from states_after_log [OF log m] obtain ext where
        l: "store_log st' (?hist @ ext)" "capacity_per_metric st' = capacity_per_metric st" by blast
      have "set ?view \<subseteq> set (buffer_of st' (q_metric_name request))" using assms(6) m by blast
      note view = view_stable [OF log l order_refl this]
      have "store_ok st'" using l(1) by (auto simp: store_ok_def)
      moreover have "?snap \<le> st_current_event_id st'" using l(1) log by (simp add: store_log_def)
      ultimately show ?thesis using view by blast
    qed
  qed
  have k: "0 < length ?view \<or> (0::nat) = 0 \<and> st # states_after bss st \<noteq> []"
    "(0::nat) = 0 \<longrightarrow> ?snap = st_current_event_id (hd (st # states_after bss st))"
    "?snap \<le> int64_max" "length ?view - 0 \<le> length (st # states_after bss st) * unat (plan_page_size plan)"
    using log assms(7) len by (simp_all add: store_log_def)
  have "request\<lparr>page_token := token_at ?snap ?view 0\<rparr> = request"
    using assms(3) by (simp add: token_at_def)
  then show ?thesis
    using follow_pages_from [OF st plan k(1-3) assms(4,5) k(4)] by (simp only: drop_0)
qed

definition example_request :: "uint32 \<Rightarrow> range_request" where
  "example_request sz = \<lparr>q_metric_name = ''cpu'', q_client_id = None, q_tags_filter = [], from_ms = 0,
     to_ms = 100, page_size = sz, page_token = []\<rparr>"

lemmas query_eval = snapshot_view_def in_view_def matches_filters_def matches_tags_def example_request_def
  make_range_query_plan_def validate_query_filters_def default_page_size_def maximum_page_size_def

text \<open>The store is full: the batch that arrives between the pages is older than what the buffer holds.\<close>

theorem pagination_exact_witness:
  "\<exists>st rs. commit_all commit_batch
       [example_batch ''b1'' [example_metric ''cpu'' 3 20, example_metric ''cpu'' 4 10]] (new_store 2)
       = ([Inr Committed], st) \<and>
     follow_pages (st # states_after [[example_batch ''b2'' [example_metric ''cpu'' 7 5]]] st) (example_request 1)
       = map Inr rs \<and>
     map m_timestamp_ms (concat (map r_metrics rs)) = [10, 20]"
proof -
  let ?bs = "[example_batch ''b1'' [example_metric ''cpu'' 3 20, example_metric ''cpu'' 4 10]]"
  let ?bss = "[[example_batch ''b2'' [example_metric ''cpu'' 7 5]]]" and ?r = "example_request 1"
  let ?plan = "\<lparr>plan_cursor = None, plan_page_size = 1\<rparr>"
  define st where "st = snd (commit_all commit_batch ?bs (new_store 2))"
  have c: "commit_all commit_batch ?bs (new_store 2) = ([Inr Committed], st)"
    unfolding st_def by (simp add: store_eval example_defs int64_max_def)
  have plan: "make_range_query_plan ?r = Inr ?plan" "page_token ?r = []"
    by (simp_all add: query_eval)
  have ints: "int64_range (from_ms ?r)" "int64_range (to_ms ?r)"
    by (simp_all add: example_request_def int64_range_def int64_min_def int64_max_def)
  have room: "\<forall>st' \<in> set (states_after ?bss st).
      set (snapshot_view st ?r (st_current_event_id st)) \<subseteq> set (buffer_of st' (q_metric_name ?r))"
    unfolding st_def by (simp add: store_eval example_defs int64_max_def query_eval)
  have view: "map (m_timestamp_ms \<circ> s_metric) (snapshot_view st ?r (st_current_event_id st)) = [10, 20]"
    unfolding st_def by (simp add: store_eval example_defs int64_max_def query_eval)
  have "length (snapshot_view st ?r (st_current_event_id st)) = 2"
    using arg_cong [OF view, of length] by simp
  then have len: "length (snapshot_view st ?r (st_current_event_id st)) \<le> Suc (length ?bss) * unat (plan_page_size ?plan)"
    by simp
  from pagination_exact [OF c plan ints room len] obtain rs where
    "follow_pages (st # states_after ?bss st) ?r = map Inr rs"
    "concat (map r_metrics rs) = map s_metric (snapshot_view st ?r (st_current_event_id st))" by blast
  with c view show ?thesis by (intro exI [of _ st] exI [of _ rs]) simp
qed

text \<open>
  C16: A range query against the log. For every reachable store and valid request the response is
  determined by the log of committed metrics: the selection is every retained sample of the metric
  whose timestamp lies in the closed interval, whose event ID lies in the snapshot and which passes
  the filters, in the order of (timestamp, event ID); the page is the first page-size-many of them
  after the cursor, the aggregates are those of the whole selection, and there is a token exactly
  when samples remain, which then names the last one returned.
\<close>

theorem range_query_matches_log:
  assumes "commit_all commit_batch bs (new_store cap) = (outs, st)"
    and "make_range_query_plan request = Inr plan"
    and "snapshot = (case plan_cursor plan of None \<Rightarrow> st_current_event_id st | Some c \<Rightarrow> snapshot_event_id c)"
    and "snapshot \<le> st_current_event_id st"
    and "view = filter (in_view request snapshot)
      (retained (capacity_per_metric st) (samples (committed_log bs outs) (q_metric_name request)))"
    and "rest = filter (after_cursor (plan_cursor plan)) view"
  shows "\<exists>r. query_range st request = Inr r \<and>
    r_metrics r = map s_metric (take (unat (plan_page_size plan)) rest) \<and>
    (r_avg r, r_max r, r_min r) =
      (let a = compute_stats (map (\<lambda>s. m_value (s_metric s)) view) in (st_avg a, st_max a, st_min a)) \<and>
    next_page_token r = (if length rest \<le> unat (plan_page_size plan) then []
      else encode_page_token (cursor_at snapshot (rest ! (unat (plan_page_size plan) - 1))))"
proof -
  let ?n = "unat (plan_page_size plan)"
  have log: "store_log st (committed_log bs outs)" using commit_all_log [OF new_store_log assms(1)] by simp
  then have ok: "store_ok st" by (auto simp: store_ok_def)
  have view: "snapshot_view st request snapshot = view" unfolding assms(5) by (rule log_view [OF log])
  have q: "query_range st request = Inr (page_spec ?n snapshot view rest)"
    using query_range_spec [OF ok assms(2)] assms(3,4) view unfolding assms(6) by simp
  have n: "0 < ?n" using page_size_pos [OF assms(2), THEN conjunct1] .
  have "last (take ?n rest) = rest ! (?n - 1)" if "?n < length rest"
    using n that by (subst last_conv_nth) auto
  then show ?thesis unfolding q by (auto simp: page_spec_def Let_def not_le)
qed

theorem range_query_matches_log_witness:
  "\<exists>st r. commit_all commit_batch
       [example_batch ''b1'' [example_metric ''cpu'' 3 20, example_metric ''cpu'' 4 10]] (new_store 5)
       = ([Inr Committed], st) \<and>
     query_range st (example_request 1) = Inr r \<and> map m_timestamp_ms (r_metrics r) = [10] \<and> next_page_token r \<noteq> []"
proof -
  let ?bs = "[example_batch ''b1'' [example_metric ''cpu'' 3 20, example_metric ''cpu'' 4 10]]"
  let ?r = "example_request 1"
  let ?plan = "\<lparr>plan_cursor = None, plan_page_size = 1\<rparr>"
  define st where "st = snd (commit_all commit_batch ?bs (new_store 5))"
  have c: "commit_all commit_batch ?bs (new_store 5) = ([Inr Committed], st)"
    unfolding st_def by (simp add: store_eval example_defs int64_max_def)
  have plan: "make_range_query_plan ?r = Inr ?plan" by (simp add: query_eval)
  have snap: "2 = (case plan_cursor ?plan of None \<Rightarrow> st_current_event_id st | Some c \<Rightarrow> snapshot_event_id c)"
    "2 \<le> st_current_event_id st"
    unfolding st_def by (simp_all add: store_eval example_defs int64_max_def)
  have log: "store_log st (committed_log ?bs [Inr Committed])" using commit_all_log [OF new_store_log c] by simp
  define view where "view = filter (in_view ?r 2)
      (retained (capacity_per_metric st) (samples (committed_log ?bs [Inr Committed]) (q_metric_name ?r)))"
  have "view = snapshot_view st ?r 2" unfolding view_def log_view [OF log] ..
  then have view: "map (m_timestamp_ms \<circ> s_metric) view = [10, 20]"
    unfolding st_def by (simp add: store_eval example_defs int64_max_def query_eval)
  then obtain s t where "view = [s, t]" "m_timestamp_ms (s_metric s) = 10" by auto
  with range_query_matches_log [OF c plan snap view_def refl] c show ?thesis
    by auto
qed

text \<open>
  C37: Every refused range query names the first offending field, in the order metric name, client
  ID, interval, page size, page token; a well-formed token whose snapshot lies beyond the store's
  current event is refused too, and every other request is answered.
\<close>

theorem range_query_errors:
  "query_range st request = Inl e \<longleftrightarrow>
     (\<exists>context. e = make_error InvalidArgument ''query_range'' context False \<and>
       Some context =
        (if q_metric_name request = [] then Some ''metric_name''
         else if q_client_id request = Some [] then Some ''client_id''
         else if to_ms request < from_ms request then Some ''time_range''
         else if 10000 < page_size request then Some ''page_size''
         else if page_token request = [] then None
         else case decode_page_token (page_token request) of
            None \<Rightarrow> Some ''page_token''
          | Some c \<Rightarrow> if st_current_event_id st < snapshot_event_id c then Some ''page_token'' else None))"
proof -
  have answered: "(case map_of (metric_buffers st) (q_metric_name request) of None \<Rightarrow> Inr default_range_response
      | Some buffer \<Rightarrow> Inr (f buffer)) \<noteq> Inl e" for f :: "stored_metric list \<Rightarrow> range_response"
    by (simp split: option.split)
  note defs = query_range_def make_range_query_plan_def validate_query_filters_def Let_def maximum_page_size_def
  consider "q_metric_name request = []" | "q_metric_name request \<noteq> []" "q_client_id request = Some []"
    | "q_metric_name request \<noteq> []" "q_client_id request \<noteq> Some []" by blast
  then show ?thesis
  proof cases
    case 3
    consider "to_ms request < from_ms request" | "\<not> to_ms request < from_ms request" "10000 < page_size request"
      | "\<not> to_ms request < from_ms request" "\<not> 10000 < page_size request" by blast
    then show ?thesis
    proof cases
      case valid: 3
      show ?thesis
        by (cases "page_token request = []"; cases "decode_page_token (page_token request)")
          (auto simp: defs 3 valid answered)
    qed (auto simp: defs 3)
  qed (auto simp: defs)
qed

lemma stats_loop_max_min:
  assumes "stats_loop vs (s0, mx0, mn0) = (s, mx, mn)" "isfinite mx0" "isfinite mn0" "\<forall>v \<in> set vs. isfinite v"
  shows "mx \<in> insert mx0 (set vs) \<and> mn \<in> insert mn0 (set vs) \<and>
    (\<forall>v \<in> insert mx0 (set vs). f64_real v \<le> f64_real mx) \<and>
    (\<forall>v \<in> insert mn0 (set vs). f64_real mn \<le> f64_real v)"
  using assms
proof (induction vs arbitrary: s0 mx0 mn0)
  case (Cons v vs)
  have v: "isfinite v" using Cons.prems(4) by simp
  have fin: "isfinite (std_max mx0 v)" "isfinite (std_min mn0 v)"
    using Cons.prems(2,3) v by (simp_all add: std_max_def std_min_def)
  have mem: "std_max mx0 v \<in> {mx0, v}" "std_min mn0 v \<in> {mn0, v}" by (simp_all add: std_max_def std_min_def)
  have le: "f64_real mx0 \<le> f64_real (std_max mx0 v)" "f64_real v \<le> f64_real (std_max mx0 v)"
    "f64_real (std_min mn0 v) \<le> f64_real mn0" "f64_real (std_min mn0 v) \<le> f64_real v"
    using std_max_value [of mx0 v] std_min_value [of mn0 v] Cons.prems(2,3) v by simp_all
  have "stats_loop vs (f64_add s0 v, std_max mx0 v, std_min mn0 v) = (s, mx, mn)" using Cons.prems(1) by simp
  from Cons.IH [OF this fin] Cons.prems(4) have IH:
    "mx \<in> insert (std_max mx0 v) (set vs)" "mn \<in> insert (std_min mn0 v) (set vs)"
    "\<forall>w \<in> insert (std_max mx0 v) (set vs). f64_real w \<le> f64_real mx"
    "\<forall>w \<in> insert (std_min mn0 v) (set vs). f64_real mn \<le> f64_real w" by simp_all
  from IH(3) le(1,2) have "f64_real mx0 \<le> f64_real mx" "f64_real v \<le> f64_real mx" by auto
  moreover from IH(4) le(3,4) have "f64_real mn \<le> f64_real mn0" "f64_real mn \<le> f64_real v" by auto
  moreover have "mx \<in> insert mx0 (set (v # vs))" "mn \<in> insert mn0 (set (v # vs))"
    using IH(1,2) mem by auto
  ultimately show ?case using IH(3,4) by auto
qed simp

text \<open>The running sum of integers is exact as long as every partial sum stays below \<open>2 ^ 53\<close> in absolute value.\<close>

lemma stats_loop_sum:
  assumes "stats_loop vs (s0, mx0, mn0) = (s, mx, mn)" "isfinite s0" "f64_real s0 = of_int a"
    "list_all2 (\<lambda>v i. isfinite v \<and> f64_real v = of_int i) vs ints" "\<forall>k. \<bar>a + sum_list (take k ints)\<bar> < 2 ^ 53"
  shows "isfinite s \<and> f64_real s = of_int (a + sum_list ints)"
  using assms
proof (induction vs arbitrary: s0 mx0 mn0 a ints)
  case (Cons v vs)
  obtain i js where ints: "ints = i # js" "isfinite v" "f64_real v = of_int i"
      "list_all2 (\<lambda>v i. isfinite v \<and> f64_real v = of_int i) vs js"
    using Cons.prems(4) by (auto simp: list_all2_Cons1)
  have b: "\<bar>a + i\<bar> < 2 ^ 53" "\<forall>k. \<bar>(a + i) + sum_list (take k js)\<bar> < 2 ^ 53"
    using Cons.prems(5) [rule_format, of 1] Cons.prems(5) [rule_format, of "Suc _"] ints(1) by (simp_all add: add.assoc)
  note add = f64_add_ints [OF Cons.prems(2) ints(2) Cons.prems(3) ints(3) b(1)]
  have "stats_loop vs (f64_add s0 v, std_max mx0 v, std_min mn0 v) = (s, mx, mn)" using Cons.prems(1) by simp
  from Cons.IH [OF this add ints(4) b(2)] show ?case using ints(1) by simp
qed simp

text \<open>
  C24: The aggregates of a non-empty selection of finite values: the maximum and the minimum are
  values of the selection and bound all of them. When the values are integers (counters, byte counts) and every
  running sum of them, in the order of the selection, is below \<open>2 ^ 53\<close> in absolute value, the sum is exact and the
  average is the correctly rounded quotient. The selection has fewer than \<open>2 ^ 53\<close> values.
\<close>

theorem aggregates_correct:
  assumes "values \<noteq> []" "\<forall>v \<in> set values. isfinite v" "length values < 2 ^ 53"
  shows "st_max (compute_stats values) \<in> set values \<and> st_min (compute_stats values) \<in> set values \<and>
    (\<forall>v \<in> set values. f64_real (st_min (compute_stats values)) \<le> f64_real v \<and>
       f64_real v \<le> f64_real (st_max (compute_stats values))) \<and>
    (\<forall>ints. map f64_real values = map of_int ints \<longrightarrow> (\<forall>k. \<bar>sum_list (take k ints)\<bar> < 2 ^ 53) \<longrightarrow>
       isfinite (st_avg (compute_stats values)) \<and>
       f64_real (st_avg (compute_stats values)) = f64_srnd (of_int (sum_list ints) / of_nat (length values)))"
proof -
  obtain v vs where vals: "values = v # vs" using assms(1) by (metis neq_Nil_conv)
  obtain s mx mn where loop: "stats_loop values (f64_zero False, v, v) = (s, mx, mn)"
    by (metis prod_cases3)
  have stats: "compute_stats values = \<lparr>st_avg = f64_div s (f64_of_nat (length values)), st_max = mx, st_min = mn\<rparr>"
    using loop by (simp add: compute_stats_def vals)
  have v: "isfinite v" using assms(2) vals by simp
  have avg: "isfinite (st_avg (compute_stats values)) \<and>
      f64_real (st_avg (compute_stats values)) = f64_srnd (of_int (sum_list ints) / of_nat (length values))"
    if ints: "map f64_real values = map of_int ints" "\<forall>k. \<bar>sum_list (take k ints)\<bar> < 2 ^ 53" for ints :: "int list"
  proof -
    have "length ints = length values" using ints(1) by (metis length_map)
    moreover have "f64_real (values ! i) = of_int (ints ! i)" if "i < length values" for i
      using ints(1) that \<open>length ints = _\<close> by (metis nth_map)
    ultimately have "list_all2 (\<lambda>v i. isfinite v \<and> f64_real v = of_int i) values ints"
      using assms(2) by (simp add: list_all2_conv_all_nth)
    with stats_loop_sum [OF loop, of 0 ints] ints(2) have s: "isfinite s" "f64_real s = of_int (sum_list ints)"
      by simp_all
    note n = f64_of_nat_small [OF assms(3)]
    have n': "f64_real (f64_of_nat (length values)) = of_nat (length values)" using n(2) by simp
    have "\<bar>f64_real s / real (length values)\<bar> \<le> \<bar>f64_real s\<bar>"
      using vals by (simp add: field_simps mult_left_le)
    also have "\<bar>f64_real s\<bar> \<le> 2 ^ 53"
    proof -
      have "\<bar>sum_list ints\<bar> \<le> 2 ^ 53" using ints(2) [rule_format, of "length ints"] by simp
      then have "real_of_int \<bar>sum_list ints\<bar> \<le> real_of_int (2 ^ 53)" by (simp only: of_int_le_iff)
      then show ?thesis using s(2) by simp
    qed
    also have "(2::real) ^ 53 \<le> 2 powi 1023" using power_increasing [of 53 1023 "2::real"] by (simp add: power_int_def)
    finally have "\<bar>f64_real s / f64_real (f64_of_nat (length values))\<bar> \<le> 2 powi 1023" unfolding n' .
    moreover have "f64_real (f64_of_nat (length values)) \<noteq> 0" unfolding n' using vals by simp
    ultimately show ?thesis using f64_div_value [OF s(1) n(1)] s(2) unfolding n' stats by simp
  qed
  have mm: "st_max (compute_stats values) = mx" "st_min (compute_stats values) = mn"
    unfolding stats by simp_all
  have "insert v (set values) = set values" using vals by auto
  with stats_loop_max_min [OF loop v v assms(2)] avg show ?thesis unfolding mm by simp
qed

theorem aggregates_correct_witness:
  "f64_real (st_avg (compute_stats [Finite False 3 0, Finite True 1 0, Finite False 4 0])) = 2"
proof -
  let ?vs = "[Finite False 3 0, Finite True 1 0, Finite False 4 0]"
  have "map f64_real ?vs = map of_int [3, -1, 4]" by (simp add: sign_real_def)
  moreover have "\<forall>k. \<bar>sum_list (take k [3, -1, 4 :: int])\<bar> < 2 ^ 53"
    by (auto simp: take_Cons split: nat.split)
  ultimately have "f64_real (st_avg (compute_stats ?vs)) = f64_srnd (of_int (sum_list [3, -1, 4]) / of_nat (length ?vs))"
    by (intro aggregates_correct [THEN conjunct2, THEN conjunct2, THEN conjunct2, rule_format, THEN conjunct2])
      (auto simp: sign_real_def)
  also have "\<dots> = f64_srnd (of_int 2)" by simp
  finally show ?thesis using f64_srnd_int [of 2] by simp
qed

definition eviction_batches :: "metric_batch list" where
  "eviction_batches = [example_batch ''b1'' [example_metric ''cpu'' 3 10, example_metric ''cpu'' 4 20]]"

definition eviction_later :: "metric_batch list" where
  "eviction_later = [example_batch ''b2'' [example_metric ''cpu'' 7 30, example_metric ''cpu'' 8 40]]"

lemmas eviction_eval = eviction_batches_def eviction_later_def store_eval example_defs int64_max_def query_eval

text \<open>
  C32: The guarantee of identical aggregates and of a stable page needs the buffer to keep its room. On a
  store with two samples per metric, commits between two requests that evict the samples of the
  snapshot make the second page of the same query empty, with other aggregates, although its
  snapshot held a second sample when the first page was taken.
\<close>

theorem eviction_breaks_pages:
  "\<exists>st p1 p2. commit_all commit_batch eviction_batches (new_store 2) = ([Inr Committed], st) \<and>
     length (snapshot_view st (example_request 1) (st_current_event_id st)) = 2 \<and>
     follow_pages (st # states_after [eviction_later] st) (example_request 1) = [Inr p1, Inr p2] \<and>
     length (r_metrics p1) = 1 \<and> r_metrics p2 = [] \<and> r_max p1 = Finite False 4 0 \<and> r_max p2 = f64_zero False"
proof -
  define st where "st = snd (commit_all commit_batch eviction_batches (new_store 2))"
  define st' where "st' = snd (commit_all commit_batch eviction_later st)"
  have c: "commit_all commit_batch eviction_batches (new_store 2) = ([Inr Committed], st)"
    unfolding st_def by (simp add: eviction_eval)
  have ok: "store_ok st" "store_ok st'"
    using memory_store.commit_all_inv [OF store_ok_new] memory_store.commit_all_inv
    unfolding st'_def st_def by blast+
  let ?r = "example_request 1" and ?plan = "\<lparr>plan_cursor = None, plan_page_size = 1\<rparr>"
  define s t where st_defs: "s = \<lparr>s_metric = owned ''agent-a'' (example_metric ''cpu'' 3 10), s_event_id = 1\<rparr>"
    "t = \<lparr>s_metric = owned ''agent-a'' (example_metric ''cpu'' 4 20), s_event_id = 2\<rparr>"
  have view: "snapshot_view st ?r 2 = [s, t]" "s_metric s = owned ''agent-a'' (example_metric ''cpu'' 3 10)"
      "s_event_id s = 1" "s_metric t = owned ''agent-a'' (example_metric ''cpu'' 4 20)"
    unfolding st_def st_defs by (simp_all add: eviction_eval owned_def)
  have view': "snapshot_view st' ?r 2 = []"
    unfolding st'_def st_def by (simp add: eviction_eval)
  have ids: "st_current_event_id st = 2" "st_current_event_id st' = 4"
    unfolding st'_def st_def by (simp_all add: eviction_eval)
  have plan: "make_range_query_plan ?r = Inr ?plan" by (simp add: query_eval)
  let ?c = "cursor_at 2 s" and ?r2 = "?r\<lparr>page_token := encode_page_token (cursor_at 2 s)\<rparr>"
  have valid: "cursor_valid ?c"
    by (simp add: cursor_valid_def cursor_at_def view int64_range_def int64_min_def int64_max_def owned_def example_defs)
  have plan2: "make_range_query_plan ?r2 = Inr \<lparr>plan_cursor = Some ?c, plan_page_size = 1\<rparr>"
    by (simp add: query_eval encode_decode [OF valid])
  have q1: "query_range st ?r = Inr (page_spec 1 2 [s, t] [s, t])"
    using query_range_spec [OF ok(1) plan] by (simp add: ids view)
  have q2: "query_range st' ?r2 = Inr (page_spec 1 2 [] [])"
    using query_range_spec [OF ok(2) plan2] by (simp add: ids view' cursor_at_def)
  have p1: "next_page_token (page_spec 1 2 [s, t] [s, t]) = encode_page_token ?c"
    by (simp add: page_spec_def Let_def)
  have max: "r_max (page_spec 1 2 [s, t] [s, t]) = Finite False 4 0"
    by (simp add: page_spec_def Let_def compute_stats_def view std_max_def signed_int_def example_defs)
  have "follow_pages (st # states_after [eviction_later] st) ?r =
      [Inr (page_spec 1 2 [s, t] [s, t]), Inr (page_spec 1 2 [] [])]"
    using q1 q2 by (simp add: p1 st'_def [symmetric]) (simp add: page_spec_def Let_def)
  moreover have "length (r_metrics (page_spec 1 2 [s, t] [s, t])) = 1" by (simp add: page_spec_def Let_def)
  moreover have "r_metrics (page_spec 1 2 [] []) = []" "r_max (page_spec 1 2 [] []) = f64_zero False"
    by (simp_all add: default_page default_range_response_def)
  ultimately show ?thesis using c max ids view by auto
qed

definition huge_batch :: metric_batch where
  "huge_batch = example_batch ''b1''
     [(example_metric ''cpu'' 0 10)\<lparr>m_value := Finite False (2 ^ 52) 971\<rparr>,
      (example_metric ''cpu'' 0 20)\<lparr>m_value := Finite False (2 ^ 52) 971\<rparr>]"

lemma huge_value: "f64_real (Finite False (2 ^ 52) 971) = 2 powi 1023"
  using powi_split [of 971 52] by (simp add: sign_real_def)

lemma huge_stats:
  "st_avg (compute_stats [Finite False (2 ^ 52) 971, Finite False (2 ^ 52) 971]) = Infinite False"
proof -
  let ?h = "Finite False (2 ^ 52) 971"
  have "f64_srnd (2 powi 1023) = 2 powi 1023" using f64_srnd_exact [of 1 1023] by simp
  then have one: "isfinite (f64_add (f64_zero False) ?h)" "f64_real (f64_add (f64_zero False) ?h) = 2 powi 1023"
    using f64_add_value [of "f64_zero False" ?h] unfolding huge_value by simp_all
  have "f64_limit = 2 powi 1023 + 2 powi 1023"
    using powi_split [of 1023 1] by (simp add: f64_limit_def)
  then have two: "f64_add (f64_add (f64_zero False) ?h) ?h = Infinite False"
    by (intro f64_add_overflow) (simp_all only: one huge_value isfinite_simps order_refl)
  obtain s m e where n: "f64_of_nat 2 = Finite s m e" "\<not> s"
  proof -
    have "isfinite (f64_of_nat 2)" "f64_real (f64_of_nat 2) = 2"
      using f64_of_nat_value [of 2] f64_srnd_int [of 2] by (simp_all add: f64_srnd_nonneg)
    then show thesis using that by (auto elim!: isfiniteE simp: sign_real_def split: if_splits)
      (smt (verit) of_nat_0_le_iff zero_le_mult_iff zero_le_power_int)
  qed
  show ?thesis using two n by (simp add: compute_stats_def numeral_2_eq_2 [symmetric])
qed

text \<open>
  C33: The average can be infinite although every sample is finite and the store only accepts finite
  samples: two committed samples of \<open>2 ^ 1023\<close> make the running sum overflow, so the response
  reports an infinite average of values whose mean is \<open>2 ^ 1023\<close>.
\<close>

theorem average_overflows:
  "validate_batch huge_batch = None \<and>
   (\<exists>st r. commit_batch (new_store 5) huge_batch = (Inr Committed, st) \<and>
     query_range st (example_request 0) = Inr r \<and> length (r_metrics r) = 2 \<and>
     list_all (\<lambda>m. isfinite (m_value m)) (r_metrics r) \<and> r_avg r = Infinite False)"
proof -
  let ?h = "Finite False (2 ^ 52) 971" and ?r = "example_request 0"
  define st where "st = snd (commit_batch (new_store 5) huge_batch)"
  have valid: "validate_batch huge_batch = None"
    by (simp add: validate_batch_def huge_batch_def example_defs)
  have c: "commit_batch (new_store 5) huge_batch = (Inr Committed, st)"
    unfolding st_def by (simp add: store_eval huge_batch_def example_defs int64_max_def)
  have ok: "store_ok st" unfolding st_def by (rule commit_store_ok [OF store_ok_new])
  have plan: "make_range_query_plan ?r = Inr \<lparr>plan_cursor = None, plan_page_size = 1000\<rparr>"
    by (simp add: query_eval)
  have id: "st_current_event_id st = 2"
    unfolding st_def by (simp add: store_eval huge_batch_def example_defs int64_max_def)
  have view: "map (\<lambda>s. m_value (s_metric s)) (snapshot_view st ?r 2) = [?h, ?h]"
    unfolding st_def by (simp add: store_eval huge_batch_def example_defs int64_max_def query_eval)
  have len: "length (snapshot_view st ?r 2) = 2"
    using arg_cong [OF view, of length] by simp
  have q: "query_range st ?r = Inr (page_spec 1000 2 (snapshot_view st ?r 2) (snapshot_view st ?r 2))"
    using query_range_spec [OF ok plan] by (simp add: id)
  have "r_avg (page_spec 1000 2 (snapshot_view st ?r 2) (snapshot_view st ?r 2)) = Infinite False"
    by (simp only: page_spec_def Let_def view range_response.simps huge_stats)
  moreover have "map m_value (r_metrics (page_spec 1000 2 (snapshot_view st ?r 2) (snapshot_view st ?r 2))) = [?h, ?h]"
    using view len by (simp add: page_spec_def Let_def comp_def)
  then have "\<forall>m \<in> set (r_metrics (page_spec 1000 2 (snapshot_view st ?r 2) (snapshot_view st ?r 2))). isfinite (m_value m)"
    by (auto simp: map_eq_Cons_conv)
  ultimately show ?thesis using valid c q
    by (intro conjI exI [of _ st] exI [of _ "page_spec 1000 2 (snapshot_view st ?r 2) (snapshot_view st ?r 2)"])
      (simp_all add: page_spec_def Let_def len list_all_iff)
qed

section \<open>The latest sample\<close>

lemma first_match_last:
  "first_match request (rev buffer) =
     (let ms = filter (\<lambda>s. matches_filters (s_metric s) request) buffer
      in if ms = [] then None else Some \<lparr>l_metric = s_metric (last ms)\<rparr>)"
  by (induction buffer rule: rev_induct) (simp_all add: Let_def)

lemma retained_newest:
  assumes "x \<in> set (retained cap xs)" "t \<in> set xs" "t \<notin> set (retained cap xs)"
  shows "key_of t \<le> key_of x"
proof -
  let ?s = "sort_key key_of xs"
  have "?s = take (length xs - cap) ?s @ retained cap xs" by (simp add: retained_def)
  then have "sorted (map key_of (take (length xs - cap) ?s @ retained cap xs))"
    by (metis sorted_sort_key)
  moreover have "t \<in> set (take (length xs - cap) ?s)"
    using assms(2,3) \<open>?s = _\<close> by (metis Un_iff set_append set_sort)
  ultimately show ?thesis using assms(1) by (auto simp: sorted_append)
qed

text \<open>With a sample, every greater one of the metric is retained.\<close>

lemma retained_upward:
  assumes "x \<in> set (retained cap (samples hist n))" "t \<in> set (samples hist n)" "key_of x \<le> key_of t"
  shows "t \<in> set (retained cap (samples hist n))"
proof (rule ccontr)
  assume out: "t \<notin> set (retained cap (samples hist n))"
  have "key_of x = key_of t" using retained_newest [OF assms(1,2) out] assms(3) by simp
  moreover have "x \<in> set (samples hist n)" using assms(1) by (rule subsetD [OF retained_facts(2), rotated])
  ultimately have "x = t" using assms(2) by (intro inj_onD [OF samples_key_inj])
  with assms(1) out show False by simp
qed

text \<open>
  C22: The latest query, against the log: on a reachable store and with valid filters it returns
  nothing exactly when no retained sample of the metric passes the filters, and otherwise a
  retained sample that does and that is the newest, in the order of (timestamp, event ID), among all the
  matching samples ever committed.
\<close>

theorem latest_is_newest:
  assumes "commit_all commit_batch bs (new_store cap) = (outs, st)"
    and "validate_query_filters request ''query_latest'' = None"
    and "buffer = retained (capacity_per_metric st) (samples (committed_log bs outs) (q_metric_name request))"
  shows "\<exists>r. query_latest st request = Inr r \<and>
    (r = None \<longleftrightarrow> (\<forall>s \<in> set buffer. \<not> matches_filters (s_metric s) request)) \<and>
    (\<forall>latest. r = Some latest \<longrightarrow> (\<exists>s \<in> set buffer. l_metric latest = s_metric s \<and>
       matches_filters (s_metric s) request \<and>
       (\<forall>t \<in> set (samples (committed_log bs outs) (q_metric_name request)).
          matches_filters (s_metric t) request \<longrightarrow> key_of t \<le> key_of s)))"
proof -
  let ?hist = "committed_log bs outs" and ?n = "q_metric_name request"
  let ?p = "\<lambda>s. matches_filters (s_metric s) request"
  have log: "store_log st ?hist" using commit_all_log [OF new_store_log assms(1)] by simp
  then have "query_latest st request = Inr (first_match request (rev buffer))"
    using assms(2) by (simp add: query_latest_def store_log_def assms(3))
  moreover have "key_of t \<le> key_of (last (filter ?p buffer))"
    if "filter ?p buffer \<noteq> []" "t \<in> set (samples ?hist ?n)" "?p t" for t
  proof (cases "t \<in> set buffer")
    case True
    have "sorted (map key_of buffer)" unfolding assms(3) by (rule retained_facts(1))
    then have "sorted (map key_of (filter ?p buffer))" by (rule sorted_filter)
    with True that(3) show ?thesis by (intro sorted_last) auto
  next
    case False
    have "last (filter ?p buffer) \<in> set buffer" using that(1) last_in_set by fastforce
    then show ?thesis using False that(2) unfolding assms(3) by (intro retained_newest) auto
  qed
  moreover have "last (filter ?p buffer) \<in> set buffer \<and> ?p (last (filter ?p buffer))"
    if "filter ?p buffer \<noteq> []"
    using last_in_set [OF that] by simp
  ultimately show ?thesis
    by (intro exI [of _ "first_match request (rev buffer)"])
      (auto simp: first_match_last Let_def filter_empty_conv)
qed

theorem latest_is_newest_witness:
  "\<exists>st. commit_all commit_batch
       [example_batch ''b1'' [example_metric ''cpu'' 3 20, example_metric ''cpu'' 4 10]] (new_store 5)
       = ([Inr Committed], st) \<and>
     query_latest st \<lparr>q_metric_name = ''cpu'', q_client_id = Some ''agent-b'', q_tags_filter = []\<rparr> = Inr None"
proof -
  let ?bs = "[example_batch ''b1'' [example_metric ''cpu'' 3 20, example_metric ''cpu'' 4 10]]"
  let ?r = "\<lparr>q_metric_name = ''cpu'', q_client_id = Some ''agent-b'', q_tags_filter = []\<rparr> :: latest_request"
  define st where "st = snd (commit_all commit_batch ?bs (new_store 5))"
  have c: "commit_all commit_batch ?bs (new_store 5) = ([Inr Committed], st)"
    unfolding st_def by (simp add: store_eval example_defs int64_max_def)
  have f: "validate_query_filters ?r ''query_latest'' = None" by (simp add: validate_query_filters_def)
  have owner: "m_source_client_id m = ''agent-a''" if "m \<in> set (committed_log ?bs [Inr Committed])" for m
    using that by (auto simp: example_batch_def)
  have "\<not> matches_filters (s_metric s) ?r" if "s \<in> set (retained (capacity_per_metric st)
      (samples (committed_log ?bs [Inr Committed]) (q_metric_name ?r)))" for s
  proof -
    have "s_metric s \<in> set (committed_log ?bs [Inr Committed])"
      using that retained_facts(2) by (force simp: samples_def stored_of_def)
    from owner [OF this] show ?thesis by (simp add: matches_filters_def)
  qed
  with latest_is_newest [OF c f refl] c show ?thesis by auto
qed

end
