(* ===== verification/Event_Stream.thy ===== *)
theory Event_Stream
  imports Store_Queries "HOL-Library.Sublist"
begin

text \<open>
  \<open>query_events_after\<close> of \<open>InMemoryTimeSeriesStore\<close> against the event log, and the store as an
  implementation of the event replay contract: a subscriber that polls from its last event ID gets
  matching events once and in commit order, whatever is committed between its polls, and misses only those that the
  bounded buffer has evicted.
\<close>

section \<open>One poll\<close>

text \<open>Only the buffer of the requested name contributes, wherever the iteration meets it.\<close>

lemma collect_one_buffer:
  assumes "keys_distinct al" "\<And>n b s. (n, b) \<in> set al \<Longrightarrow> s \<in> set b \<Longrightarrow> P s \<Longrightarrow> n = k"
  shows "concat (map (\<lambda>(n, b). filter P b) al) =
    filter P (case map_of al k of None \<Rightarrow> [] | Some b \<Rightarrow> b)"
  using assms
proof (induction al)
  case (Cons e al)
  obtain n b where e: "e = (n, b)" by fastforce
  note IH = Cons.IH [OF _ Cons.prems(2)]
  show ?case
  proof (cases "n = k")
    case True
    have "concat (map (\<lambda>(n, b). filter P b) al) = filter P (case map_of al k of None \<Rightarrow> [] | Some b \<Rightarrow> b)"
      using Cons.prems(1) by (intro IH) (auto simp: e)
    then show ?thesis using Cons.prems(1) True by (simp add: e)
  next
    case False
    then have "filter P b = []" using Cons.prems(2) [of n b] by (auto simp: e filter_empty_conv)
    moreover have "concat (map (\<lambda>(n, b). filter P b) al) = filter P (case map_of al k of None \<Rightarrow> [] | Some b \<Rightarrow> b)"
      using Cons.prems(1) by (intro IH) (auto simp: e)
    ultimately show ?thesis using False by (simp add: e)
  qed
qed simp

definition event_selected :: "metric list \<Rightarrow> nat \<Rightarrow> subscribe_request \<Rightarrow> stored_metric \<Rightarrow> bool" where
  "event_selected hist cap request s \<longleftrightarrow>
     after_event_id request < s_event_id s \<and> matches_filters (s_metric s) request \<and>
     s \<in> set (retained cap (samples hist (q_metric_name request)))"

lemma stored_of_sorted: "sorted_wrt (<) (map s_event_id (stored_of hist))"
  by (simp add: stored_of_def sorted_wrt_iff_nth_less)

lemma sorted_collect:
  assumes log: "store_log st hist"
  shows "sort_key s_event_id (collect_matches st request) =
    filter (event_selected hist (capacity_per_metric st) request) (stored_of hist)"
proof -
  let ?P = "\<lambda>s. s_event_id s > after_event_id request \<and> matches_filters (s_metric s) request"
  let ?n = "q_metric_name request" and ?cap = "capacity_per_metric st"
  let ?sel = "event_selected hist ?cap request"
  have ok: "store_ok st" using log by (auto simp: store_ok_def)
  have keys: "keys_distinct (metric_buffers st)" using log by (simp add: store_log_def)
  have "n = ?n" if "(n, b) \<in> set (metric_buffers st)" "s \<in> set b" "?P s" for n b s
  proof -
    have "map_of (metric_buffers st) n = Some b" using keys that(1) by (simp add: keys_distinct_def)
    from store_ok_buffer(4) [OF ok this] that(2,3) show ?thesis by (auto simp: matches_filters_def)
  qed
  then have collect: "collect_matches st request = filter ?P (retained ?cap (samples hist ?n))"
    unfolding collect_matches_def
    using collect_one_buffer [OF keys, of ?P ?n] log by (simp add: store_log_def)
  have dist: "distinct (stored_of hist)"
    using stored_of_sorted [of hist] by (metis distinct_map strict_sorted_iff)
  then have "distinct (retained ?cap (samples hist ?n))" by (simp add: retained_def samples_def Let_def)
  then have "mset (collect_matches st request) = mset (filter ?sel (stored_of hist))"
    using retained_facts(2) [of ?cap "samples hist ?n"] dist unfolding collect
    by (subst set_eq_iff_mset_eq_distinct [symmetric]) (auto simp: event_selected_def samples_def)
  moreover have "inj_on s_event_id (set (collect_matches st request))"
    using retained_facts(2) [of ?cap "samples hist ?n"] unfolding collect
    by (intro inj_on_subset [OF stored_of_event_inj [of hist]]) (auto simp: samples_def)
  moreover have "sorted (map s_event_id (filter ?sel (stored_of hist)))"
    using stored_of_sorted by (intro sorted_filter) (auto intro: strict_sorted_imp_sorted)
  ultimately show ?thesis by (intro sort_key_inj_key_eq)
qed

lemma query_events_spec:
  assumes "store_log st hist" "validate_query_filters request ''query_events_after'' = None"
    "0 \<le> after_event_id request" "1 \<le> fetch_limit" "fetch_limit \<le> 10000"
  shows "query_events_after st request fetch_limit = Inr (map event_of (take (unat fetch_limit)
    (filter (event_selected hist (capacity_per_metric st) request) (stored_of hist))))"
proof -
  have "fetch_limit \<noteq> 0" using assms(4) by auto
  with assms(2,3,5) show ?thesis
    by (simp add: query_events_after_def maximum_page_size_def sorted_collect [OF assms(1)] not_less)
qed

section \<open>The store as an event source\<close>

definition stream_events :: "subscribe_request \<Rightarrow> store \<Rightarrow> metric_event list" where
  "stream_events request st =
     map event_of (sort_key s_event_id (collect_matches st (request\<lparr>after_event_id := 0\<rparr>)))"

definition poll_events :: "subscribe_request \<Rightarrow> uint32 \<Rightarrow> store \<Rightarrow> int \<Rightarrow> metric_event list" where
  "poll_events request fetch_limit st after =
     (case query_events_after st (request\<lparr>after_event_id := after\<rparr>) fetch_limit of
        Inl e \<Rightarrow> [] | Inr es \<Rightarrow> es)"

definition stream_ok :: "subscribe_request \<Rightarrow> uint32 \<Rightarrow> store \<Rightarrow> bool" where
  "stream_ok request fetch_limit st \<longleftrightarrow> store_ok st \<and> 1 \<le> fetch_limit \<and> fetch_limit \<le> 10000 \<and>
     validate_query_filters request ''query_events_after'' = None"

definition stream_extends :: "store \<Rightarrow> store \<Rightarrow> bool" where
  "stream_extends st st' \<longleftrightarrow> (\<exists>hist ext. store_log st hist \<and> store_log st' (hist @ ext) \<and>
     capacity_per_metric st' = capacity_per_metric st)"

lemma after_update [simp]:
  "matches_filters m (request\<lparr>after_event_id := a\<rparr>) = matches_filters m request"
  "validate_query_filters (request\<lparr>after_event_id := a\<rparr>) operation = validate_query_filters request operation"
  by (simp_all add: matches_filters_def validate_query_filters_def)

lemma stored_of_append: "\<exists>new. stored_of (hist @ ext) = stored_of hist @ new"
proof (induction ext rule: rev_induct)
  case (snoc m ext)
  then show ?case using stored_of_snoc [of "hist @ ext" m] by auto
qed simp

lemma stream_events_log:
  assumes "store_log st hist"
  shows "stream_events request st = map event_of (filter (event_selected hist (capacity_per_metric st)
    (request\<lparr>after_event_id := 0\<rparr>)) (stored_of hist))"
  by (simp add: stream_events_def sorted_collect [OF assms])

lemma in_stream_events:
  assumes "store_log st hist"
  shows "e \<in> set (stream_events request st) \<longleftrightarrow> (\<exists>s \<in> set (stored_of hist). e = event_of s \<and>
    matches_filters (s_metric s) request \<and> s \<in> set (buffer_of st (q_metric_name request)))"
proof -
  have "event_selected hist (capacity_per_metric st) (request\<lparr>after_event_id := 0\<rparr>) s \<longleftrightarrow>
      matches_filters (s_metric s) request \<and> s \<in> set (buffer_of st (q_metric_name request))"
    if "s \<in> set (stored_of hist)" for s
    using set_stored_ofD [OF that] by (simp add: event_selected_def log_buffer [OF assms])
  then show ?thesis by (auto simp: stream_events_log [OF assms])
qed

lemma event_of_id [simp]: "e_event_id (event_of s) = s_event_id s"
  by (simp add: event_of_def)

lemma stream_events_given:
  assumes "store_log st hist" "e \<in> set (stream_events request st)"
  shows "e_event_id e \<le> st_current_event_id st"
  using assms set_stored_ofD by (fastforce simp: in_stream_events [OF assms(1)] store_log_def)

lemma stream_events_back:
  assumes "stream_extends st st'" "e \<in> set (stream_events request st')" "e_event_id e \<le> st_current_event_id st"
  shows "e \<in> set (stream_events request st)"
proof -
  let ?n = "q_metric_name request" and ?cap = "capacity_per_metric st"
  obtain hist ext where log: "store_log st hist" "store_log st' (hist @ ext)" "capacity_per_metric st' = ?cap"
    using assms(1) unfolding stream_extends_def by blast
  obtain s where s: "s \<in> set (stored_of (hist @ ext))" "e = event_of s" "matches_filters (s_metric s) request"
      "s \<in> set (retained ?cap (samples (hist @ ext) ?n))"
    using assms(2) log(3) by (auto simp: in_stream_events [OF log(2)] log_buffer [OF log(2)])
  have "s_event_id s \<le> int (length hist)" using assms(3) log(1) by (simp add: s(2) store_log_def)
  from retained_back [OF s(4) this] have r: "s \<in> set (retained ?cap (samples hist ?n))" .
  then have "s \<in> set (samples hist ?n)" by (rule subsetD [OF retained_facts(2)])
  then have "s \<in> set (stored_of hist)" by (simp add: samples_def)
  with r s(2,3) show ?thesis by (auto simp: in_stream_events [OF log(1)] log_buffer [OF log(1)])
qed

interpretation memory_stream: event_source "poll_events request fetch_limit" e_event_id "stream_events request"
  st_current_event_id "stream_ok request fetch_limit" stream_extends
  for request :: subscribe_request and fetch_limit :: uint32
proof unfold_locales
  fix st st' :: store and after :: int
  assume ok: "stream_ok request fetch_limit st"
  then obtain hist where log: "store_log st hist" by (auto simp: stream_ok_def store_ok_def)
  let ?sel = "\<lambda>a. event_selected hist (capacity_per_metric st) (request\<lparr>after_event_id := a\<rparr>)"
  show "sorted_wrt (<) (map e_event_id (stream_events request st))"
    using stored_of_sorted [of hist]
    by (simp add: stream_events_log [OF log] sorted_wrt_map sorted_wrt_filter event_of_def)
  show "\<exists>n. 0 < n \<and> poll_events request fetch_limit st after =
      take n (filter (\<lambda>e. after < e_event_id e) (stream_events request st))" if "0 \<le> after"
  proof (intro exI conjI)
    show "0 < unat fetch_limit" using ok by (auto simp: stream_ok_def word_le_nat_alt)
    have "filter (\<lambda>e. after < e_event_id e) (stream_events request st) = map event_of (filter (?sel after) (stored_of hist))"
      using that unfolding stream_events_log [OF log] filter_map filter_filter
      by (intro arg_cong [where f = "map event_of"] filter_cong) (auto simp: event_selected_def event_of_def)
    moreover have "poll_events request fetch_limit st after =
        map event_of (take (unat fetch_limit) (filter (?sel after) (stored_of hist)))"
      using ok that query_events_spec [OF log, of "request\<lparr>after_event_id := after\<rparr>" fetch_limit]
      by (simp add: poll_events_def stream_ok_def)
    ultimately show "poll_events request fetch_limit st after =
        take (unat fetch_limit) (filter (\<lambda>e. after < e_event_id e) (stream_events request st))"
      by (simp add: take_map)
  qed
  show "e_event_id e \<le> st_current_event_id st" if "e \<in> set (stream_events request st)" for e
    by (rule stream_events_given [OF log that])
  show "e \<in> set (stream_events request st)"
    if "stream_extends st st'" "e \<in> set (stream_events request st')" "e_event_id e \<le> st_current_event_id st" for e
    by (rule stream_events_back [OF that])
qed

section \<open>Properties of the event stream\<close>

text \<open>
  C20: One poll returns exactly the retained events of the log that lie strictly after the cursor and
  pass the filters, in increasing event-ID order and cut to the fetch limit, whatever order the
  buffers are iterated in.
\<close>

theorem events_after_exact:
  assumes "commit_all commit_batch bs (new_store cap) = (outs, st)"
    and "validate_query_filters request ''query_events_after'' = None" "0 \<le> after_event_id request"
    and "1 \<le> fetch_limit" "fetch_limit \<le> 10000"
  shows "query_events_after st request fetch_limit =
      Inr (map event_of (take (unat fetch_limit) (filter (\<lambda>s. after_event_id request < s_event_id s \<and>
         matches_filters (s_metric s) request \<and>
         s \<in> set (retained (capacity_per_metric st) (samples (committed_log bs outs) (q_metric_name request))))
       (stored_of (committed_log bs outs))))) \<and>
    sorted_wrt (<) (map s_event_id (stored_of (committed_log bs outs)))"
proof -
  have log: "store_log st (committed_log bs outs)" using commit_all_log [OF new_store_log assms(1)] by simp
  show ?thesis using query_events_spec [OF log assms(2-5)] stored_of_sorted
    by (simp add: event_selected_def [abs_def])
qed

definition example_subscription :: "int \<Rightarrow> subscribe_request" where
  "example_subscription after = \<lparr>q_metric_name = ''cpu'', q_client_id = None, q_tags_filter = [],
     after_event_id = after\<rparr>"

theorem events_after_exact_witness:
  "\<exists>st es. commit_all commit_batch
       [example_batch ''b1'' [example_metric ''cpu'' 3 20, example_metric ''cpu'' 4 10]] (new_store 5)
       = ([Inr Committed], st) \<and>
     query_events_after st (example_subscription 1) 7 = Inr es \<and> map e_event_id es = [2]"
proof -
  let ?bs = "[example_batch ''b1'' [example_metric ''cpu'' 3 20, example_metric ''cpu'' 4 10]]"
  let ?r = "example_subscription 1"
  define st where "st = snd (commit_all commit_batch ?bs (new_store 5))"
  have c: "commit_all commit_batch ?bs (new_store 5) = ([Inr Committed], st)"
    unfolding st_def by (simp add: store_eval example_defs int64_max_def)
  have v: "validate_query_filters ?r ''query_events_after'' = None" "0 \<le> after_event_id ?r"
    by (simp_all add: validate_query_filters_def example_subscription_def)
  have cap: "capacity_per_metric st = 5"
    unfolding st_def by (simp add: store_eval example_defs int64_max_def)
  obtain m0 m1 where log: "committed_log ?bs [Inr Committed] = [m0, m1]" "m_name m0 = ''cpu''" "m_name m1 = ''cpu''"
    by (simp add: example_defs)
  have stored: "stored_of [m0, m1] = [\<lparr>s_metric = m0, s_event_id = 1\<rparr>, \<lparr>s_metric = m1, s_event_id = 2\<rparr>]"
    by (simp add: stored_of_def upt_rec)
  have samples: "samples [m0, m1] ''cpu'' = stored_of [m0, m1]"
    unfolding samples_def stored using log(2,3) by simp
  have "set (retained 5 (samples [m0, m1] ''cpu'')) = set (stored_of [m0, m1])"
    unfolding samples by (intro retained_facts(4)) simp
  then have "filter (\<lambda>s. after_event_id ?r < s_event_id s \<and> matches_filters (s_metric s) ?r \<and>
         s \<in> set (retained (capacity_per_metric st) (samples [m0, m1] (q_metric_name ?r)))) (stored_of [m0, m1])
      = [\<lparr>s_metric = m1, s_event_id = 2\<rparr>]"
    using log(2,3) by (simp add: cap example_subscription_def matches_filters_def matches_tags_def stored)
  with events_after_exact [OF c v, of 7] c show ?thesis unfolding log(1)
    by (auto simp: event_of_def)
qed

lemma states_extend:
  assumes "store_log st hist"
  shows "sorted_wrt stream_extends (st # states_after bss st)"
  using assms
proof (induction bss arbitrary: st hist)
  case (Cons cs bss)
  obtain rs st1 where c: "commit_all commit_batch cs st = (rs, st1)" by fastforce
  have step: "states_after (cs # bss) st = st1 # states_after bss st1" using c by (simp add: Let_def)
  have "stream_extends st st'" if "st' \<in> set (states_after (cs # bss) st)" for st'
    using states_after_log [OF Cons.prems that] Cons.prems unfolding stream_extends_def by blast
  moreover have "store_log st1 (hist @ committed_log cs rs)" using commit_all_log [OF Cons.prems c] by blast
  from Cons.IH [OF this] have "sorted_wrt stream_extends (st1 # states_after bss st1)" .
  ultimately show ?case unfolding step by simp
qed simp

text \<open>Every state of the run is that of an initial part of its batches, and its log is an initial part of the last one.\<close>

lemma states_after_split:
  "st' \<in> set (st # states_after bss st) \<Longrightarrow>
     \<exists>pre post. concat bss = pre @ post \<and> st' = snd (commit_all commit_batch pre st)"
proof (induction bss arbitrary: st)
  case (Cons cs bss)
  show ?case
  proof (cases "st' = st")
    case True
    then show ?thesis by (intro exI [of _ "[]"] exI [of _ "concat (cs # bss)"]) simp
  next
    case False
    let ?st1 = "snd (commit_all commit_batch cs st)"
    have "st' \<in> set (?st1 # states_after bss ?st1)" using Cons.prems False by (simp add: Let_def)
    from Cons.IH [OF this] obtain pre post where
      "concat bss = pre @ post" "st' = snd (commit_all commit_batch pre ?st1)" by blast
    then show ?thesis
      by (intro exI [of _ "cs @ pre"] exI [of _ post]) (simp add: memory_store.commit_all_append)
  qed
qed auto

lemma committed_log_append:
  "length rs = length bs \<Longrightarrow> committed_log (bs @ cs) (rs @ rs') = committed_log bs rs @ committed_log cs rs'"
  by (induction rs bs rule: list_induct2) simp_all

lemma run_split:
  assumes "commit_all commit_batch bs (new_store cap) = (outs0, st)"
    "commit_all commit_batch (bs @ concat bss) (new_store cap) = (outs, final)" "st' \<in> set (st # states_after bss st)"
  shows "\<exists>hist ext. store_log st' hist \<and> committed_log (bs @ concat bss) outs = hist @ ext"
proof -
  obtain pre post where p: "concat bss = pre @ post" "st' = snd (commit_all commit_batch pre st)"
    using states_after_split [OF assms(3)] by blast
  obtain rs1 where r1: "commit_all commit_batch (bs @ pre) (new_store cap) = (rs1, st')"
    using p(2) assms(1) by (cases "commit_all commit_batch pre st") (simp add: commit_all_append_results)
  obtain rs2 st2 where r2: "commit_all commit_batch post st' = (rs2, st2)" by fastforce
  have "commit_all commit_batch ((bs @ pre) @ post) (new_store cap) = (rs1 @ rs2, st2)"
    by (simp only: commit_all_append_results [of _ "bs @ pre"] r1 r2 prod.case)
  then have "outs = rs1 @ rs2" using assms(2) by (simp add: p(1))
  then have "committed_log (bs @ concat bss) outs = committed_log (bs @ pre) rs1 @ committed_log post rs2"
    using committed_log_append [OF commit_all_length [OF r1], of post rs2] by (simp add: p(1))
  moreover have "store_log st' (committed_log (bs @ pre) rs1)" using commit_all_log [OF new_store_log r1] by simp
  ultimately show ?thesis by blast
qed

section \<open>Parts of a list in increasing order\<close>

lemma strict_sorted_eq:
  fixes f :: "'a \<Rightarrow> 'k::linorder"
  assumes "sorted_wrt (<) (map f xs)" "sorted_wrt (<) (map f ys)" "set xs = set ys"
  shows "xs = ys"
proof -
  have "inj_on f (set xs \<union> set ys)" using assms(1,3) by (simp add: strict_sorted_iff distinct_map)
  then show ?thesis using assms by (intro map_sorted_distinct_set_unique [where f = f]) (simp_all add: strict_sorted_iff)
qed

lemma strict_sorted_filter:
  "sorted_wrt (<) (map f xs) \<Longrightarrow> sorted_wrt (<) (map f (filter P xs))"
  by (simp add: sorted_wrt_map sorted_wrt_filter)

lemma strict_sorted_subseq:
  fixes f :: "'a \<Rightarrow> 'k::linorder"
  assumes "sorted_wrt (<) (map f xs)" "sorted_wrt (<) (map f ys)" "set xs \<subseteq> set ys"
  shows "subseq xs ys"
proof -
  have "xs = filter (\<lambda>y. y \<in> set xs) ys"
    using assms(3) by (intro strict_sorted_eq [OF assms(1) strict_sorted_filter [OF assms(2)]]) auto
  then show ?thesis by (metis subseq_filter_left)
qed

lemma strict_sorted_up_to:
  fixes f :: "'a \<Rightarrow> 'k::linorder"
  assumes "sorted_wrt (<) (map f ys)"
  shows "\<exists>n. filter (\<lambda>y. f y \<le> c) ys = take n ys"
  using assms
proof (induction ys)
  case (Cons y ys)
  then obtain n where "filter (\<lambda>y. f y \<le> c) ys = take n ys" by auto
  then show ?case
  proof (cases "f y \<le> c")
    case False
    then have "filter (\<lambda>y. f y \<le> c) (y # ys) = take 0 (y # ys)" using Cons.prems by (auto simp: filter_empty_conv)
    then show ?thesis by blast
  qed (auto intro: exI [of _ "Suc n"])
qed simp

lemma strict_sorted_prefix:
  fixes f :: "'a \<Rightarrow> 'k::linorder"
  assumes "sorted_wrt (<) (map f xs)" "sorted_wrt (<) (map f ys)" "set xs \<subseteq> set ys"
    "\<And>y. y \<in> set ys \<Longrightarrow> xs \<noteq> [] \<Longrightarrow> f y \<le> f (last xs) \<Longrightarrow> y \<in> set xs"
  shows "\<exists>n. xs = take n ys"
proof (cases "xs = []")
  case False
  let ?up = "filter (\<lambda>y. f y \<le> f (last xs)) ys"
  have "f x \<le> f (last xs)" if "x \<in> set xs" for x
    by (rule sorted_last [OF strict_sorted_imp_sorted [OF assms(1)] that])
  then have "set xs = set ?up" using assms(3,4) False by auto
  then have "xs = ?up" by (rule strict_sorted_eq [OF assms(1) strict_sorted_filter [OF assms(2)]])
  then show ?thesis using strict_sorted_up_to [OF assms(2)] by metis
qed (auto intro: exI [of _ 0])

lemma states_after_last: "last (st # states_after bss st) = snd (commit_all commit_batch (concat bss) st)"
proof (induction bss arbitrary: st)
  case (Cons cs bss)
  then show ?case by (simp add: Let_def memory_store.commit_all_append)
qed simp

text \<open>Whatever a state of the run holds of the stream is in the log of the last one.\<close>

lemma held_in_log:
  assumes "commit_all commit_batch bs (new_store cap) = (outs0, st)"
    "commit_all commit_batch (bs @ concat bss) (new_store cap) = (outs, final)"
    "st' \<in> set (st # states_after bss st)" "e \<in> set (stream_events request st')"
  shows "\<exists>s \<in> set (stored_of (committed_log (bs @ concat bss) outs)). e = event_of s \<and> matches_filters (s_metric s) request"
proof -
  obtain hist new where h: "store_log st' hist" "committed_log (bs @ concat bss) outs = hist @ new"
    using run_split [OF assms(1-3)] by blast
  then obtain s where "s \<in> set (stored_of hist)" "e = event_of s" "matches_filters (s_metric s) request"
    using assms(4) by (auto simp: in_stream_events [OF h(1)])
  then show ?thesis using stored_of_append [of hist new] by (auto simp: h(2))
qed

text \<open>
  C3: Resuming a subscription repeats nothing and loses only what has been evicted. A subscriber polls the successive
  states of a reachable store, each time from the event ID it saw last, while any batches are committed between
  the polls and old samples are evicted. What it has received is a subsequence of the matching events committed after
  its first cursor: in commit order, none twice. Of those up to the last one it received it has all that the final state
  still holds, and once a poll comes back empty it has all matching events that the final state still holds. If
  none of the matching events has been evicted, what it has received is event for event an initial part of them, and all of
  them once a poll comes back empty.
\<close>

theorem event_stream_resume:
  assumes "commit_all commit_batch bs (new_store cap) = (outs0, st)"
    and "commit_all commit_batch (bs @ concat bss) (new_store cap) = (outs, final)"
    and "validate_query_filters request ''query_events_after'' = None" "0 \<le> after"
    and "1 \<le> fetch_limit" "fetch_limit \<le> 10000"
    and "received = follow_events (poll_events request fetch_limit) e_event_id (st # states_after bss st) after"
    and "matching = filter (\<lambda>s. after < s_event_id s \<and> matches_filters (s_metric s) request)
          (stored_of (committed_log (bs @ concat bss) outs))"
    and "empty_poll \<longleftrightarrow> poll_events request fetch_limit final (if received = [] then after else e_event_id (last received)) = []"
    and "kept = buffer_of final (q_metric_name request)"
  shows "subseq received (map event_of matching) \<and>
    (\<forall>s \<in> set matching \<inter> set kept. empty_poll \<or> received \<noteq> [] \<and> s_event_id s \<le> e_event_id (last received) \<longrightarrow>
       event_of s \<in> set received) \<and>
    (set matching \<subseteq> set kept \<longrightarrow> (\<exists>n. received = map event_of (take n matching)) \<and>
       (empty_poll \<longrightarrow> received = map event_of matching))"
proof -
  let ?log = "committed_log (bs @ concat bss) outs" and ?sts = "st # states_after bss st" and ?M = "map event_of matching"
  have log: "store_log st (committed_log bs outs0)" using commit_all_log [OF new_store_log assms(1)] by simp
  have final_log: "store_log final ?log" using commit_all_log [OF new_store_log assms(2)] by simp
  have last: "last ?sts = final"
    using memory_store.commit_all_append [of bs "concat bss" "new_store cap"] assms(1,2)
    by (simp only: states_after_last snd_conv)
  have ok: "\<forall>st' \<in> set ?sts. stream_ok request fetch_limit st'"
    using states_after_log [OF log] log assms(3,5,6) by (auto simp: stream_ok_def store_ok_def)
  note ext = states_extend [OF log, of bss]
  note facts = memory_stream.follow_facts [OF ok ext assms(4,7), unfolded last]
  have M: "sorted_wrt (<) (map e_event_id ?M)"
    using strict_sorted_filter [OF stored_of_sorted] by (simp add: assms(8) comp_def)
  have sub: "set received \<subseteq> set ?M"
  proof
    fix e assume "e \<in> set received"
    then obtain st' where e: "after < e_event_id e" "st' \<in> set ?sts" "e \<in> set (stream_events request st')"
      using facts by blast
    from held_in_log [OF assms(1,2) e(2,3)] e(1) show "e \<in> set ?M" by (auto simp: assms(8))
  qed
  have held: "event_of s \<in> set (stream_events request final)" if "s \<in> set matching" "s \<in> set kept" for s
    using that by (auto simp: in_stream_events [OF final_log] assms(8,10))
  have kept: "event_of s \<in> set received"
    if s: "s \<in> set matching" "s \<in> set kept"
      and upto: "empty_poll \<or> received \<noteq> [] \<and> s_event_id s \<le> e_event_id (last received)" for s
  proof -
    have after: "after < e_event_id (event_of s)" using s(1) by (simp add: assms(8))
    from upto show ?thesis
    proof
      assume empty_poll
      then show ?thesis
        using memory_stream.follow_complete [OF ok ext assms(4,7) _ _ _ after, unfolded last] held [OF s] assms(9) by simp
    qed (use facts held [OF s] after in simp)
  qed
  have "(\<exists>n. received = map event_of (take n matching)) \<and> (empty_poll \<longrightarrow> received = ?M)" if all: "set matching \<subseteq> set kept"
  proof
    have "\<exists>n. received = take n ?M" using kept all by (intro strict_sorted_prefix [OF conjunct1 [OF facts] M sub]) auto
    then show "\<exists>n. received = map event_of (take n matching)" by (simp only: take_map)
    have "empty_poll \<Longrightarrow> set received = set ?M" using sub kept all by auto
    then show "empty_poll \<longrightarrow> received = ?M" using strict_sorted_eq [OF conjunct1 [OF facts] M] by blast
  qed
  with strict_sorted_subseq [OF _ M sub] facts kept show ?thesis by blast
qed

text \<open>
  A store of two samples: the subscriber has received one event of the first batch when the second batch evicts the other one; the next
  poll goes on with what is left.
\<close>

theorem event_stream_resume_witness:
  "\<exists>st final received matching. commit_all commit_batch
       [example_batch ''b1'' [example_metric ''cpu'' 3 20, example_metric ''cpu'' 4 10]] (new_store 2) = ([Inr Committed], st) \<and>
     states_after [[example_batch ''b2'' [example_metric ''cpu'' 5 30]]] st = [final] \<and>
     received = follow_events (poll_events (example_subscription 0) 1) e_event_id [st, final] 0 \<and>
     map e_event_id received = [1, 3] \<and> map s_event_id matching = [1, 2, 3] \<and> subseq received (map event_of matching)"
proof -
  let ?bs = "[example_batch ''b1'' [example_metric ''cpu'' 3 20, example_metric ''cpu'' 4 10]]"
  let ?bss = "[[example_batch ''b2'' [example_metric ''cpu'' 5 30]]]" and ?r = "example_subscription 0"
  define st where "st = snd (commit_all commit_batch ?bs (new_store 2))"
  define final where "final = snd (commit_all commit_batch (?bs @ concat ?bss) (new_store 2))"
  define received where "received = follow_events (poll_events ?r 1) e_event_id (st # states_after ?bss st) 0"
  define matching where "matching = filter (\<lambda>s. 0 < s_event_id s \<and> matches_filters (s_metric s) ?r)
      (stored_of (committed_log (?bs @ concat ?bss) [Inr Committed, Inr Committed]))"
  have c: "commit_all commit_batch ?bs (new_store 2) = ([Inr Committed], st)"
    unfolding st_def by (simp add: store_eval example_defs int64_max_def)
  have c2: "commit_all commit_batch (?bs @ concat ?bss) (new_store 2) = ([Inr Committed, Inr Committed], final)"
    unfolding final_def by (simp add: store_eval example_defs int64_max_def)
  have v: "validate_query_filters ?r ''query_events_after'' = None" "(0::int) \<le> 0" "(1::uint32) \<le> 1" "(1::uint32) \<le> 10000"
    by (simp_all add: validate_query_filters_def example_subscription_def)
  have states: "states_after ?bss st = [final]"
    unfolding st_def final_def by (simp add: store_eval example_defs int64_max_def)
  have p1: "map e_event_id (poll_events ?r 1 st 0) = [1]"
    unfolding st_def by (simp add: store_eval example_defs int64_max_def poll_events_def query_events_after_def
        validate_query_filters_def example_subscription_def maximum_page_size_def collect_matches_def matches_filters_def matches_tags_def)
  have p2: "map e_event_id (poll_events ?r 1 final 1) = [3]"
    unfolding final_def by (simp add: store_eval example_defs int64_max_def poll_events_def query_events_after_def
        validate_query_filters_def example_subscription_def maximum_page_size_def collect_matches_def matches_filters_def matches_tags_def)
  have ids: "map e_event_id received = [1, 3]"
    using p1 p2 unfolding received_def states by (auto simp: map_eq_Cons_conv)
  have m: "map s_event_id matching = [1, 2, 3]"
    unfolding matching_def by (simp add: example_defs stored_of_def upt_rec owned_def matches_filters_def matches_tags_def example_subscription_def)
  have sub: "subseq received (map event_of matching)"
    using event_stream_resume [OF c c2 v received_def matching_def refl refl] by (rule conjunct1)
  have run: "received = follow_events (poll_events ?r 1) e_event_id [st, final] 0" unfolding received_def states ..
  show ?thesis by (intro exI conjI, rule c, rule states, rule run, rule ids, rule m, rule sub)
qed

text \<open>
  Every refused poll names the first offending field, in the order metric name, client ID, cursor, fetch
  limit, and every other one is answered with at most the fetch limit's number of events.
\<close>

lemma event_query_errors:
  "(query_events_after st request fetch_limit = Inl e \<longleftrightarrow>
     (\<exists>context. e = make_error InvalidArgument ''query_events_after'' context False \<and>
       Some context =
        (if q_metric_name request = [] then Some ''metric_name''
         else if q_client_id request = Some [] then Some ''client_id''
         else if after_event_id request < 0 then Some ''after_event_id''
         else if fetch_limit = 0 \<or> 10000 < fetch_limit then Some ''fetch_limit''
         else None))) \<and>
   (case query_events_after st request fetch_limit of Inl _ \<Rightarrow> True
    | Inr es \<Rightarrow> length es \<le> unat fetch_limit \<and> length es \<le> 10000)"
proof -
  have "unat fetch_limit \<le> 10000" if "\<not> 10000 < fetch_limit"
    using that by (simp add: word_less_nat_alt not_less)
  then show ?thesis
    by (auto simp: query_events_after_def validate_query_filters_def maximum_page_size_def)
qed

text \<open>
  C30: Page tokens round trip: decoding an encoded cursor gives it back for every cursor the queries
  can produce (a snapshot that fits in an int64, any int64 timestamp, an event ID between one and
  the snapshot), and every text that decodes at all stands for such a cursor.
\<close>

theorem page_token_roundtrip:
  "(cursor_valid c \<longrightarrow> decode_page_token (encode_page_token c) = Some c) \<and>
   (decode_page_token text = Some d \<longrightarrow> cursor_valid d \<and> decode_page_token (encode_page_token d) = Some d)"
  using encode_decode decode_valid by blast

theorem page_token_roundtrip_witness:
  "decode_page_token (encode_page_token \<lparr>snapshot_event_id = 12, cursor_timestamp_ms = - 34, cursor_event_id = 7\<rparr>)
     = Some \<lparr>snapshot_event_id = 12, cursor_timestamp_ms = - 34, cursor_event_id = 7\<rparr>"
  by (rule page_token_roundtrip [THEN conjunct1, rule_format])
    (simp add: cursor_valid_def int64_range_def int64_min_def int64_max_def)

end
