(* ===== verification/Pending_Batch_Queue.thy ===== *)
theory Pending_Batch_Queue
  imports Wire
begin

text \<open>
  \<open>PendingBatchQueue\<close> (\<open>cpp/client/impl/pending_batch_queue\<close>): the bounded FIFO of batches that
  have not been acknowledged. Each operation holds the queue's mutex from start to end (the
  validation of \<open>enqueue\<close> reads only its argument), so a run of several threads is a sequence of
  whole operations; \<open>dropped_batches_\<close> is an atomic that only \<open>enqueue\<close> increments
  (\<open>Queue_Concurrency\<close> proves both from the individual accesses).
\<close>

section \<open>State\<close>

datatype enqueue_result =
  Enqueued | DroppedOldest | RejectedAllInFlight | InvalidBatch | DuplicateBatch

record pending_batch =
  pb_batch :: metric_batch
  in_flight :: bool

record batch_queue =
  q_capacity :: nat
  q_batches :: "pending_batch list"
  q_dropped :: uint64

definition default_queue_capacity :: nat where
  "default_queue_capacity = 256"

definition new_queue :: "nat \<Rightarrow> batch_queue" where
  "new_queue capacity =
     \<lparr>q_capacity = (if capacity = 0 then default_queue_capacity else capacity), q_batches = [],
      q_dropped = 0\<rparr>"

abbreviation entry_id :: "pending_batch \<Rightarrow> string" where
  "entry_id e \<equiv> b_batch_id (pb_batch e)"

section \<open>Operations\<close>

definition enqueue :: "batch_queue \<Rightarrow> metric_batch \<Rightarrow> enqueue_result \<times> batch_queue" where
  "enqueue q batch =
     (if b_client_id batch = [] \<or> b_batch_id batch = [] \<or> b_metrics batch = [] then (InvalidBatch, q)
      else case find_if (\<lambda>e. entry_id e = b_batch_id batch) (q_batches q) of
        Some _ \<Rightarrow> (DuplicateBatch, q)
      | None \<Rightarrow>
          (let append = (\<lambda>bs. bs @ [\<lparr>pb_batch = batch, in_flight = False\<rparr>])
           in if length (q_batches q) = q_capacity q then
                (case find_if (\<lambda>e. \<not> in_flight e) (q_batches q) of
                   None \<Rightarrow> (RejectedAllInFlight, q\<lparr>q_dropped := q_dropped q + 1\<rparr>)
                 | Some oldest \<Rightarrow>
                     (DroppedOldest, q\<lparr>q_batches := append (erase_at oldest (q_batches q)),
                                       q_dropped := q_dropped q + 1\<rparr>))
              else (Enqueued, q\<lparr>q_batches := append (q_batches q)\<rparr>)))"

definition mark_next_in_flight :: "batch_queue \<Rightarrow> metric_batch option \<times> batch_queue" where
  "mark_next_in_flight q =
     (case find_if (\<lambda>e. \<not> in_flight e) (q_batches q) of
        None \<Rightarrow> (None, q)
      | Some i \<Rightarrow>
          (Some (pb_batch (q_batches q ! i)),
           q\<lparr>q_batches := (q_batches q)[i := (q_batches q ! i)\<lparr>in_flight := True\<rparr>]\<rparr>))"

definition acknowledge :: "batch_queue \<Rightarrow> string \<Rightarrow> bool \<times> batch_queue" where
  "acknowledge q batch_id =
     (case find_if (\<lambda>e. entry_id e = batch_id) (q_batches q) of
        None \<Rightarrow> (False, q)
      | Some i \<Rightarrow> (True, q\<lparr>q_batches := erase_at i (q_batches q)\<rparr>))"

definition reset_in_flight :: "batch_queue \<Rightarrow> batch_queue" where
  "reset_in_flight q = q\<lparr>q_batches := map (\<lambda>e. e\<lparr>in_flight := False\<rparr>) (q_batches q)\<rparr>"

definition queue_size :: "batch_queue \<Rightarrow> nat" where
  "queue_size q = length (q_batches q)"

definition dropped_batches :: "batch_queue \<Rightarrow> uint64" where
  "dropped_batches q = q_dropped q"

section \<open>Abstract specification: two lists\<close>

text \<open>
  The code keeps one list with a flag per entry. Seen from outside it is two FIFO lists: the batches
  handed to the sender and awaiting an acknowledgement, and the batches still waiting. The invariant
  says why this is enough: the flagged entries always form a prefix.
\<close>

definition outstanding :: "batch_queue \<Rightarrow> metric_batch list" where
  "outstanding q = map pb_batch (filter in_flight (q_batches q))"

definition waiting :: "batch_queue \<Rightarrow> metric_batch list" where
  "waiting q = map pb_batch (filter (\<lambda>e. \<not> in_flight e) (q_batches q))"

definition entries :: "metric_batch list \<Rightarrow> metric_batch list \<Rightarrow> pending_batch list" where
  "entries out wait =
     map (\<lambda>b. \<lparr>pb_batch = b, in_flight = True\<rparr>) out @ map (\<lambda>b. \<lparr>pb_batch = b, in_flight = False\<rparr>) wait"

definition admissible :: "metric_batch \<Rightarrow> bool" where
  "admissible b \<longleftrightarrow> b_client_id b \<noteq> [] \<and> b_batch_id b \<noteq> [] \<and> b_metrics b \<noteq> []"

definition queue_inv :: "batch_queue \<Rightarrow> bool" where
  "queue_inv q \<longleftrightarrow>
     0 < q_capacity q \<and> length (q_batches q) \<le> q_capacity q \<and>
     distinct (map entry_id (q_batches q)) \<and> (\<forall>e \<in> set (q_batches q). admissible (pb_batch e)) \<and>
     q_batches q = entries (outstanding q) (waiting q)"

record queue_spec =
  sp_capacity :: nat
  sp_outstanding :: "metric_batch list"
  sp_waiting :: "metric_batch list"
  sp_dropped :: uint64

definition abs_queue :: "batch_queue \<Rightarrow> queue_spec" where
  "abs_queue q = \<lparr>sp_capacity = q_capacity q, sp_outstanding = outstanding q,
     sp_waiting = waiting q, sp_dropped = q_dropped q\<rparr>"

definition spec_enqueue :: "queue_spec \<Rightarrow> metric_batch \<Rightarrow> enqueue_result \<times> queue_spec" where
  "spec_enqueue s b =
     (let held = sp_outstanding s @ sp_waiting s
      in if \<not> admissible b then (InvalidBatch, s)
         else if b_batch_id b \<in> set (map b_batch_id held) then (DuplicateBatch, s)
         else if length held < sp_capacity s then (Enqueued, s\<lparr>sp_waiting := sp_waiting s @ [b]\<rparr>)
         else if sp_waiting s = [] then (RejectedAllInFlight, s\<lparr>sp_dropped := sp_dropped s + 1\<rparr>)
         else (DroppedOldest, s\<lparr>sp_waiting := tl (sp_waiting s) @ [b], sp_dropped := sp_dropped s + 1\<rparr>))"

definition spec_mark :: "queue_spec \<Rightarrow> metric_batch option \<times> queue_spec" where
  "spec_mark s =
     (case sp_waiting s of
        [] \<Rightarrow> (None, s)
      | b # bs \<Rightarrow> (Some b, s\<lparr>sp_outstanding := sp_outstanding s @ [b], sp_waiting := bs\<rparr>))"

definition spec_acknowledge :: "queue_spec \<Rightarrow> string \<Rightarrow> bool \<times> queue_spec" where
  "spec_acknowledge s k =
     (k \<in> b_batch_id ` set (sp_outstanding s @ sp_waiting s),
      s\<lparr>sp_outstanding := filter (\<lambda>b. b_batch_id b \<noteq> k) (sp_outstanding s),
        sp_waiting := filter (\<lambda>b. b_batch_id b \<noteq> k) (sp_waiting s)\<rparr>)"

definition spec_reset :: "queue_spec \<Rightarrow> queue_spec" where
  "spec_reset s = s\<lparr>sp_outstanding := [], sp_waiting := sp_outstanding s @ sp_waiting s\<rparr>"

section \<open>The queue as two lists\<close>

lemma entries_simps [simp]:
  "length (entries out wait) = length out + length wait"
  "map entry_id (entries out wait) = map b_batch_id (out @ wait)"
  "map pb_batch (filter in_flight (entries out wait)) = out"
  "map pb_batch (filter (\<lambda>e. \<not> in_flight e) (entries out wait)) = wait"
  "pb_batch ` set (entries out wait) = set out \<union> set wait"
  by (simp_all add: entries_def comp_def filter_map image_Un image_image)

lemma ball_entries [simp]:
  "(\<forall>e \<in> set (entries out wait). P (pb_batch e)) \<longleftrightarrow> (\<forall>b \<in> set out \<union> set wait. P b)"
  by (simp add: entries_def ball_Un)

text \<open>The invariant from its parts, and the parts of a queue that satisfies it.\<close>

lemma queue_invI:
  assumes "q_batches q = entries out wait" "0 < q_capacity q" "length out + length wait \<le> q_capacity q"
    "distinct (map b_batch_id (out @ wait))" "\<forall>b \<in> set out \<union> set wait. admissible b"
  shows "queue_inv q"
  unfolding queue_inv_def outstanding_def waiting_def using assms by (simp del: map_append)

lemma queue_invE:
  assumes "queue_inv q"
  obtains out wait where "q_batches q = entries out wait" "outstanding q = out" "waiting q = wait"
    "0 < q_capacity q" "length out + length wait \<le> q_capacity q"
    "distinct (map b_batch_id (out @ wait))" "\<forall>b \<in> set out \<union> set wait. admissible b"
  using assms that [of "outstanding q" "waiting q"] unfolding queue_inv_def
  by (metis ball_entries entries_simps(1,2))

lemma parts_of_entries [simp]:
  "q_batches q = entries out wait \<Longrightarrow> outstanding q = out"
  "q_batches q = entries out wait \<Longrightarrow> waiting q = wait"
  by (simp_all add: outstanding_def waiting_def)

lemma find_waiting:
  "find_if (\<lambda>e. \<not> in_flight e) (entries out wait) = (if wait = [] then None else Some (length out))"
  by (induction out) (cases wait, auto simp: entries_def)

lemma find_entry:
  "find_if (\<lambda>e. entry_id e = k) (entries out wait) = find_if (\<lambda>b. b_batch_id b = k) (out @ wait)"
proof -
  have "find_if (\<lambda>e. entry_id e = k) es = find_if (\<lambda>b. b_batch_id b = k) (map pb_batch es)" for es
    by (induction es) simp_all
  then show ?thesis by (simp add: entries_def comp_def)
qed

lemma erase_oldest: "wait \<noteq> [] \<Longrightarrow> erase_at (length out) (entries out wait) = entries out (tl wait)"
  by (cases wait) (simp_all add: erase_at_def entries_def)

lemma flag_oldest:
  "(entries out (b # wait))[length out := \<lparr>pb_batch = b, in_flight = True\<rparr>] = entries (out @ [b]) wait"
  "entries out (b # wait) ! length out = \<lparr>pb_batch = b, in_flight = False\<rparr>"
  by (simp_all add: entries_def list_update_append nth_append)

lemma entries_snoc: "entries out wait @ [\<lparr>pb_batch = b, in_flight = False\<rparr>] = entries out (wait @ [b])"
  by (simp add: entries_def)

lemma entries_reset: "map (\<lambda>e. e\<lparr>in_flight := False\<rparr>) (entries out wait) = entries [] (out @ wait)"
  by (simp add: entries_def)

lemma entries_filter:
  "filter (\<lambda>e. P (pb_batch e)) (entries out wait) = entries (filter P out) (filter P wait)"
  by (simp add: entries_def filter_map comp_def)

text \<open>With distinct keys, erasing the entry found is filtering its key out.\<close>

lemma erase_found:
  assumes "find_if (\<lambda>x. f x = k) xs = Some i" "distinct (map f xs)"
  shows "erase_at i xs = filter (\<lambda>x. f x \<noteq> k) xs"
  using assms(1)
proof (rule find_if_split)
  fix ys x zs
  assume s: "xs = ys @ x # zs" "f x = k" "erase_at i xs = ys @ zs"
  with assms(2) have "\<forall>y \<in> set ys \<union> set zs. f y \<noteq> k" by (auto simp: image_iff)
  with s show ?thesis by (simp add: filter_id_conv)
qed

section \<open>Refinement and preservation of the invariant\<close>

lemma new_queue_inv: "queue_inv (new_queue n)"
  by (rule queue_invI [of _ "[]" "[]"])
    (simp_all add: new_queue_def default_queue_capacity_def entries_def)

lemma enqueue_cases:
  assumes "queue_inv q" "q_batches q = entries out wait" "admissible b" "b_batch_id b \<notin> set (map b_batch_id (out @ wait))"
  obtains (space) "length out + length wait < q_capacity q"
      "enqueue q b = (Enqueued, q\<lparr>q_batches := entries out (wait @ [b])\<rparr>)"
  | (reject) "length out = q_capacity q" "wait = []"
      "enqueue q b = (RejectedAllInFlight, q\<lparr>q_dropped := q_dropped q + 1\<rparr>)"
  | (drop) w ws where "length out + length wait = q_capacity q" "wait = w # ws"
      "enqueue q b = (DroppedOldest, q\<lparr>q_batches := entries out (ws @ [b]), q_dropped := q_dropped q + 1\<rparr>)"
proof -
  have none: "find_if (\<lambda>e. entry_id e = b_batch_id b) (entries out wait) = None"
    unfolding find_entry find_if_None using assms(4) by (metis imageI set_map)
  have step: "enqueue q b =
      (if length out + length wait = q_capacity q then
         if wait = [] then (RejectedAllInFlight, q\<lparr>q_dropped := q_dropped q + 1\<rparr>)
         else (DroppedOldest, q\<lparr>q_batches := entries out (tl wait @ [b]), q_dropped := q_dropped q + 1\<rparr>)
       else (Enqueued, q\<lparr>q_batches := entries out (wait @ [b])\<rparr>))"
    using assms(2,3) none by (simp add: enqueue_def admissible_def find_waiting erase_oldest entries_snoc del: find_if_None)
  have "length out + length wait \<le> q_capacity q" using assms(1,2) by (simp add: queue_inv_def)
  then consider "length out + length wait < q_capacity q"
    | "length out + length wait = q_capacity q" "wait = []"
    | w ws where "length out + length wait = q_capacity q" "wait = w # ws"
    by (cases wait) fastforce+
  then show thesis by cases (use step space reject drop in simp_all)
qed

lemma enqueue_refines:
  assumes "queue_inv q"
  shows "queue_inv (snd (enqueue q b))"
    and "spec_enqueue (abs_queue q) b = (fst (enqueue q b), abs_queue (snd (enqueue q b)))"
proof -
  from assms obtain out wait where q: "q_batches q = entries out wait"
    and inv: "0 < q_capacity q" "length out + length wait \<le> q_capacity q"
      "distinct (map b_batch_id (out @ wait))" "\<forall>b \<in> set out \<union> set wait. admissible b"
    by (rule queue_invE)
  note abs = spec_enqueue_def abs_queue_def image_Un
  have "queue_inv (snd (enqueue q b)) \<and> spec_enqueue (abs_queue q) b = (fst (enqueue q b), abs_queue (snd (enqueue q b)))"
  proof (cases "admissible b \<and> b_batch_id b \<notin> set (map b_batch_id (out @ wait))")
    case False
    have dup: "(case find_if (\<lambda>e. entry_id e = k) (entries out wait) of Some _ \<Rightarrow> x | None \<Rightarrow> y) =
        (if k \<in> set (map b_batch_id (out @ wait)) then x else y)" for k x y
      by (simp only: find_if_case find_entry) auto
    show ?thesis using False assms by (auto simp: enqueue_def admissible_def q dup abs Let_def)
  next
    case True
    then have new: "admissible b" "b_batch_id b \<notin> set (map b_batch_id (out @ wait))" by blast+
    from assms q new show ?thesis
    proof (cases rule: enqueue_cases)
      case space
      then have "queue_inv (snd (enqueue q b))"
        by (intro queue_invI [of _ out "wait @ [b]"]) (use inv new in auto)
      then show ?thesis using q space new by (simp add: abs)
    next
      case reject
      then have "queue_inv (snd (enqueue q b))" by (intro queue_invI [of _ out wait]) (use inv q in auto)
      then show ?thesis using q reject new by (simp add: abs)
    next
      case (drop w ws)
      then have "queue_inv (snd (enqueue q b))" by (intro queue_invI [of _ out "ws @ [b]"]) (use inv new in auto)
      then show ?thesis using q drop new by (simp add: abs)
    qed
  qed
  then show "queue_inv (snd (enqueue q b))"
    and "spec_enqueue (abs_queue q) b = (fst (enqueue q b), abs_queue (snd (enqueue q b)))" by blast+
qed

lemma mark_refines:
  assumes "queue_inv q"
  shows "queue_inv (snd (mark_next_in_flight q))"
    and "spec_mark (abs_queue q) = (fst (mark_next_in_flight q), abs_queue (snd (mark_next_in_flight q)))"
proof -
  from assms obtain out wait where q: "q_batches q = entries out wait"
    and inv: "0 < q_capacity q" "length out + length wait \<le> q_capacity q"
      "distinct (map b_batch_id (out @ wait))" "\<forall>b \<in> set out \<union> set wait. admissible b"
    by (rule queue_invE)
  have "queue_inv (snd (mark_next_in_flight q)) \<and> spec_mark (abs_queue q) =
      (fst (mark_next_in_flight q), abs_queue (snd (mark_next_in_flight q)))"
  proof (cases wait)
    case Nil
    then show ?thesis
      using assms q by (simp add: mark_next_in_flight_def find_waiting spec_mark_def abs_queue_def)
  next
    case (Cons b bs)
    then have e: "mark_next_in_flight q = (Some b, q\<lparr>q_batches := entries (out @ [b]) bs\<rparr>)"
      using q by (simp add: mark_next_in_flight_def find_waiting flag_oldest)
    have "queue_inv (snd (mark_next_in_flight q))"
      by (rule queue_invI [of _ "out @ [b]" bs]) (use e inv Cons in auto)
    then show ?thesis using e q Cons by (simp add: spec_mark_def abs_queue_def)
  qed
  then show "queue_inv (snd (mark_next_in_flight q))" and "spec_mark (abs_queue q) =
      (fst (mark_next_in_flight q), abs_queue (snd (mark_next_in_flight q)))" by blast+
qed

lemma acknowledge_refines:
  assumes "queue_inv q"
  shows "queue_inv (snd (acknowledge q k))"
    and "spec_acknowledge (abs_queue q) k = (fst (acknowledge q k), abs_queue (snd (acknowledge q k)))"
proof -
  from assms obtain out wait where q: "q_batches q = entries out wait"
    and inv: "0 < q_capacity q" "length out + length wait \<le> q_capacity q"
      "distinct (map b_batch_id (out @ wait))" "\<forall>b \<in> set out \<union> set wait. admissible b"
    by (rule queue_invE)
  let ?f = "filter (\<lambda>b. b_batch_id b \<noteq> k)"
  have "acknowledge q k = (k \<in> b_batch_id ` set (out @ wait), q\<lparr>q_batches := entries (?f out) (?f wait)\<rparr>)"
  proof (cases "find_if (\<lambda>e. entry_id e = k) (entries out wait)")
    case None
    then have "\<forall>b \<in> set (out @ wait). b_batch_id b \<noteq> k" by (simp add: find_entry)
    moreover have "acknowledge q k = (False, q)" unfolding acknowledge_def q None by simp
    ultimately show ?thesis using q by (auto simp: filter_id_conv)
  next
    case (Some i)
    have "erase_at i (entries out wait) = filter (\<lambda>e. entry_id e \<noteq> k) (entries out wait)"
      by (rule erase_found [OF Some]) (simp only: entries_simps inv(3))
    then have "erase_at i (entries out wait) = entries (?f out) (?f wait)"
      by (simp add: entries_filter [of "\<lambda>b. b_batch_id b \<noteq> k"])
    moreover have "k \<in> b_batch_id ` set (out @ wait)"
      using Some by (metis (mono_tags, lifting) find_entry find_if_SomeD image_eqI nth_mem)
    ultimately show ?thesis using Some q by (simp add: acknowledge_def)
  qed
  moreover have "length (?f out) + length (?f wait) \<le> q_capacity q"
    using inv(2) by (meson add_mono length_filter_le order_trans)
  then have "queue_inv (q\<lparr>q_batches := entries (?f out) (?f wait)\<rparr>)"
    using inv by (intro queue_invI [of _ "?f out" "?f wait"]) (auto simp: distinct_map_filter)
  ultimately show "queue_inv (snd (acknowledge q k))"
    and "spec_acknowledge (abs_queue q) k = (fst (acknowledge q k), abs_queue (snd (acknowledge q k)))"
    using q by (simp_all add: spec_acknowledge_def abs_queue_def)
qed

lemma reset_refines:
  assumes "queue_inv q"
  shows "queue_inv (reset_in_flight q)" and "spec_reset (abs_queue q) = abs_queue (reset_in_flight q)"
proof -
  from assms obtain out wait where q: "q_batches q = entries out wait"
    and inv: "0 < q_capacity q" "length out + length wait \<le> q_capacity q"
      "distinct (map b_batch_id (out @ wait))" "\<forall>b \<in> set out \<union> set wait. admissible b"
    by (rule queue_invE)
  have e: "reset_in_flight q = q\<lparr>q_batches := entries [] (out @ wait)\<rparr>"
    using q by (simp add: reset_in_flight_def entries_reset)
  show "queue_inv (reset_in_flight q)"
    by (rule queue_invI [of _ "[]" "out @ wait"]) (use e inv in auto)
  show "spec_reset (abs_queue q) = abs_queue (reset_in_flight q)"
    using e q by (simp add: spec_reset_def abs_queue_def)
qed

section \<open>The interface a sender relies on\<close>

text \<open>
  A retry source: batches wait in order, the next one is handed out and becomes outstanding, and a
  reset returns everything outstanding to the front. A store of outstanding work that can also drop
  one batch by key extends it. What the sender of the agent needs is proved from the laws alone.
\<close>

fun take_next :: "('q \<Rightarrow> 'b option \<times> 'q) \<Rightarrow> nat \<Rightarrow> 'q \<Rightarrow> 'b list \<times> 'q" where
  "take_next next 0 q = ([], q)"
| "take_next next (Suc n) q =
     (case next q of
        (None, q') \<Rightarrow> ([], q')
      | (Some b, q') \<Rightarrow> (case take_next next n q' of (bs, q'') \<Rightarrow> (b # bs, q'')))"

fun drop_all :: "('q \<Rightarrow> 'k \<Rightarrow> bool \<times> 'q) \<Rightarrow> 'k list \<Rightarrow> 'q \<Rightarrow> 'q" where
  "drop_all f [] q = q"
| "drop_all f (k # ks) q = drop_all f ks (snd (f q k))"

locale retry_source =
  fixes next_batch :: "'q \<Rightarrow> 'b option \<times> 'q" and reset :: "'q \<Rightarrow> 'q"
    and pend :: "'q \<Rightarrow> 'b list" and sent :: "'q \<Rightarrow> 'b list" and inv :: "'q \<Rightarrow> bool"
  assumes next_empty: "inv q \<Longrightarrow> pend q = [] \<Longrightarrow> next_batch q = (None, q)"
    and next_some: "inv q \<Longrightarrow> pend q = b # bs \<Longrightarrow> fst (next_batch q) = Some b \<and>
      pend (snd (next_batch q)) = bs \<and> sent (snd (next_batch q)) = sent q @ [b]"
    and inv_next: "inv q \<Longrightarrow> inv (snd (next_batch q))"
    and inv_reset: "inv q \<Longrightarrow> inv (reset q)"
    and reset_parts: "inv q \<Longrightarrow> pend (reset q) = sent q @ pend q \<and> sent (reset q) = []"
begin

lemma take_next_parts:
  "inv q \<Longrightarrow> fst (take_next next_batch n q) = take n (pend q) \<and>
     pend (snd (take_next next_batch n q)) = drop n (pend q) \<and>
     sent (snd (take_next next_batch n q)) = sent q @ take n (pend q) \<and>
     inv (snd (take_next next_batch n q))"
proof (induction n arbitrary: q)
  case 0
  then show ?case by simp
next
  case (Suc n)
  obtain r q' where nb: "next_batch q = (r, q')" by fastforce
  show ?case
  proof (cases "pend q")
    case Nil
    then show ?thesis using next_empty [OF Suc.prems] Suc.prems by simp
  next
    case (Cons b bs)
    then have q': "r = Some b" "pend q' = bs" "sent q' = sent q @ [b]" "inv q'"
      using next_some [OF Suc.prems Cons] inv_next [OF Suc.prems] nb by simp_all
    then show ?thesis using Suc.IH [OF q'(4)] nb Cons by (auto split: prod.split)
  qed
qed

text \<open>After a reset, draining the queue resends the outstanding batches first, then the others.\<close>

lemma resend_after_reset:
  assumes "inv q" "length (sent q) + length (pend q) \<le> n"
  shows "fst (take_next next_batch n (reset q)) = sent q @ pend q"
    "pend (snd (take_next next_batch n (reset q))) = []"
    "sent (snd (take_next next_batch n (reset q))) = sent q @ pend q"
  using take_next_parts [OF inv_reset [OF assms(1)], of n] reset_parts [OF assms(1)] assms(2)
  by simp_all

end

locale keyed_retry_source = retry_source next_batch reset pend sent inv
  for next_batch :: "'q \<Rightarrow> 'b option \<times> 'q" and reset :: "'q \<Rightarrow> 'q"
    and pend :: "'q \<Rightarrow> 'b list" and sent :: "'q \<Rightarrow> 'b list" and inv :: "'q \<Rightarrow> bool" +
  fixes drop_key :: "'q \<Rightarrow> 'k \<Rightarrow> bool \<times> 'q" and key :: "'b \<Rightarrow> 'k"
  assumes inv_drop: "inv q \<Longrightarrow> inv (snd (drop_key q k))"
    and drop_parts: "inv q \<Longrightarrow>
      pend (snd (drop_key q k)) = filter (\<lambda>b. key b \<noteq> k) (pend q) \<and>
      sent (snd (drop_key q k)) = filter (\<lambda>b. key b \<noteq> k) (sent q)"
    and drop_result: "inv q \<Longrightarrow> fst (drop_key q k) \<longleftrightarrow> k \<in> key ` set (sent q @ pend q)"
begin

lemma drop_all_parts:
  assumes "inv q"
  shows "inv (drop_all drop_key ks q)"
    "pend (drop_all drop_key ks q) = filter (\<lambda>b. key b \<notin> set ks) (pend q)"
    "sent (drop_all drop_key ks q) = filter (\<lambda>b. key b \<notin> set ks) (sent q)"
  using assms
  by (induction ks arbitrary: q) (simp_all add: inv_drop drop_parts conj_commute)

end

text \<open>The queue of the agent is such a source; its laws are the refinement above.\<close>

lemma queue_spec_parts:
  assumes "queue_inv q"
  shows "waiting q = [] \<Longrightarrow> mark_next_in_flight q = (None, q)"
    and "waiting q = b # bs \<Longrightarrow> fst (mark_next_in_flight q) = Some b \<and>
      waiting (snd (mark_next_in_flight q)) = bs \<and>
      outstanding (snd (mark_next_in_flight q)) = outstanding q @ [b]"
    and "waiting (reset_in_flight q) = outstanding q @ waiting q \<and> outstanding (reset_in_flight q) = []"
    and "waiting (snd (acknowledge q k)) = filter (\<lambda>b. b_batch_id b \<noteq> k) (waiting q) \<and>
      outstanding (snd (acknowledge q k)) = filter (\<lambda>b. b_batch_id b \<noteq> k) (outstanding q)"
    and "fst (acknowledge q k) \<longleftrightarrow> k \<in> b_batch_id ` set (outstanding q @ waiting q)"
proof -
  show "mark_next_in_flight q = (None, q)" if "waiting q = []"
  proof -
    have "\<forall>e \<in> set (q_batches q). in_flight e"
      using that by (auto simp: waiting_def filter_empty_conv)
    then have "find_if (\<lambda>e. \<not> in_flight e) (q_batches q) = None" by simp
    then show ?thesis unfolding mark_next_in_flight_def by (simp only: option.case)
  qed
  show "fst (mark_next_in_flight q) = Some b \<and>
      waiting (snd (mark_next_in_flight q)) = bs \<and>
      outstanding (snd (mark_next_in_flight q)) = outstanding q @ [b]" if "waiting q = b # bs"
    using mark_refines(2) [OF assms] that by (simp add: spec_mark_def abs_queue_def)
  show "waiting (reset_in_flight q) = outstanding q @ waiting q \<and> outstanding (reset_in_flight q) = []"
    using reset_refines(2) [OF assms] by (simp add: spec_reset_def abs_queue_def)
  show "waiting (snd (acknowledge q k)) = filter (\<lambda>b. b_batch_id b \<noteq> k) (waiting q) \<and>
      outstanding (snd (acknowledge q k)) = filter (\<lambda>b. b_batch_id b \<noteq> k) (outstanding q)"
    and "fst (acknowledge q k) \<longleftrightarrow> k \<in> b_batch_id ` set (outstanding q @ waiting q)"
    using acknowledge_refines(2) [OF assms, of k] by (simp_all add: spec_acknowledge_def abs_queue_def)
qed

interpretation agent_queue: keyed_retry_source mark_next_in_flight reset_in_flight waiting outstanding
  queue_inv acknowledge b_batch_id
  by unfold_locales
    (simp_all add: mark_refines(1) reset_refines(1) acknowledge_refines(1) queue_spec_parts)

section \<open>Runs of the queue\<close>

text \<open>
  One event per completed operation, with what it returned. Since each operation is a critical
  section of one mutex, every concurrent history of the queue is one of these runs.
\<close>

datatype queue_event =
  Enq metric_batch enqueue_result | Mark "metric_batch option" | Ack string bool | Reset

inductive queue_step :: "batch_queue \<Rightarrow> queue_event \<Rightarrow> batch_queue \<Rightarrow> bool" where
  step_enq: "enqueue q b = (r, q') \<Longrightarrow> queue_step q (Enq b r) q'"
| step_mark: "mark_next_in_flight q = (r, q') \<Longrightarrow> queue_step q (Mark r) q'"
| step_ack: "acknowledge q k = (r, q') \<Longrightarrow> queue_step q (Ack k r) q'"
| step_reset: "queue_step q Reset (reset_in_flight q)"

inductive queue_run :: "batch_queue \<Rightarrow> queue_event list \<Rightarrow> batch_queue \<Rightarrow> bool" where
  run_nil: "queue_run q [] q"
| run_snoc: "queue_run q evs q' \<Longrightarrow> queue_step q' ev q'' \<Longrightarrow> queue_run q (evs @ [ev]) q''"

inductive_cases queue_step_enqE: "queue_step q (Enq b r) q'"
inductive_cases queue_step_markE: "queue_step q (Mark r) q'"
inductive_cases queue_step_ackE: "queue_step q (Ack k r) q'"
inductive_simps queue_step_reset_iff: "queue_step q Reset q'"

fun is_accept :: "queue_event \<Rightarrow> bool" where
  "is_accept (Enq b r) = (r = Enqueued \<or> r = DroppedOldest)"
| "is_accept _ = False"

fun is_evict :: "queue_event \<Rightarrow> bool" where
  "is_evict (Enq b r) = (r = DroppedOldest)"
| "is_evict _ = False"

fun is_reject :: "queue_event \<Rightarrow> bool" where
  "is_reject (Enq b r) = (r = RejectedAllInFlight)"
| "is_reject _ = False"

fun is_acked :: "queue_event \<Rightarrow> bool" where
  "is_acked (Ack k r) = r"
| "is_acked _ = False"

abbreviation occurrences :: "('e \<Rightarrow> bool) \<Rightarrow> 'e list \<Rightarrow> nat" where
  "occurrences p evs \<equiv> length (filter p evs)"

lemma queue_step_inv: "queue_step q ev q' \<Longrightarrow> queue_inv q \<Longrightarrow> queue_inv q'"
proof (induction rule: queue_step.induct)
  case (step_enq q b r q')
  then show ?case using enqueue_refines(1) [of q b] by simp
next
  case (step_mark q r q')
  then show ?case using mark_refines(1) [of q] by simp
next
  case (step_ack q k r q')
  then show ?case using acknowledge_refines(1) [of q k] by simp
next
  case (step_reset q)
  then show ?case by (rule reset_refines(1))
qed

lemma queue_run_inv: "queue_run q evs q' \<Longrightarrow> queue_inv q \<Longrightarrow> queue_inv q'"
  by (induction rule: queue_run.induct) (auto dest: queue_step_inv)

lemma queue_step_count:
  assumes "queue_step q ev q'" "queue_inv q"
  shows "queue_size q + of_bool (is_accept ev) = queue_size q' + of_bool (is_acked ev) + of_bool (is_evict ev)"
    and "q_dropped q' = q_dropped q + of_bool (is_evict ev \<or> is_reject ev)"
proof -
  have size: "queue_size q = length (sp_outstanding (abs_queue q)) + length (sp_waiting (abs_queue q))"
    if "queue_inv q" for q
    using that by (rule queue_invE) (simp add: queue_size_def abs_queue_def)
  note inv' = queue_step_inv [OF assms]
  have d: "q_dropped q = sp_dropped (abs_queue q)" for q by (simp add: abs_queue_def)
  have "queue_size q + of_bool (is_accept ev) = queue_size q' + of_bool (is_acked ev) + of_bool (is_evict ev)
      \<and> q_dropped q' = q_dropped q + of_bool (is_evict ev \<or> is_reject ev)"
    using assms(1)
  proof (cases rule: queue_step.cases)
    case (step_enq b r)
    have "r = fst (spec_enqueue (abs_queue q) b)" "abs_queue q' = snd (spec_enqueue (abs_queue q) b)"
      using enqueue_refines(2) [OF assms(2), of b] step_enq by simp_all
    then show ?thesis
      unfolding size [OF assms(2)] size [OF inv'] d step_enq(1)
      by (auto simp: spec_enqueue_def Let_def)
  next
    case (step_mark r)
    have "abs_queue q' = snd (spec_mark (abs_queue q))"
      using mark_refines(2) [OF assms(2)] step_mark by simp
    then show ?thesis
      unfolding size [OF assms(2)] size [OF inv'] d step_mark(1)
      by (auto simp: spec_mark_def split: list.splits)
  next
    case (step_ack k r)
    then show ?thesis
      by (auto simp: acknowledge_def queue_size_def split: option.splits dest!: find_if_SomeD)
  next
    case step_reset
    then show ?thesis by (simp add: reset_in_flight_def queue_size_def)
  qed
  then show "queue_size q + of_bool (is_accept ev) = queue_size q' + of_bool (is_acked ev) + of_bool (is_evict ev)"
    and "q_dropped q' = q_dropped q + of_bool (is_evict ev \<or> is_reject ev)" by blast+
qed

lemma queue_run_count:
  assumes "queue_run q evs q'" "queue_inv q" "queue_size q = 0" "q_dropped q = 0"
  shows "occurrences is_accept evs = queue_size q' + occurrences is_acked evs + occurrences is_evict evs
    \<and> q_dropped q' = of_nat (occurrences is_evict evs + occurrences is_reject evs)"
  using assms
proof (induction rule: queue_run.induct)
  case (run_nil q)
  then show ?case by simp
next
  case (run_snoc q evs q' ev q'')
  have inv: "queue_inv q'" by (rule queue_run_inv [OF run_snoc.hyps(1) run_snoc.prems(1)])
  have "\<not> (is_evict ev \<and> is_reject ev)" by (cases ev) auto
  with queue_step_count [OF run_snoc.hyps(2) inv] run_snoc.IH [OF run_snoc.prems] show ?case
    by (cases "is_evict ev"; cases "is_reject ev") (auto simp: of_bool_def split: if_splits)
qed

lemma enqueue_outstanding:
  assumes "queue_inv q"
  shows "outstanding (snd (enqueue q b)) = outstanding q"
proof -
  have "outstanding (snd (enqueue q b)) = sp_outstanding (snd (spec_enqueue (abs_queue q) b))"
    by (subst enqueue_refines(2) [OF assms]) (simp add: abs_queue_def)
  also have "\<dots> = outstanding q" by (simp add: spec_enqueue_def Let_def abs_queue_def)
  finally show ?thesis .
qed

lemma queue_step_outstanding:
  assumes "queue_step q ev q'" "queue_inv q" "ev \<noteq> Reset" "ev \<noteq> Ack (b_batch_id b) True"
    "b \<in> set (outstanding q)"
  shows "b \<in> set (outstanding q')"
  using assms(1)
proof (cases rule: queue_step.cases)
  case (step_enq c r)
  then show ?thesis using enqueue_outstanding [OF assms(2), of c] assms(5) by simp
next
  case (step_mark r)
  show ?thesis
  proof (cases "waiting q")
    case Nil
    then show ?thesis using queue_spec_parts(1) [OF assms(2) Nil] step_mark assms(5) by simp
  next
    case (Cons c cs)
    then show ?thesis using queue_spec_parts(2) [OF assms(2) Cons] step_mark assms(5) by simp
  qed
next
  case (step_ack k r)
  show ?thesis
  proof (cases "k = b_batch_id b")
    case True
    then have "r" using queue_spec_parts(5) [OF assms(2), of k] step_ack assms(5) by force
    with True step_ack(1) assms(4) show ?thesis by simp
  next
    case False
    then show ?thesis using queue_spec_parts(4) [OF assms(2), of k] step_ack assms(5) by simp
  qed
next
  case step_reset
  then show ?thesis using assms(3) by simp
qed

lemma queue_run_outstanding:
  assumes "queue_run q evs q'" "queue_inv q" "Reset \<notin> set evs" "Ack (b_batch_id b) True \<notin> set evs"
    "b \<in> set (outstanding q)"
  shows "b \<in> set (outstanding q')"
  using assms
proof (induction rule: queue_run.induct)
  case (run_snoc q evs q' ev q'')
  then show ?case
    using queue_step_outstanding [OF run_snoc.hyps(2) queue_run_inv [OF run_snoc.hyps(1)]] by auto
qed

lemma queue_step_capacity:
  assumes "queue_step q ev q'" "queue_inv q"
  shows "q_capacity q' = q_capacity q"
proof -
  have c: "q_capacity q = sp_capacity (abs_queue q)" for q by (simp add: abs_queue_def)
  show ?thesis
    using assms(1)
  proof (cases rule: queue_step.cases)
    case (step_enq b r)
    then have "abs_queue q' = snd (spec_enqueue (abs_queue q) b)"
      using enqueue_refines(2) [OF assms(2), of b] by simp
    then show ?thesis unfolding c by (simp add: spec_enqueue_def Let_def)
  next
    case (step_mark r)
    then have "abs_queue q' = snd (spec_mark (abs_queue q))"
      using mark_refines(2) [OF assms(2)] by simp
    then show ?thesis unfolding c by (simp add: spec_mark_def split: list.split)
  next
    case (step_ack k r)
    then have "abs_queue q' = snd (spec_acknowledge (abs_queue q) k)"
      using acknowledge_refines(2) [OF assms(2), of k] by simp
    then show ?thesis unfolding c by (simp add: spec_acknowledge_def)
  next
    case step_reset
    then show ?thesis by (simp add: reset_in_flight_def)
  qed
qed

lemma queue_run_capacity: "queue_run q evs q' \<Longrightarrow> queue_inv q \<Longrightarrow> q_capacity q' = q_capacity q"
  by (induction rule: queue_run.induct) (auto simp: queue_step_capacity queue_run_inv)

lemma queue_inv_prefix:
  assumes "queue_inv q" "i < j" "j < queue_size q" "in_flight (q_batches q ! j)"
  shows "in_flight (q_batches q ! i)"
  using assms(1)
proof (rule queue_invE)
  fix out wait
  assume q: "q_batches q = entries out wait"
  with assms(3,4) have "j < length out"
    by (auto simp: queue_size_def entries_def nth_append split: if_splits)
  with assms(2) show ?thesis by (simp add: q entries_def nth_append)
qed

lemma queue_invD:
  assumes "queue_inv q"
  shows "0 < q_capacity q" "queue_size q \<le> q_capacity q" "distinct (map entry_id (q_batches q))"
    "\<forall>e \<in> set (q_batches q). admissible (pb_batch e)"
  using assms unfolding queue_inv_def queue_size_def by blast+

lemmas queue_eval = new_queue_def default_queue_capacity_def enqueue_def mark_next_in_flight_def
  acknowledge_def reset_in_flight_def erase_at_def

section \<open>Properties\<close>

text \<open>
  C17: In every state the queue can reach from its constructor, through any sequence of operations
  of any threads, it holds at most \<open>capacity_\<close> batches (256 when constructed with 0), each valid
  and with a batch ID of its own, and the in-flight batches are older than all pending ones.
\<close>

theorem queue_reachable_invariant:
  assumes "queue_run (new_queue n) evs q"
  shows "queue_size q \<le> (if n = 0 then 256 else n) \<and> distinct (map entry_id (q_batches q)) \<and>
    (\<forall>e \<in> set (q_batches q). admissible (pb_batch e)) \<and>
    (\<forall>i j. i < j \<longrightarrow> j < queue_size q \<longrightarrow> in_flight (q_batches q ! j) \<longrightarrow> in_flight (q_batches q ! i))"
proof -
  have inv: "queue_inv q" by (rule queue_run_inv [OF assms new_queue_inv])
  have "q_capacity q = (if n = 0 then 256 else n)"
    using queue_run_capacity [OF assms new_queue_inv]
    by (simp add: new_queue_def default_queue_capacity_def)
  then have "queue_size q \<le> (if n = 0 then 256 else n)" using queue_invD(2) [OF inv] by simp
  with queue_invD(3,4) [OF inv] queue_inv_prefix [OF inv] show ?thesis by blast
qed

definition example_events :: "queue_event list" where
  "example_events =
     [Enq (example_batch ''b1'' [default_metric]) Enqueued, Mark (Some (example_batch ''b1'' [default_metric])),
      Enq (example_batch ''b2'' [default_metric]) Enqueued,
      Enq (example_batch ''b3'' [default_metric]) DroppedOldest]"

definition example_queue :: batch_queue where
  "example_queue = \<lparr>q_capacity = 2,
     q_batches = entries [example_batch ''b1'' [default_metric]] [example_batch ''b3'' [default_metric]],
     q_dropped = 1\<rparr>"

lemma example_run: "queue_run (new_queue 2) example_events example_queue"
proof -
  have 0: "queue_run (new_queue 2) [] (new_queue 2)" by (rule run_nil)
  let ?b = "\<lambda>k. example_batch k [default_metric]"
  let ?q = "\<lambda>out wait d. \<lparr>q_capacity = 2, q_batches = entries out wait, q_dropped = d\<rparr>"
  have 1: "queue_run (new_queue 2) ([] @ [Enq (?b ''b1'') Enqueued]) (?q [] [?b ''b1''] 0)"
    by (rule run_snoc [OF 0], rule step_enq) (simp add: queue_eval entries_def example_defs)
  have 2: "queue_run (new_queue 2) (([] @ [Enq (?b ''b1'') Enqueued]) @ [Mark (Some (?b ''b1''))])
      (?q [?b ''b1''] [] 0)"
    by (rule run_snoc [OF 1], rule step_mark) (simp add: queue_eval entries_def example_defs)
  have 3: "queue_run (new_queue 2) ((([] @ [Enq (?b ''b1'') Enqueued]) @ [Mark (Some (?b ''b1''))])
      @ [Enq (?b ''b2'') Enqueued]) (?q [?b ''b1''] [?b ''b2''] 0)"
    by (rule run_snoc [OF 2], rule step_enq) (simp add: queue_eval entries_def example_defs)
  have 4: "queue_run (new_queue 2) (((([] @ [Enq (?b ''b1'') Enqueued]) @ [Mark (Some (?b ''b1''))])
      @ [Enq (?b ''b2'') Enqueued]) @ [Enq (?b ''b3'') DroppedOldest]) (?q [?b ''b1''] [?b ''b3''] 1)"
    by (rule run_snoc [OF 3], rule step_enq) (simp add: queue_eval entries_def example_defs)
  show ?thesis using 4 by (simp add: example_events_def example_queue_def)
qed

lemma example_queue_inv: "queue_inv example_queue"
  by (rule queue_run_inv [OF example_run new_queue_inv])

theorem queue_reachable_invariant_witness:
  "queue_run (new_queue 2) example_events example_queue \<and> queue_size example_queue = 2 \<and>
   distinct (map entry_id (q_batches example_queue))"
  using example_run queue_reachable_invariant [OF example_run]
  by (simp add: example_queue_def queue_size_def)

text \<open>
  C11: Each operation of the queue does to its observable parts (the outstanding batches, the waiting
  batches and the drop counter) exactly what the two-list specification says, with the same result:
  rejecting invalid and duplicate batches, appending at the tail, dropping the oldest waiting batch
  when full or refusing when everything is in flight, handing out the oldest waiting batch,
  removing an acknowledged one and returning all outstanding ones to the front on a reset.
\<close>

theorem queue_refines_spec:
  assumes "queue_inv q"
  shows "spec_enqueue (abs_queue q) b = (fst (enqueue q b), abs_queue (snd (enqueue q b))) \<and>
    spec_mark (abs_queue q) = (fst (mark_next_in_flight q), abs_queue (snd (mark_next_in_flight q))) \<and>
    spec_acknowledge (abs_queue q) k = (fst (acknowledge q k), abs_queue (snd (acknowledge q k))) \<and>
    spec_reset (abs_queue q) = abs_queue (reset_in_flight q)"
  using enqueue_refines(2) mark_refines(2) acknowledge_refines(2) reset_refines(2) assms by blast

theorem queue_refines_spec_witness:
  "fst (enqueue example_queue (example_batch ''b4'' [default_metric])) = DroppedOldest \<and>
   spec_enqueue (abs_queue example_queue) (example_batch ''b4'' [default_metric]) =
     (DroppedOldest, abs_queue (snd (enqueue example_queue (example_batch ''b4'' [default_metric]))))"
proof -
  let ?b = "example_batch ''b4'' [default_metric]"
  have "fst (enqueue example_queue ?b) = DroppedOldest"
    by (simp add: queue_eval entries_def example_defs example_queue_def)
  then show ?thesis using queue_refines_spec [OF example_queue_inv, of ?b] by simp
qed

text \<open>
  C21: A batch that is in flight stays in the queue, unchanged and in flight, through any operations
  but its own acknowledgement and a reset: no overflow can drop it.
\<close>

theorem in_flight_batch_survives:
  assumes "queue_run (new_queue n) pre q" "queue_run q evs q'"
    and "Reset \<notin> set evs" "Ack (b_batch_id b) True \<notin> set evs" "b \<in> set (outstanding q)"
  shows "b \<in> set (outstanding q')"
  by (rule queue_run_outstanding [OF assms(2) queue_run_inv [OF assms(1) new_queue_inv] assms(3-5)])

theorem in_flight_batch_survives_witness:
  "\<exists>q'. queue_run example_queue [Enq (example_batch ''b4'' [default_metric]) DroppedOldest] q' \<and>
     example_batch ''b1'' [default_metric] \<in> set (outstanding q')"
proof -
  let ?b = "example_batch ''b4'' [default_metric]" and ?b1 = "example_batch ''b1'' [default_metric]"
  let ?q' = "snd (enqueue example_queue ?b)"
  have "enqueue example_queue ?b = (DroppedOldest, ?q')"
    by (simp add: queue_eval entries_def example_defs example_queue_def)
  from run_snoc [OF run_nil step_enq [OF this]]
  have run: "queue_run example_queue [Enq ?b DroppedOldest] ?q'" by simp
  have "?b1 \<in> set (outstanding example_queue)"
    by (simp add: outstanding_def example_queue_def)
  then have "?b1 \<in> set (outstanding ?q')"
    by (intro in_flight_batch_survives [OF example_run run]) simp_all
  with run show ?thesis by blast
qed

text \<open>
  The books balance over every run from an empty queue: every accepted batch is still held, was
  acknowledged, or was dropped by an overflow; and \<open>dropped_batches()\<close> counts, modulo \<open>2 ^ 64\<close>,
  the overflow drops and the rejections of a queue full of in-flight batches.
\<close>

lemma queue_accounting:
  assumes "queue_run (new_queue n) evs q"
  shows "occurrences is_accept evs = queue_size q + occurrences is_acked evs + occurrences is_evict evs \<and>
    dropped_batches q = of_nat (occurrences is_evict evs + occurrences is_reject evs)"
  using queue_run_count [OF assms new_queue_inv]
  by (simp add: new_queue_def queue_size_def dropped_batches_def)

text \<open>
  After a disconnect, resetting the queue and draining it hands out every unacknowledged batch
  exactly once with an identical payload, the ones sent before first and all in their original
  order; acknowledging a set of batch IDs afterwards leaves exactly the other batches.
\<close>

lemma reset_then_drain:
  assumes "queue_inv q"
  shows "fst (take_next mark_next_in_flight (queue_size q) (reset_in_flight q)) = outstanding q @ waiting q \<and>
    outstanding (drop_all acknowledge ks
      (snd (take_next mark_next_in_flight (queue_size q) (reset_in_flight q)))) =
      filter (\<lambda>b. b_batch_id b \<notin> set ks) (outstanding q @ waiting q)"
proof -
  have n: "length (outstanding q) + length (waiting q) \<le> queue_size q"
    using assms by (rule queue_invE) (simp add: queue_size_def)
  have inv: "queue_inv (snd (take_next mark_next_in_flight (queue_size q) (reset_in_flight q)))"
    using agent_queue.take_next_parts [OF agent_queue.inv_reset [OF assms]] by blast
  show ?thesis
    using agent_queue.resend_after_reset [OF assms n] agent_queue.drop_all_parts [OF inv] by simp
qed

end
