(* ===== verification/Batch_Builder.thy ===== *)
theory Batch_Builder
  imports Cxx_Text Memory_Store Pending_Batch_Queue
begin

unbundle bit_operations_syntax

text \<open>
  \<open>BatchBuilder\<close> (\<open>cpp/client/impl/batch_builder\<close>): validation of collected metrics and the batch
  identity client-nonce-sequence. The only state that changes is the atomic sequence counter, with
  one \<open>fetch_add\<close> per successful build, so builds of several threads are a sequence of whole
  builds (\<open>Builder_Concurrency\<close> proves it). The two numbers read from \<open>std::random_device\<close> are arguments of the constructor's model.
\<close>

section \<open>State and operations\<close>

datatype batch_build_error = EmptyClientId | EmptyMetrics | InvalidMetric

record batch_builder =
  bb_client_id :: string
  bb_session_nonce :: uint64
  bb_next_sequence :: uint64

definition make_session_nonce :: "uint32 \<Rightarrow> uint32 \<Rightarrow> uint64" where
  "make_session_nonce first second = push_bit 32 (ucast first) XOR ucast second"

definition builder_with_nonce :: "string \<Rightarrow> uint64 \<Rightarrow> batch_builder" where
  "builder_with_nonce client nonce =
     \<lparr>bb_client_id = client, bb_session_nonce = nonce, bb_next_sequence = 1\<rparr>"

definition new_builder :: "string \<Rightarrow> uint32 \<Rightarrow> uint32 \<Rightarrow> batch_builder" where
  "new_builder client first second = builder_with_nonce client (make_session_nonce first second)"

definition next_batch_id :: "batch_builder \<Rightarrow> string \<times> batch_builder" where
  "next_batch_id b =
     (bb_client_id b @ ''-'' @ hex16_string (bb_session_nonce b) @ ''-'' @
        dec_string (unat (bb_next_sequence b)),
      b\<lparr>bb_next_sequence := bb_next_sequence b + 1\<rparr>)"

definition build :: "batch_builder \<Rightarrow> metric list \<Rightarrow> (batch_build_error + metric_batch) \<times> batch_builder" where
  "build b metrics =
     (if bb_client_id b = [] then (Inl EmptyClientId, b)
      else if metrics = [] then (Inl EmptyMetrics, b)
      else if \<exists>m \<in> set metrics. m_name m = [] \<or> \<not> isfinite (m_value m) then (Inl InvalidMetric, b)
      else (case next_batch_id b of (batch_id, b') \<Rightarrow>
        (Inr \<lparr>b_client_id = bb_client_id b, b_metrics = metrics, b_batch_id = batch_id\<rparr>, b')))"

section \<open>Batch identities\<close>

lemma batch_id_inject:
  "c @ ''-'' @ hex16_string v @ ''-'' @ dec_string m = d @ ''-'' @ hex16_string w @ ''-'' @ dec_string n \<longleftrightarrow>
     c = d \<and> v = w \<and> m = n"
proof -
  have "c @ ''-'' @ hex16_string v @ ''-'' @ dec_string m = d @ ''-'' @ hex16_string w @ ''-'' @ dec_string n
      \<longleftrightarrow> (c @ ''-'' @ hex16_string v) @ CHR ''-'' # dec_string m
          = (d @ ''-'' @ hex16_string w) @ CHR ''-'' # dec_string n" by simp
  also have "\<dots> \<longleftrightarrow> c @ ''-'' @ hex16_string v = d @ ''-'' @ hex16_string w \<and> m = n"
    by (rule dec_field.last_field_inject) simp_all
  also have "c @ ''-'' @ hex16_string v = d @ ''-'' @ hex16_string w \<longleftrightarrow> c = d \<and> v = w"
    by (subst append_eq_append_conv) auto
  finally show ?thesis by blast
qed

text \<open>The builds of one builder, in the order of their \<open>fetch_add\<close>.\<close>

fun build_all :: "batch_builder \<Rightarrow> metric list list \<Rightarrow> (batch_build_error + metric_batch) list \<times> batch_builder" where
  "build_all b [] = ([], b)"
| "build_all b (ms # mss) =
     (case build b ms of (r, b') \<Rightarrow> (case build_all b' mss of (rs, b'') \<Rightarrow> (r # rs, b'')))"

fun successes :: "('e + 'a) list \<Rightarrow> 'a list" where
  "successes [] = []"
| "successes (Inl e # rs) = successes rs"
| "successes (Inr v # rs) = v # successes rs"

definition batch_id_of :: "batch_builder \<Rightarrow> nat \<Rightarrow> string" where
  "batch_id_of b k = bb_client_id b @ ''-'' @ hex16_string (bb_session_nonce b) @ ''-'' @
     dec_string (unat (bb_next_sequence b + of_nat k))"

lemma build_cases:
  obtains (failed) e where "build b ms = (Inl e, b)"
      "e = (if bb_client_id b = [] then EmptyClientId else if ms = [] then EmptyMetrics else InvalidMetric)"
      "bb_client_id b = [] \<or> ms = [] \<or> (\<exists>m \<in> set ms. m_name m = [] \<or> \<not> isfinite (m_value m))"
  | (built) "build b ms = (Inr \<lparr>b_client_id = bb_client_id b, b_metrics = ms, b_batch_id = batch_id_of b 0\<rparr>,
        b\<lparr>bb_next_sequence := bb_next_sequence b + 1\<rparr>)"
      "bb_client_id b \<noteq> []" "ms \<noteq> []" "\<forall>m \<in> set ms. m_name m \<noteq> [] \<and> isfinite (m_value m)"
proof (cases "bb_client_id b = [] \<or> ms = [] \<or> (\<exists>m \<in> set ms. m_name m = [] \<or> \<not> isfinite (m_value m))")
  case True
  then have "build b ms = (Inl (if bb_client_id b = [] then EmptyClientId else if ms = [] then EmptyMetrics
      else InvalidMetric), b)" by (auto simp: build_def)
  from failed [OF this refl True] show thesis .
next
  case False
  then show thesis by (intro built) (auto simp: build_def next_batch_id_def batch_id_of_def)
qed

lemma batch_id_of_advance: "batch_id_of (b\<lparr>bb_next_sequence := bb_next_sequence b + 1\<rparr>) k = batch_id_of b (Suc k)"
  by (simp add: batch_id_of_def add_ac)

text \<open>The IDs of a run number the successful builds consecutively; failures take no number.\<close>

lemma build_all_ids:
  assumes "build_all b mss = (rs, b')"
  shows "map b_batch_id (successes rs) = map (batch_id_of b) [0..<length (successes rs)] \<and>
    bb_next_sequence b' = bb_next_sequence b + of_nat (length (successes rs)) \<and>
    bb_client_id b' = bb_client_id b \<and> bb_session_nonce b' = bb_session_nonce b"
  using assms
proof (induction mss arbitrary: b rs)
  case (Cons ms mss)
  obtain r b1 where s: "build b ms = (r, b1)" by fastforce
  obtain rs1 where run: "build_all b1 mss = (rs1, b')" and rs: "rs = r # rs1"
    using Cons.prems s by (auto split: prod.splits)
  note IH = Cons.IH [OF run]
  show ?case
  proof (cases rule: build_cases [of b ms])
    case (failed e)
    have "(Inl e, b) = (r, b1)" unfolding failed(1) [symmetric] by (rule s)
    then have "r = Inl e" "b1 = b" by blast+
    with IH rs show ?thesis by simp
  next
    case built
    then have b1: "b1 = b\<lparr>bb_next_sequence := bb_next_sequence b + 1\<rparr>"
      and r: "r = Inr \<lparr>b_client_id = bb_client_id b, b_metrics = ms, b_batch_id = batch_id_of b 0\<rparr>"
      using s by simp_all
    have "map (batch_id_of b1) [0..<n] = map (batch_id_of b) (map Suc [0..<n])" for n
      unfolding b1 by (simp add: batch_id_of_advance)
    then have shift: "batch_id_of b 0 # map (batch_id_of b1) [0..<n] = map (batch_id_of b) [0..<Suc n]" for n
      by (simp add: map_Suc_upt upt_conv_Cons del: upt_Suc)
    show ?thesis using IH shift unfolding r rs by (simp add: b1 del: upt_Suc)
  qed
qed simp

lemma sequence_inj: "i < 2 ^ 64 \<Longrightarrow> j < 2 ^ 64 \<Longrightarrow> unat (s + of_nat i :: uint64) = unat (s + of_nat j) \<Longrightarrow> i = j"
proof -
  assume ij: "i < 2 ^ 64" "j < 2 ^ 64" and "unat (s + of_nat i :: uint64) = unat (s + of_nat j)"
  then have "s + of_nat i = s + of_nat j" using unsigned_word_eqI by blast
  then have "(of_nat i :: uint64) = of_nat j" by simp
  then have "unat (of_nat i :: uint64) = unat (of_nat j :: uint64)" by simp
  with ij show "i = j" by (simp add: unat_of_nat take_bit_nat_eq_self)
qed

lemma batch_id_of_inject: "i < 2 ^ 64 \<Longrightarrow> j < 2 ^ 64 \<Longrightarrow> batch_id_of b i = batch_id_of b j \<longleftrightarrow> i = j"
  unfolding batch_id_of_def batch_id_inject using sequence_inj by blast

lemma batch_ids_inj: "\<forall>k \<in> K. k < 2 ^ 64 \<Longrightarrow> inj_on (batch_id_of b) K"
  by (auto simp: inj_on_def batch_id_of_inject)

lemma build_result:
  assumes "build b ms = (Inr batch, b')"
  shows "b_batch_id batch = batch_id_of b 0" "admissible batch" "validate_batch batch = None"
    "b' = b\<lparr>bb_next_sequence := bb_next_sequence b + 1\<rparr>"
  using assms by (cases rule: build_cases [of b ms]; auto simp: admissible_def validate_batch_None batch_id_of_def)+

section \<open>Properties\<close>

text \<open>
  C19: Batch IDs are unique. Two IDs are equal only for the same client, session nonce and sequence number,
  whatever characters the client ID contains; and any run of fewer than \<open>2 ^ 64\<close> successful builds
  of one builder, among any number of failing ones, gives pairwise different IDs.
\<close>

theorem batch_ids_unique:
  assumes "build_all b mss = (rs, b')" "length (successes rs) \<le> 2 ^ 64"
  shows "distinct (map b_batch_id (successes rs)) \<and>
    (\<forall>x y. fst (next_batch_id x) = fst (next_batch_id y) \<longleftrightarrow>
       bb_client_id x = bb_client_id y \<and> bb_session_nonce x = bb_session_nonce y \<and>
       bb_next_sequence x = bb_next_sequence y)"
proof
  have "inj_on (batch_id_of b) {0..<length (successes rs)}" using assms(2) by (intro batch_ids_inj) auto
  then show "distinct (map b_batch_id (successes rs))"
    using build_all_ids [OF assms(1)] by (simp add: distinct_map)
  show "\<forall>x y. fst (next_batch_id x) = fst (next_batch_id y) \<longleftrightarrow>
       bb_client_id x = bb_client_id y \<and> bb_session_nonce x = bb_session_nonce y \<and>
       bb_next_sequence x = bb_next_sequence y"
    unfolding next_batch_id_def fst_conv batch_id_inject by (auto intro: unsigned_word_eqI)
qed

theorem batch_ids_unique_witness:
  "\<exists>rs b'. build_all (builder_with_nonce ''agent'' 7) [[example_metric ''cpu'' 3 20], [], [example_metric ''cpu'' 4 30]]
       = (rs, b') \<and> length (successes rs) = 2 \<and> distinct (map b_batch_id (successes rs))"
proof -
  let ?mss = "[[example_metric ''cpu'' 3 20], [], [example_metric ''cpu'' 4 30]]"
  obtain rs b' where r: "build_all (builder_with_nonce ''agent'' 7) ?mss = (rs, b')" by fastforce
  then have "length (successes rs) = 2"
    by (auto simp: build_def builder_with_nonce_def example_defs next_batch_id_def)
  with r batch_ids_unique [OF r] show ?thesis by simp
qed

text \<open>
  What a build returns. It fails, changing nothing, exactly when the client ID is empty, there are no metrics,
  or some metric is nameless or not finite, reported in this order; otherwise the batch carries the
  builder's client, exactly the given metrics and the next ID, the counter advances by one, and the
  batch passes the admission checks of both the pending queue and the store.
\<close>

lemma build_outcome:
  "case build b ms of
     (Inl e, b') \<Rightarrow> b' = b \<and>
       e = (if bb_client_id b = [] then EmptyClientId else if ms = [] then EmptyMetrics else InvalidMetric) \<and>
       (bb_client_id b = [] \<or> ms = [] \<or> (\<exists>m \<in> set ms. m_name m = [] \<or> \<not> isfinite (m_value m)))
   | (Inr batch, b') \<Rightarrow> b_client_id batch = bb_client_id b \<and> b_metrics batch = ms \<and>
       b_batch_id batch = fst (next_batch_id b) \<and>
       b' = b\<lparr>bb_next_sequence := bb_next_sequence b + 1\<rparr> \<and>
       validate_batch batch = None \<and> admissible batch"
  by (cases rule: build_cases [of b ms])
    (auto simp: next_batch_id_def batch_id_of_def validate_batch_None admissible_def)

text \<open>
  The session nonce keeps all 64 random bits: the two 32-bit numbers read from the random device can both be
  read back from it, so different readings give different sessions.
\<close>

lemma session_nonce_keeps_bits:
  "ucast (drop_bit 32 (make_session_nonce first second)) = first \<and>
   ucast (make_session_nonce first second) = second"
proof
  have high: "\<not> bit second (32 + n)" for n using bit_imp_le_length [of second "32 + n"] by auto
  show "ucast (drop_bit 32 (make_session_nonce first second)) = first"
    by (rule bit_word_eqI) (simp add: make_session_nonce_def bit_simps high)
  show "ucast (make_session_nonce first second) = second"
    by (rule bit_word_eqI) (simp add: make_session_nonce_def bit_simps)
qed

end
