(* ===== verification/Delivery.thy ===== *)
theory Delivery
  imports Event_Stream Batch_Builder
begin

text \<open>
  The retry queue of the agent and the store of the aggregator together. The repository has no sender yet; what any
  sender can do with the two is a sequence of rounds: after a disconnect it resets the queue, sends every
  unacknowledged batch in order, and gets back some of the acknowledgements. The locale joins the
  contract of the queue and the contract of the store, and what follows from both is proved once.
\<close>

section \<open>Rounds of delivery\<close>

text \<open>Each round is given by the acknowledgements that arrive; the others are lost.\<close>

fun delivery_rounds :: "('q \<Rightarrow> 'b option \<times> 'q) \<Rightarrow> ('q \<Rightarrow> 'q) \<Rightarrow> ('q \<Rightarrow> 'k \<Rightarrow> bool \<times> 'q)
    \<Rightarrow> ('st \<Rightarrow> 'b \<Rightarrow> ('e + batch_commit_outcome) \<times> 'st) \<Rightarrow> nat \<Rightarrow> 'k list list \<Rightarrow> 'q \<Rightarrow> 'st \<Rightarrow> 'q \<times> 'st" where
  "delivery_rounds next_batch reset drop_key commit n [] q st = (q, st)"
| "delivery_rounds next_batch reset drop_key commit n (ks # kss) q st =
     (case take_next next_batch n (reset q) of (bs, q') \<Rightarrow>
        delivery_rounds next_batch reset drop_key commit n kss
          (drop_all drop_key ks q') (snd (commit_all commit bs st)))"

locale delivery = keyed_retry_source next_batch reset pend sent inv drop_key key +
    sink: batch_store commit key keys invalid store_inv
  for next_batch :: "'q \<Rightarrow> 'b option \<times> 'q" and reset :: "'q \<Rightarrow> 'q"
    and pend :: "'q \<Rightarrow> 'b list" and sent :: "'q \<Rightarrow> 'b list" and inv :: "'q \<Rightarrow> bool"
    and drop_key :: "'q \<Rightarrow> 'k \<Rightarrow> bool \<times> 'q" and key :: "'b \<Rightarrow> 'k"
    and commit :: "'st \<Rightarrow> 'b \<Rightarrow> ('e + batch_commit_outcome) \<times> 'st" and keys :: "'st \<Rightarrow> 'k set"
    and invalid :: "'b \<Rightarrow> bool" and store_inv :: "'st \<Rightarrow> bool"
begin

lemma commit_all_known:
  assumes "store_inv st" "\<forall>b \<in> set bs. key b \<in> keys st"
  shows "snd (commit_all commit bs st) = st"
  using assms(2)
proof (induction bs)
  case (Cons b bs)
  have "snd (commit st b) = st"
  proof (cases "invalid b")
    case True
    then show ?thesis using sink.commit_invalid [OF assms(1), of b] by auto
  next
    case False
    then show ?thesis using sink.commit_duplicate [OF assms(1) False] Cons.prems by simp
  qed
  with Cons show ?case by (auto split: prod.split)
qed simp

lemma commit_all_accepted:
  assumes "store_inv st" "commit_all commit bs st = (rs, st')" "\<forall>r \<in> set rs. has_value r"
  shows "keys st' = keys st \<union> key ` set bs"
  using assms
proof (induction bs arbitrary: st rs)
  case (Cons b bs)
  obtain r st1 rs1 where c: "commit st b = (r, st1)" "commit_all commit bs st1 = (rs1, st')" "rs = r # rs1"
    using Cons.prems(2) by (auto split: prod.splits)
  have inv: "store_inv st1" using sink.inv_commit [OF Cons.prems(1), of b] c(1) by simp
  obtain out where r: "r = Inr out" using Cons.prems(3) c(3) by (auto simp: has_value_iff)
  have "keys st1 = insert (key b) (keys st)"
  proof (cases out)
    case Committed
    then show ?thesis using sink.commit_new [OF Cons.prems(1), of b st1] c(1) r by simp
  next
    case Duplicate
    then show ?thesis using sink.commit_repeat [OF Cons.prems(1), of b st1] c(1) r by auto
  qed
  moreover have "keys st' = keys st1 \<union> key ` set bs" using Cons.IH [OF inv c(2)] Cons.prems(3) c(3) by simp
  ultimately show ?case by auto
qed simp

text \<open>One round on the queue: everything unacknowledged is sent, and what is acknowledged goes.\<close>

lemma round_parts:
  assumes "inv q" "length (sent q @ pend q) \<le> n" "take_next next_batch n (reset q) = (bs, q1)"
  shows "bs = sent q @ pend q" "inv (drop_all drop_key ks q1)"
    "sent (drop_all drop_key ks q1) @ pend (drop_all drop_key ks q1) = filter (\<lambda>b. key b \<notin> set ks) (sent q @ pend q)"
    "length (sent (drop_all drop_key ks q1) @ pend (drop_all drop_key ks q1)) \<le> n"
proof -
  have parts: "bs = sent q @ pend q" "pend q1 = []" "sent q1 = sent q @ pend q"
    using resend_after_reset [OF assms(1), of n] assms(2,3) by simp_all
  have "inv q1" using take_next_parts [OF inv_reset [OF assms(1)], of n] assms(3) by simp
  note d = drop_all_parts [OF this, of ks]
  show "bs = sent q @ pend q" "inv (drop_all drop_key ks q1)" by (fact parts(1) d(1))+
  show e: "sent (drop_all drop_key ks q1) @ pend (drop_all drop_key ks q1) = filter (\<lambda>b. key b \<notin> set ks) (sent q @ pend q)"
    unfolding d(2,3) parts by simp
  show "length (sent (drop_all drop_key ks q1) @ pend (drop_all drop_key ks q1)) \<le> n"
    unfolding e using length_filter_le assms(2) by (rule le_trans)
qed

text \<open>Rounds over a queue whose batches the store knows: the store stays, the queue loses what is acknowledged.\<close>

lemma rounds_known:
  assumes "inv q" "store_inv st" "length (sent q @ pend q) \<le> n"
    "\<forall>b \<in> set (sent q @ pend q). key b \<in> keys st" "delivery_rounds next_batch reset drop_key commit n kss q st = (q', st')"
  shows "inv q' \<and> st' = st \<and> sent q' @ pend q' = filter (\<lambda>b. key b \<notin> set (concat kss)) (sent q @ pend q)"
  using assms
proof (induction kss arbitrary: q)
  case Nil
  then show ?case by simp
next
  case (Cons ks kss)
  obtain bs q1 where t: "take_next next_batch n (reset q) = (bs, q1)" by fastforce
  note r1 = round_parts(1) [OF Cons.prems(1,3) t] and r = round_parts(2-4) [OF Cons.prems(1,3) t, of ks]
  have "\<forall>b \<in> set (sent (drop_all drop_key ks q1) @ pend (drop_all drop_key ks q1)). key b \<in> keys st"
    unfolding r(2) using Cons.prems(4) by auto
  moreover have "delivery_rounds next_batch reset drop_key commit n kss (drop_all drop_key ks q1) st = (q', st')"
    using Cons.prems(5) commit_all_known [OF Cons.prems(2,4)] by (simp add: t r1)
  ultimately have "inv q' \<and> st' = st \<and> sent q' @ pend q' =
      filter (\<lambda>b. key b \<notin> set (concat kss)) (filter (\<lambda>b. key b \<notin> set ks) (sent q @ pend q))"
    unfolding r(2) [symmetric] by (intro Cons.IH r Cons.prems(2))
  then show ?case by (simp add: conj_commute)
qed

text \<open>Exactly once: one round that the store accepts, then any rounds with any acknowledgements.\<close>

lemma rounds_once:
  assumes "inv q" "store_inv st" "length (sent q @ pend q) \<le> n"
    "commit_all commit (sent q @ pend q) st = (rs, st1)" "\<forall>r \<in> set rs. has_value r"
    "delivery_rounds next_batch reset drop_key commit n (ks # kss) q st = (q', st')"
  shows "inv q' \<and> st' = st1 \<and> keys st' = keys st \<union> key ` set (sent q @ pend q) \<and>
    sent q' @ pend q' = filter (\<lambda>b. key b \<notin> set (concat (ks # kss))) (sent q @ pend q)"
proof -
  obtain bs q1 where t: "take_next next_batch n (reset q) = (bs, q1)" by fastforce
  note r1 = round_parts(1) [OF assms(1,3) t] and r = round_parts(2-4) [OF assms(1,3) t, of ks]
  have k: "keys st1 = keys st \<union> key ` set (sent q @ pend q)" by (rule commit_all_accepted [OF assms(2,4,5)])
  have inv1: "store_inv st1" using sink.commit_all_inv [OF assms(2), of "sent q @ pend q"] assms(4) by simp
  have "\<forall>b \<in> set (sent (drop_all drop_key ks q1) @ pend (drop_all drop_key ks q1)). key b \<in> keys st1"
    unfolding r(2) k by auto
  moreover have "delivery_rounds next_batch reset drop_key commit n kss (drop_all drop_key ks q1) st1 = (q', st')"
    using assms(4,6) by (simp add: t r1)
  ultimately have "inv q' \<and> st' = st1 \<and> sent q' @ pend q' =
      filter (\<lambda>b. key b \<notin> set (concat kss)) (filter (\<lambda>b. key b \<notin> set ks) (sent q @ pend q))"
    unfolding r(2) [symmetric] by (intro rounds_known [where n = n] r inv1)
  with k show ?thesis by (simp add: conj_commute)
qed

end

interpretation agent_delivery: delivery mark_next_in_flight reset_in_flight waiting outstanding queue_inv
  acknowledge b_batch_id commit_batch committed_batch_ids "\<lambda>b. validate_batch b \<noteq> None" store_ok
  by unfold_locales

section \<open>Properties\<close>

text \<open>
  C5: Delivery is exactly once. From any reachable queue and store, when the store accepts the batches of the
  queue in the first round, then whatever acknowledgements are lost, and however many rounds of reset and
  resending follow, the store ends as if every batch had been committed once, and the queue
  holds exactly the batches whose acknowledgement never arrived; with all of them it is empty.
\<close>

theorem delivery_exactly_once:
  assumes "queue_run (new_queue cap) evs q" "commit_all commit_batch old (new_store capacity) = (rs0, st)"
    "commit_all commit_batch (outstanding q @ waiting q) st = (rs, st1)" "\<forall>r \<in> set rs. has_value r"
    "delivery_rounds mark_next_in_flight reset_in_flight acknowledge commit_batch (queue_size q) (ks # kss) q st = (q', st')"
  shows "st' = st1 \<and> committed_batch_ids st' = committed_batch_ids st \<union> b_batch_id ` set (outstanding q @ waiting q) \<and>
    outstanding q' @ waiting q' =
      filter (\<lambda>b. b_batch_id b \<notin> set (concat (ks # kss))) (outstanding q @ waiting q) \<and>
    (b_batch_id ` set (outstanding q @ waiting q) \<subseteq> set (concat (ks # kss)) \<longrightarrow> queue_size q' = 0)"
proof -
  have inv: "queue_inv q" by (rule queue_run_inv [OF assms(1) new_queue_inv])
  have size: "length (outstanding q @ waiting q) = queue_size q" if "queue_inv q" for q
    using that by (rule queue_invE) (simp add: queue_size_def)
  have ok: "store_ok st" using memory_store.commit_all_inv [OF store_ok_new, of old capacity] assms(2) by simp
  have "length (outstanding q @ waiting q) \<le> queue_size q" unfolding size [OF inv] by simp
  from agent_delivery.rounds_once [OF inv ok this assms(3-5)]
  have r: "queue_inv q'" "st' = st1"
    "committed_batch_ids st' = committed_batch_ids st \<union> b_batch_id ` set (outstanding q @ waiting q)"
    "outstanding q' @ waiting q' = filter (\<lambda>b. b_batch_id b \<notin> set (concat (ks # kss))) (outstanding q @ waiting q)"
    by blast+
  have "queue_size q' = 0" if "b_batch_id ` set (outstanding q @ waiting q) \<subseteq> set (concat (ks # kss))"
  proof -
    have "outstanding q' @ waiting q' = []" unfolding r(4) filter_empty_conv using that by blast
    then show ?thesis using size [OF r(1)] by simp
  qed
  with r show ?thesis by blast
qed

definition delivery_queue :: batch_queue where
  "delivery_queue = \<lparr>q_capacity = 2, q_batches = entries []
     [example_batch ''b1'' [example_metric ''cpu'' 3 20], example_batch ''b2'' [example_metric ''cpu'' 4 30]], q_dropped = 0\<rparr>"

lemma delivery_queue_run: "\<exists>evs. queue_run (new_queue 2) evs delivery_queue"
proof -
  let ?b1 = "example_batch ''b1'' [example_metric ''cpu'' 3 20]" and ?b2 = "example_batch ''b2'' [example_metric ''cpu'' 4 30]"
  have "queue_run (new_queue 2) ([] @ [Enq ?b1 Enqueued]) \<lparr>q_capacity = 2, q_batches = entries [] [?b1], q_dropped = 0\<rparr>"
    by (rule run_snoc [OF run_nil], rule step_enq) (simp add: queue_eval entries_def example_defs)
  from run_snoc [OF this step_enq, of ?b2 Enqueued delivery_queue] show ?thesis
    by (auto simp: queue_eval entries_def example_defs delivery_queue_def)
qed

theorem delivery_exactly_once_witness:
  "\<exists>q' st'. delivery_rounds mark_next_in_flight reset_in_flight acknowledge commit_batch 2
      [[''b1''], [], [''b2'']] delivery_queue (new_store 5) = (q', st') \<and>
    committed_batch_ids st' = {''b1'', ''b2''} \<and> queue_size q' = 0"
proof -
  obtain evs where run: "queue_run (new_queue 2) evs delivery_queue" using delivery_queue_run by blast
  have parts: "outstanding delivery_queue = []" "queue_size delivery_queue = 2"
    "waiting delivery_queue = [example_batch ''b1'' [example_metric ''cpu'' 3 20], example_batch ''b2'' [example_metric ''cpu'' 4 30]]"
    by (simp_all add: delivery_queue_def outstanding_def waiting_def queue_size_def)
  have none: "commit_all commit_batch [] (new_store 5) = ([], new_store 5)" by simp
  obtain rs st1 where c: "commit_all commit_batch (outstanding delivery_queue @ waiting delivery_queue) (new_store 5) = (rs, st1)"
    by fastforce
  then have ok: "\<forall>r \<in> set rs. has_value r" unfolding parts
    by (auto simp: store_eval example_defs int64_max_def Let_def split: prod.splits)
  obtain q' st' where d: "delivery_rounds mark_next_in_flight reset_in_flight acknowledge commit_batch
      (queue_size delivery_queue) [[''b1''], [], [''b2'']] delivery_queue (new_store 5) = (q', st')" by fastforce
  from delivery_exactly_once [OF run none c ok d] d show ?thesis
    unfolding parts by (auto simp: example_batch_def new_store_def)
qed

end
