(* ===== verification/Metric_Collector.thy ===== *)
theory Metric_Collector
  imports Batch_Builder
begin

text \<open>
  \<open>IMetricCollector\<close> (\<open>cpp/client/i_metric_collector.h\<close>): the error type of the collectors, the
  sampling time and the contract as a locale. What the Agent may conclude from the contract alone is
  proved here: what a collector returns always makes a batch that the queue and the store admit.
\<close>

section \<open>Errors and time\<close>

datatype metric_collection_error_code = ReadFailed | MalformedSource | InvalidCounterDelta

record metric_collection_error =
  mc_code :: metric_collection_error_code
  mc_operation :: string
  mc_source :: string
  mc_retryable :: bool

definition collection_error :: "metric_collection_error_code \<Rightarrow> string \<Rightarrow> string \<Rightarrow> bool \<Rightarrow> metric_collection_error" where
  "collection_error c operation src retryable =
     \<lparr>mc_code = c, mc_operation = operation, mc_source = src, mc_retryable = retryable\<rparr>"

text \<open>
  A \<open>system_clock::time_point\<close> counts nanoseconds; \<open>duration_cast\<close> to milliseconds truncates
  toward zero.
\<close>

definition to_milliseconds :: "int \<Rightarrow> int" where
  "to_milliseconds ns = (if ns < 0 then - (- ns div 1000000) else ns div 1000000)"

section \<open>The contract\<close>

locale metric_collector =
  fixes collect :: "'c \<Rightarrow> int \<Rightarrow> (metric_collection_error + metric list) \<times> 'c"
  assumes collect_not_empty: "collect c t = (Inr ms, c') \<Longrightarrow> ms \<noteq> []"
    and collect_named: "collect c t = (Inr ms, c') \<Longrightarrow> m \<in> set ms \<Longrightarrow> m_name m \<noteq> []"
    and collect_finite: "collect c t = (Inr ms, c') \<Longrightarrow> m \<in> set ms \<Longrightarrow> isfinite (m_value m)"
    and collect_stamped: "collect c t = (Inr ms, c') \<Longrightarrow> m \<in> set ms \<Longrightarrow>
      m_timestamp_ms m = to_milliseconds t"
begin

text \<open>A builder with a client ID never refuses what a collector returns.\<close>

lemma collected_batch:
  assumes "collect c t = (Inr ms, c')" "bb_client_id b \<noteq> []"
  shows "build b ms = (Inr \<lparr>b_client_id = bb_client_id b, b_metrics = ms, b_batch_id = batch_id_of b 0\<rparr>,
    b\<lparr>bb_next_sequence := bb_next_sequence b + 1\<rparr>)"
proof (cases rule: build_cases [of b ms])
  case (failed e)
  with assms(2) collect_not_empty [OF assms(1)] collect_named [OF assms(1)] collect_finite [OF assms(1)]
  show ?thesis by blast
qed

lemma collected_batch_admitted:
  assumes "collect c t = (Inr ms, c')" "build b ms = (Inr batch, b')"
  shows "admissible batch \<and> validate_batch batch = None"
  using assms(2)
  by (cases rule: build_cases [of b ms]) (auto simp: admissible_def validate_batch_None batch_id_of_def)

end

end
