(* ===== verification/Proc_Collector.thy ===== *)
theory Proc_Collector
  imports Metric_Collector
begin

text \<open>
  \<open>ProcMetricCollector\<close> (\<open>cpp/client/impl/proc_metric_collector\<close>): the parsers of \<open>/proc/stat\<close> and
  \<open>/proc/meminfo\<close> over the stream model, and \<open>collect\<close> with its CPU baseline. The source reader is
  a parameter, a function of the source name and of the state of the outside world; the default reader,
  \<open>read_source\<close>, is modelled over a file system that is a parameter in turn.
\<close>

section \<open>State\<close>

record cpu_counters =
  cpu_total :: uint64
  cpu_idle :: uint64

record proc_collector =
  stat_source :: string
  meminfo_source :: string
  previous_cpu_counters :: "cpu_counters option"

definition proc_collector_with :: "string \<Rightarrow> string \<Rightarrow> proc_collector" where
  "proc_collector_with stat meminfo =
     \<lparr>stat_source = stat, meminfo_source = meminfo, previous_cpu_counters = None\<rparr>"

definition default_stat_source :: string where
  [simp]: "default_stat_source = ''/proc/stat''"

definition default_meminfo_source :: string where
  [simp]: "default_meminfo_source = ''/proc/meminfo''"

definition new_proc_collector :: proc_collector where
  "new_proc_collector = proc_collector_with default_stat_source default_meminfo_source"

definition make_metric :: "string \<Rightarrow> f64 \<Rightarrow> int \<Rightarrow> metric" where
  "make_metric name v timestamp_ms = default_metric\<lparr>m_name := name, m_value := v, m_timestamp_ms := timestamp_ms\<rparr>"

section \<open>Reading a source\<close>

text \<open>
  The default reader. The file system is a parameter: opening a file for input succeeds with all that can be
  read from it, or fails.
\<close>

definition read_source :: "('w \<Rightarrow> string \<Rightarrow> string option \<times> 'w) \<Rightarrow> 'w \<Rightarrow> string
    \<Rightarrow> (metric_collection_error + string) \<times> 'w" where
  "read_source open_file w source =
     (case open_file w source of
        (None, w') \<Rightarrow> (Inl (collection_error ReadFailed ''open_metric_source'' source True), w')
      | (Some contents, w') \<Rightarrow> (Inr contents, w'))"

section \<open>Parsing the CPU counters\<close>

text \<open>
  The extraction loop: it stops after the last array element or at the first failing extraction,
  which has stored its replacement value in the array by then.
\<close>

function read_fields :: "istream \<Rightarrow> uint64 list \<Rightarrow> nat \<Rightarrow> uint64 list \<times> nat" where
  "read_fields input slots field_count =
     (if field_count < length slots then
        (case extract_u64 input (slots ! field_count) of (v, input') \<Rightarrow>
           if failbit input' then (slots[field_count := v], field_count)
           else read_fields input' (slots[field_count := v]) (Suc field_count))
      else (slots, field_count))"
  by pat_completeness auto
termination
  by (relation "measure (\<lambda>(input, slots, k). length slots - k)") auto

declare read_fields.simps [simp del]

fun sum_fields :: "uint64 list \<Rightarrow> uint64 \<Rightarrow> uint64 option" where
  "sum_fields [] acc = Some acc"
| "sum_fields (f # fs) acc = (if f > uint64_max - acc then None else sum_fields fs (acc + f))"

definition parse_cpu_counters :: "string \<Rightarrow> string \<Rightarrow> metric_collection_error + cpu_counters" where
  "parse_cpu_counters contents source =
     (let malformed = collection_error MalformedSource ''parse_cpu_counters'' source False
      in case extract_string (open_stream contents) [] of (cpu_label, input) \<Rightarrow>
         if cpu_label \<noteq> ''cpu'' then Inl malformed
         else case read_fields input (replicate 8 0) 0 of (slots, field_count) \<Rightarrow>
           if field_count < 4 then Inl malformed
           else case sum_fields (take field_count slots) 0 of
             None \<Rightarrow> Inl malformed
           | Some sum_total \<Rightarrow>
               if slots ! 4 > uint64_max - slots ! 3 then Inl malformed
               else Inr \<lparr>cpu_total = sum_total, cpu_idle = slots ! 3 + slots ! 4\<rparr>)"

section \<open>Parsing the memory counters\<close>

definition mem_total_key :: string where "mem_total_key = ''MemTotal:''"

definition mem_available_key :: string where "mem_available_key = ''MemAvailable:''"

text \<open>One line: \<open>None\<close> for a malformed one, else the two counters after it.\<close>

definition memory_line :: "string \<Rightarrow> uint64 option \<times> uint64 option \<Rightarrow> (uint64 option \<times> uint64 option) option" where
  "memory_line line acc =
     (case extract_string (open_stream line) [] of (key, line_input) \<Rightarrow>
        if key \<noteq> mem_total_key \<and> key \<noteq> mem_available_key then Some acc
        else case extract_u64 line_input 0 of (v, line_input') \<Rightarrow>
          (case extract_string line_input' [] of (unit, line_input'') \<Rightarrow>
             if failbit line_input'' \<or> unit \<noteq> ''kB'' then None
             else if key = mem_total_key then Some (Some v, snd acc)
             else Some (fst acc, Some v)))"

fun memory_lines :: "string list \<Rightarrow> uint64 option \<times> uint64 option \<Rightarrow> (uint64 option \<times> uint64 option) option" where
  "memory_lines [] acc = Some acc"
| "memory_lines (line # lines) acc =
     (case memory_line line acc of None \<Rightarrow> None | Some acc' \<Rightarrow> memory_lines lines acc')"

definition bytes_per_kilobyte :: uint64 where "bytes_per_kilobyte = 1024"

definition percentage :: "uint64 \<Rightarrow> uint64 \<Rightarrow> f64" where
  "percentage part whole =
     f64_div (f64_mul (f64_of_nat 100) (f64_of_nat (unat part))) (f64_of_nat (unat whole))"

definition memory_metrics :: "uint64 \<Rightarrow> uint64 \<Rightarrow> int \<Rightarrow> metric list" where
  "memory_metrics total_kb available_kb timestamp_ms =
     (let total_bytes = total_kb * bytes_per_kilobyte;
          available_bytes = available_kb * bytes_per_kilobyte;
          used_bytes = total_bytes - available_bytes
      in [make_metric ''memory_used_bytes'' (f64_of_nat (unat used_bytes)) timestamp_ms,
          make_metric ''memory_available_bytes'' (f64_of_nat (unat available_bytes)) timestamp_ms,
          make_metric ''memory_usage_percent'' (percentage used_bytes total_bytes) timestamp_ms])"

definition parse_memory_metrics :: "string \<Rightarrow> string \<Rightarrow> int \<Rightarrow> metric_collection_error + metric list" where
  "parse_memory_metrics contents source timestamp_ms =
     (let malformed = collection_error MalformedSource ''parse_memory_metrics'' source False
      in case memory_lines (getline_loop (open_stream contents) []) (None, None) of
           Some (Some total_kb, Some available_kb) \<Rightarrow>
             if total_kb = 0 \<or> available_kb > total_kb \<or> total_kb > uint64_max div bytes_per_kilobyte
             then Inl malformed
             else Inr (memory_metrics total_kb available_kb timestamp_ms)
         | _ \<Rightarrow> Inl malformed)"

section \<open>Collecting\<close>

text \<open>The second half of \<open>collect\<close>: the baseline advances, and the deltas are checked and converted.\<close>

definition update_cpu :: "proc_collector \<Rightarrow> cpu_counters \<Rightarrow> metric list \<Rightarrow> int
    \<Rightarrow> (metric_collection_error + metric list) \<times> proc_collector" where
  "update_cpu c current_cpu metrics timestamp_ms =
     (let c' = c\<lparr>previous_cpu_counters := Some current_cpu\<rparr>;
          invalid = collection_error InvalidCounterDelta ''calculate_cpu_usage'' (stat_source c) True
      in case previous_cpu_counters c of
           None \<Rightarrow> (Inr metrics, c')
         | Some previous_cpu \<Rightarrow>
             if cpu_total current_cpu \<le> cpu_total previous_cpu \<or> cpu_idle current_cpu < cpu_idle previous_cpu
             then (Inl invalid, c')
             else (let total_delta = cpu_total current_cpu - cpu_total previous_cpu;
                       idle_delta = cpu_idle current_cpu - cpu_idle previous_cpu
                   in if idle_delta > total_delta then (Inl invalid, c')
                      else (Inr (make_metric ''cpu_usage_percent''
                               (percentage (total_delta - idle_delta) total_delta) timestamp_ms # metrics), c')))"

definition proc_collect :: "('w \<Rightarrow> string \<Rightarrow> (metric_collection_error + string) \<times> 'w)
    \<Rightarrow> proc_collector \<times> 'w \<Rightarrow> int \<Rightarrow> (metric_collection_error + metric list) \<times> (proc_collector \<times> 'w)" where
  "proc_collect source_reader cw sampled_at =
     (case cw of (c, w) \<Rightarrow>
      (case source_reader w (stat_source c) of
         (Inl e, w1) \<Rightarrow> (Inl e, c, w1)
       | (Inr stat_contents, w1) \<Rightarrow>
      (case source_reader w1 (meminfo_source c) of
         (Inl e, w2) \<Rightarrow> (Inl e, c, w2)
       | (Inr meminfo_contents, w2) \<Rightarrow>
      (case parse_cpu_counters stat_contents (stat_source c) of
         Inl e \<Rightarrow> (Inl e, c, w2)
       | Inr current_cpu \<Rightarrow>
      (case parse_memory_metrics meminfo_contents (meminfo_source c) (to_milliseconds sampled_at) of
         Inl e \<Rightarrow> (Inl e, c, w2)
       | Inr metrics \<Rightarrow>
           (case update_cpu c current_cpu metrics (to_milliseconds sampled_at) of (r, c') \<Rightarrow> (r, c', w2)))))))"

section \<open>The contract\<close>

lemma make_metric_simps [simp]:
  "m_name (make_metric n v t) = n" "m_value (make_metric n v t) = v" "m_timestamp_ms (make_metric n v t) = t"
  by (simp_all add: make_metric_def)

lemma rnd_of_nat_bounds:
  assumes "n < 2 ^ 64"
  shows "isfinite (f64_of_nat n)" "0 \<le> f64_real (f64_of_nat n)" "f64_real (f64_of_nat n) \<le> 2 ^ 64"
    "0 < n \<Longrightarrow> 1 \<le> f64_real (f64_of_nat n)"
proof -
  have "n < 2 ^ 1000" using assms by (rule less_le_trans) simp
  note v = f64_of_nat_value [OF this]
  show "isfinite (f64_of_nat n)" by (rule v)
  show "0 \<le> f64_real (f64_of_nat n)" unfolding v(2) by (rule f64_rnd_nonneg) simp
  have top: "f64_rnd (2 ^ 64) = 2 ^ 64" using f64_rnd_exact [of 1 64] by simp
  have "real n \<le> 2 ^ 64" using assms by (metis less_imp_le of_nat_le_iff of_nat_numeral of_nat_power)
  then show "f64_real (f64_of_nat n) \<le> 2 ^ 64" unfolding v(2) using f64_rnd_mono [of "real n" "2 ^ 64"] top by simp
  have one: "f64_rnd 1 = 1" using f64_rnd_exact [of 1 0] by simp
  show "1 \<le> f64_real (f64_of_nat n)" if "0 < n"
    unfolding v(2) using f64_rnd_mono [of 1 "real n"] one that by simp
qed

lemma percentage_finite:
  assumes "0 < unat whole"
  shows "isfinite (percentage part whole)"
proof -
  let ?p = "f64_of_nat (unat part)" and ?w = "f64_of_nat (unat whole)" and ?h = "f64_of_nat 100"
  note p = rnd_of_nat_bounds [OF unat_uint64_less [of part]] and w = rnd_of_nat_bounds [OF unat_uint64_less [of whole]]
  have h: "isfinite ?h" "f64_real ?h = 100" using f64_of_nat_small [of 100] by simp_all
  have big: "(2::real) ^ 72 \<le> 2 powi 1023" using power_increasing [of 72 1023 "2::real"] by (simp add: power_int_def)
  have "100 * f64_real ?p \<le> 100 * 2 ^ 64" using p(3) by simp
  then have prod: "100 * f64_real ?p \<le> 2 ^ 72" by (rule order_trans) simp
  have "\<bar>f64_real ?h * f64_real ?p\<bar> \<le> 2 powi 1023"
    using order_trans [OF prod big] p(2) h(2) by (simp add: abs_mult)
  note m = f64_mul_value [OF h(1) p(1) this]
  have top: "f64_rnd (2 ^ 72) = 2 ^ 72" using f64_rnd_exact [of 1 72] by simp
  have m': "0 \<le> f64_real (f64_mul ?h ?p)" "f64_real (f64_mul ?h ?p) \<le> 2 ^ 72"
    using m(2) h(2) p(2) f64_rnd_nonneg [of "100 * f64_real ?p"] f64_rnd_mono [of "100 * f64_real ?p" "2 ^ 72"] prod top
    by (simp_all add: f64_srnd_nonneg)
  have w1: "1 \<le> f64_real ?w" using w(4) assms by simp
  then have "f64_real (f64_mul ?h ?p) / f64_real ?w \<le> f64_real (f64_mul ?h ?p)"
    using m'(1) mult_left_mono [of 1 "f64_real ?w" "f64_real (f64_mul ?h ?p)"] by (simp add: divide_le_eq)
  then have "\<bar>f64_real (f64_mul ?h ?p) / f64_real ?w\<bar> \<le> 2 powi 1023"
    using m' big w1 by simp
  from f64_div_value(1) [OF m(1) w(1) _ this] w1 show ?thesis by (simp add: percentage_def)
qed

text \<open>The kB-to-byte conversion does not wrap on validated counters.\<close>

lemma kilobytes_no_wrap:
  assumes "kb \<le> uint64_max div bytes_per_kilobyte"
  shows "unat (kb * bytes_per_kilobyte) = unat kb * 1024"
proof -
  have "unat kb \<le> (2 ^ 64 - 1) div 1024"
    using assms by (simp add: word_le_nat_alt unat_div bytes_per_kilobyte_def uint64_max_def)
  then have "unat kb * 1024 < 2 ^ 64" by simp
  then show ?thesis by (simp add: unat_word_ariths bytes_per_kilobyte_def)
qed

lemma memory_bytes:
  assumes "available_kb \<le> total_kb" "total_kb \<le> uint64_max div bytes_per_kilobyte"
  shows "unat (available_kb * bytes_per_kilobyte) = unat available_kb * 1024"
    "unat (total_kb * bytes_per_kilobyte) = unat total_kb * 1024"
    "unat (total_kb * bytes_per_kilobyte - available_kb * bytes_per_kilobyte) = (unat total_kb - unat available_kb) * 1024"
proof -
  show a: "unat (available_kb * bytes_per_kilobyte) = unat available_kb * 1024"
    by (rule kilobytes_no_wrap) (use assms in order)
  show t: "unat (total_kb * bytes_per_kilobyte) = unat total_kb * 1024"
    by (rule kilobytes_no_wrap) (rule assms)
  have "available_kb * bytes_per_kilobyte \<le> total_kb * bytes_per_kilobyte"
    using assms(1) by (simp add: word_le_nat_alt a t)
  then show "unat (total_kb * bytes_per_kilobyte - available_kb * bytes_per_kilobyte) = (unat total_kb - unat available_kb) * 1024"
    by (simp add: unat_sub a t diff_mult_distrib)
qed

lemma memory_metrics_ok:
  assumes "total_kb \<noteq> 0" "available_kb \<le> total_kb" "total_kb \<le> uint64_max div bytes_per_kilobyte"
    "m \<in> set (memory_metrics total_kb available_kb t)"
  shows "m_name m \<noteq> []" "isfinite (m_value m)" "m_timestamp_ms m = t"
proof -
  have "0 < unat (total_kb * bytes_per_kilobyte)" using assms(1) memory_bytes(2) [OF assms(2,3)] by (simp add: unat_gt_0)
  note fin = percentage_finite [OF this] rnd_of_nat_bounds(1) [OF unat_uint64_less]
  show "m_name m \<noteq> []" "isfinite (m_value m)" "m_timestamp_ms m = t"
    using assms(4) fin by (auto simp: memory_metrics_def Let_def)
qed

lemma parse_memory_metrics_InrE:
  assumes "parse_memory_metrics contents src t = Inr ms"
  obtains total_kb available_kb where "total_kb \<noteq> 0" "available_kb \<le> total_kb"
    "total_kb \<le> uint64_max div bytes_per_kilobyte" "ms = memory_metrics total_kb available_kb t"
    "memory_lines (getline_loop (open_stream contents) []) (None, None) = Some (Some total_kb, Some available_kb)"
  using assms
  by (auto simp: parse_memory_metrics_def Let_def not_less split: option.splits if_splits)

text \<open>The ways the update and the whole call can end.\<close>

lemma update_cpu_cases:
  assumes "update_cpu c current ms ts = (r, c')"
  obtains (baseline) "r = Inr ms" "previous_cpu_counters c = None"
  | (invalid) previous where "previous_cpu_counters c = Some previous"
      "r = Inl (collection_error InvalidCounterDelta ''calculate_cpu_usage'' (stat_source c) True)"
      "cpu_total current \<le> cpu_total previous \<or> cpu_idle current < cpu_idle previous \<or>
       cpu_total current - cpu_total previous < cpu_idle current - cpu_idle previous"
  | (usage) previous where "previous_cpu_counters c = Some previous"
      "r = Inr (make_metric ''cpu_usage_percent''
         (percentage ((cpu_total current - cpu_total previous) - (cpu_idle current - cpu_idle previous))
            (cpu_total current - cpu_total previous)) ts # ms)"
      "cpu_total previous < cpu_total current" "cpu_idle previous \<le> cpu_idle current"
      "cpu_idle current - cpu_idle previous \<le> cpu_total current - cpu_total previous"
proof (cases "previous_cpu_counters c")
  case None
  with assms show thesis by (intro baseline) (simp_all add: update_cpu_def)
next
  case (Some previous)
  show thesis
  proof (cases "cpu_total current \<le> cpu_total previous \<or> cpu_idle current < cpu_idle previous \<or>
       cpu_total current - cpu_total previous < cpu_idle current - cpu_idle previous")
    case True
    with Some assms show thesis by (intro invalid [OF Some _ True]) (auto simp: update_cpu_def Let_def split: if_splits)
  next
    case False
    with Some assms show thesis by (intro usage [OF Some]) (auto simp: update_cpu_def Let_def split: if_splits)
  qed
qed

lemma update_cpu_state: "snd (update_cpu c current ms ts) = c\<lparr>previous_cpu_counters := Some current\<rparr>"
  by (simp add: update_cpu_def Let_def split: option.split)

lemma proc_collect_cases:
  assumes "proc_collect source_reader (c, w) t = (r, c', w')"
  obtains (failed) e where "r = Inl e" "c' = c"
  | (parsed) stat w1 mem current ms where "source_reader w (stat_source c) = (Inr stat, w1)"
      "source_reader w1 (meminfo_source c) = (Inr mem, w')"
      "parse_cpu_counters stat (stat_source c) = Inr current"
      "parse_memory_metrics mem (meminfo_source c) (to_milliseconds t) = Inr ms"
      "update_cpu c current ms (to_milliseconds t) = (r, c')"
proof -
  have "(\<exists>e. r = Inl e \<and> c' = c) \<or> (\<exists>stat w1 mem current ms. source_reader w (stat_source c) = (Inr stat, w1) \<and>
      source_reader w1 (meminfo_source c) = (Inr mem, w') \<and>
      parse_cpu_counters stat (stat_source c) = Inr current \<and>
      parse_memory_metrics mem (meminfo_source c) (to_milliseconds t) = Inr ms \<and>
      update_cpu c current ms (to_milliseconds t) = (r, c'))"
    using assms by (auto simp: proc_collect_def split: prod.splits sum.splits dest!: sym [where s = "Inl _"])
  then show thesis using failed parsed by blast
qed

lemma proc_collect_metrics:
  assumes "proc_collect source_reader cw t = (Inr ms, cw')"
  shows "ms \<noteq> [] \<and> (\<forall>m \<in> set ms. m_name m \<noteq> [] \<and> isfinite (m_value m) \<and> m_timestamp_ms m = to_milliseconds t)"
proof -
  obtain c w c' w' where cw: "cw = (c, w)" "cw' = (c', w')" by (cases cw; cases cw') simp
  from assms [unfolded cw] show ?thesis
  proof (cases rule: proc_collect_cases)
    case (parsed stat w1 mem current mem_ms)
    from parsed(4) have mem: "mem_ms \<noteq> [] \<and>
        (\<forall>m \<in> set mem_ms. m_name m \<noteq> [] \<and> isfinite (m_value m) \<and> m_timestamp_ms m = to_milliseconds t)"
      using memory_metrics_ok by (elim parse_memory_metrics_InrE) (auto simp: memory_metrics_def Let_def)
    from parsed(5) show ?thesis
    proof (cases rule: update_cpu_cases)
      case (usage previous)
      from usage(3) have "0 < unat (cpu_total current - cpu_total previous)" by (simp add: unat_gt_0)
      from percentage_finite [OF this] mem usage(2) show ?thesis by auto
    qed (use mem in simp_all)
  qed simp
qed

interpretation proc: metric_collector "proc_collect source_reader" for source_reader
  by unfold_locales (use proc_collect_metrics in blast)+

section \<open>The checked sum and the counters\<close>

lemma sum_fields_iff:
  "sum_fields fs a = Some s \<longleftrightarrow> unat a + sum_list (map unat fs) < 2 ^ 64 \<and> unat s = unat a + sum_list (map unat fs)"
proof (induction fs arbitrary: a)
  case Nil
  have "unat a < 2 ^ 64" by (rule unat_uint64_less)
  moreover have "Some a = Some s \<longleftrightarrow> unat s = unat a" using unsigned_word_eqI [of s a] by auto
  ultimately show ?case by simp
next
  case (Cons f fs)
  show ?case
  proof (cases "f > uint64_max - a")
    case True
    have "unat (uint64_max - a) = 2 ^ 64 - 1 - unat a" by (simp add: unat_sub unat_uint64_max)
    then have "2 ^ 64 - 1 - unat a < unat f" using True by (simp add: word_less_nat_alt)
    then have "\<not> unat a + (unat f + sum_list (map unat fs)) < 2 ^ 64" by linarith
    with True show ?thesis by simp
  next
    case False
    from uint64_add_no_wrap [OF False] Cons [of "a + f"] False show ?thesis by (simp add: add_ac)
  qed
qed

lemma read_fields_shape:
  assumes "read_fields input slots k = (slots', k')" "k \<le> length slots"
  shows "length slots' = length slots \<and> k \<le> k' \<and> k' \<le> length slots"
  using assms
proof (induction input slots k rule: read_fields.induct)
  case (1 input slots k)
  obtain v input' where e: "extract_u64 input (slots ! k) = (v, input')" by fastforce
  show ?case
  proof (cases "k < length slots \<and> \<not> failbit input'")
    case True
    with 1(2) e have r: "read_fields input' (slots[k := v]) (Suc k) = (slots', k')"
      by (simp add: read_fields.simps [of input])
    from 1(1) [OF _ e [symmetric] _ r] True show ?thesis by simp
  next
    case False
    with 1(2,3) e show ?thesis by (auto simp: read_fields.simps [of input] split: if_splits)
  qed
qed

lemma parse_cpu_counters_InrE:
  assumes "parse_cpu_counters contents src = Inr c"
  obtains slots n input where "extract_string (open_stream contents) [] = (''cpu'', input)"
    "read_fields input (replicate 8 0) 0 = (slots, n)" "length slots = 8" "4 \<le> n" "n \<le> 8"
    "unat (cpu_total c) = sum_list (map unat (take n slots))"
    "unat (cpu_idle c) = unat (slots ! 3) + unat (slots ! 4)"
proof -
  obtain label input where l: "extract_string (open_stream contents) [] = (label, input)" by fastforce
  obtain slots n where f: "read_fields input (replicate 8 0) 0 = (slots, n)" by fastforce
  have "label = ''cpu''" "4 \<le> n" and s: "sum_fields (take n slots) 0 = Some (cpu_total c)"
    and i: "\<not> slots ! 4 > uint64_max - slots ! 3" "cpu_idle c = slots ! 3 + slots ! 4"
    using assms by (auto simp: parse_cpu_counters_def l f Let_def split: if_splits option.splits)
  moreover have "length slots = 8" "n \<le> 8" using read_fields_shape [OF f] by simp_all
  moreover have "unat (cpu_total c) = sum_list (map unat (take n slots))" using s by (simp add: sum_fields_iff)
  moreover have "unat (cpu_idle c) = unat (slots ! 3) + unat (slots ! 4)" unfolding i(2) by (rule uint64_add_no_wrap [OF i(1)])
  ultimately show thesis using l f that by blast
qed

section \<open>Percentages\<close>

text \<open>Up to \<open>2 ^ 46\<close> units both products are exact, so only the quotient is rounded.\<close>

lemma percentage_value:
  assumes "unat part = a * 2 ^ k" "unat whole = b * 2 ^ k" "a \<le> b" "0 < b" "b < 2 ^ 46"
  shows "isfinite (percentage part whole)"
    "f64_real (percentage part whole) = f64_srnd (100 * real a / real b)"
    "0 \<le> f64_real (percentage part whole)" "f64_real (percentage part whole) \<le> 100"
proof -
  let ?p = "f64_of_nat (unat part)" and ?w = "f64_of_nat (unat whole)" and ?h = "f64_of_nat 100"
  have whole: "0 < unat whole" using assms(2,4) by simp
  show "isfinite (percentage part whole)" by (rule percentage_finite [OF whole])
  have exact: "f64_real (f64_of_nat (unat w)) = real m * 2 powi int k" if "unat w = m * 2 ^ k" "m < 2 ^ 53" for w :: uint64 and m
  proof -
    have "unat w < 2 ^ 1000" using unat_uint64_less [of w] by (rule less_le_trans) simp
    then have "f64_real (f64_of_nat (unat w)) = f64_rnd (real (unat w))" by (rule f64_of_nat_value)
    also have "real (unat w) = real m * 2 powi int k" using that(1) by (simp del: unat_of_nat add: that(1))
    finally show ?thesis using f64_rnd_exact [OF that(2), of "int k"] by simp
  qed
  have ab: "a < 2 ^ 53" "b < 2 ^ 53" "100 * a < 2 ^ 53" using assms(3,5) by simp_all
  note p = exact [OF assms(1) ab(1)] and w = exact [OF assms(2) ab(2)]
  have h: "isfinite ?h" "f64_real ?h = 100" using f64_of_nat_small [of 100] by simp_all
  note fin = rnd_of_nat_bounds(1) [OF unat_uint64_less [of part]] rnd_of_nat_bounds(1) [OF unat_uint64_less [of whole]]
  have top: "f64_real ?p \<le> 2 ^ 64" "0 \<le> f64_real ?p"
    using rnd_of_nat_bounds(2,3) [OF unat_uint64_less [of part]] by simp_all
  have big: "(2::real) ^ 72 \<le> 2 powi 1023" using power_increasing [of 72 1023 "2::real"] by (simp add: power_int_def)
  have "100 * f64_real ?p \<le> 2 ^ 72" using top by simp
  then have "\<bar>f64_real ?h * f64_real ?p\<bar> \<le> 2 powi 1023" using top h(2) big by (simp add: abs_mult)
  note m = f64_mul_value [OF h(1) fin(1) this]
  have mr: "f64_real (f64_mul ?h ?p) = real (100 * a) * 2 powi int k"
    using m(2) h(2) p f64_rnd_exact [OF ab(3), of "int k"] by (simp add: f64_srnd_nonneg mult.assoc)
  have w0: "f64_real ?w \<noteq> 0" using w assms(4) by simp
  have q: "f64_real (f64_mul ?h ?p) / f64_real ?w = 100 * real a / real b"
    unfolding mr w using assms(4) by simp
  have le: "100 * real a / real b \<le> 100" "0 \<le> 100 * real a / real b"
    using assms(3,4) by (simp_all add: divide_le_eq)
  have "(100::real) \<le> 2 powi 1023" by (rule order_trans [OF _ big]) simp
  then have "\<bar>f64_real (f64_mul ?h ?p) / f64_real ?w\<bar> \<le> 2 powi 1023" unfolding q using le by simp
  from f64_div_value(2) [OF m(1) fin(2) w0 this]
  show v: "f64_real (percentage part whole) = f64_srnd (100 * real a / real b)"
    unfolding percentage_def q .
  have "f64_srnd 100 = 100" "f64_srnd 0 = 0" using f64_srnd_int [of 100] f64_srnd_int [of 0] by simp_all
  then show "0 \<le> f64_real (percentage part whole)" "f64_real (percentage part whole) \<le> 100"
    unfolding v using f64_srnd_mono [OF le(1)] f64_srnd_mono [OF le(2)] by simp_all
qed

end
