(* ===== verification/Cpu_Line.thy ===== *)
theory Cpu_Line
  imports Proc_Collector
begin

text \<open>
  The first line of \<open>/proc/stat\<close> as text, a label and numbers after blanks, and what the CPU parser makes of it: of numbers that
  fit 64 bits, of negative ones, and of one that does not fit.
\<close>

section \<open>Words and numbers of a stream\<close>

lemma takeWhile_word: "\<forall>x \<in> set w. \<not> p x \<Longrightarrow> p c \<Longrightarrow> takeWhile (\<lambda>x. \<not> p x) (w @ c # r) = w"
  by (induction w) auto

lemma dropWhile_word: "\<forall>x \<in> set w. \<not> p x \<Longrightarrow> p c \<Longrightarrow> dropWhile (\<lambda>x. \<not> p x) (w @ c # r) = c # r"
  by (induction w) auto

lemma dropWhile_spaces: "\<forall>x \<in> set ws. is_space x \<Longrightarrow> dropWhile is_space (ws @ r) = dropWhile is_space r"
  by (induction ws) auto

lemma extract_word:
  assumes "stream_good st" "unread st = ws @ w @ c # r" "\<forall>x \<in> set ws. is_space x"
    "w \<noteq> []" "\<forall>x \<in> set w. \<not> is_space x" "is_space c"
  shows "extract_string st old = (w, st\<lparr>unread := c # r\<rparr>)"
proof -
  have "dropWhile is_space (unread st) = w @ c # r"
    using assms(2-5) by (cases w) (simp_all add: dropWhile_spaces)
  with assms show ?thesis
    by (simp add: extract_string_def sentry_def stream_good_def takeWhile_word dropWhile_word)
qed

text \<open>A number as text; \<open>wrapped\<close> is what the extraction of an unsigned number makes of one that fits 64 bits, with or without its sign.\<close>

definition signed_dec :: "int \<Rightarrow> string" where
  "signed_dec z = (if z < 0 then CHR ''-'' # dec_string (nat (- z)) else dec_string (nat z))"

definition wrapped :: "int \<Rightarrow> nat" where
  "wrapped z = nat (z mod 2 ^ 64)"

lemma wrapped_less: "wrapped z < 2 ^ 64"
  by (simp add: wrapped_def nat_less_iff)

lemma wrapped_nat: "n < 2 ^ 64 \<Longrightarrow> wrapped (int n) = n"
  by (simp add: wrapped_def)

lemma unat_of_int64: "unat (of_int z :: uint64) = wrapped z"
  by (simp add: wrapped_def unat_eq_nat_uint unsigned_of_int take_bit_eq_mod)

lemma of_int_wrapped: "(of_int z :: uint64) = of_nat (wrapped z)"
  by (simp add: unat_of_int64 [symmetric])

lemma num_get_signed:
  assumes "\<not> is_digit c"
  shows "num_get_u64 (signed_dec z @ c # r) =
    (if \<bar>z\<bar> < 2 ^ 64 then (of_int z, False, c # r) else (uint64_max, True, c # r))"
proof -
  let ?n = "nat \<bar>z\<bar>"
  have tw: "takeWhile is_digit (dec_string n @ c # r) = dec_string n" "dropWhile is_digit (dec_string n @ c # r) = c # r" for n
    using assms dec_string_digits [of n] by (simp_all add: takeWhile_append2 dropWhile_append)
  have hd: "hd (dec_string n) \<noteq> CHR ''-'' \<and> hd (dec_string n) \<noteq> CHR ''+''" for n
  proof -
    have "is_digit (hd (dec_string n))" using dec_string_digits [of n] by simp
    then show ?thesis by (auto simp: is_digit_def)
  qed
  have fits: "unat uint64_max < ?n \<longleftrightarrow> \<not> \<bar>z\<bar> < 2 ^ 64" by (auto simp: unat_uint64_max)
  show ?thesis
  proof (cases "z < 0")
    case True
    then have "(- of_nat (nat (- z)) :: uint64) = of_int z" by simp
    then show ?thesis using True fits by (simp add: num_get_u64_def signed_dec_def Let_def tw)
  next
    case False
    then have "(of_nat (nat z) :: uint64) = of_int z" by simp
    then show ?thesis using False fits by (simp add: num_get_u64_def signed_dec_def Let_def tw hd)
  qed
qed

lemma extract_signed:
  assumes "stream_good st" "unread st = ws @ signed_dec z @ c # r" "\<forall>x \<in> set ws. is_space x" "\<not> is_digit c"
  shows "extract_u64 st old = (if \<bar>z\<bar> < 2 ^ 64 then (of_int z, st\<lparr>unread := c # r\<rparr>)
    else (uint64_max, st\<lparr>unread := c # r, failbit := True\<rparr>))"
proof -
  obtain d ds where d: "signed_dec z = d # ds" by (cases "signed_dec z") (auto simp: signed_dec_def split: if_splits)
  have "is_digit (hd (dec_string n))" for n using dec_string_digits [of n] by simp
  then have "\<not> is_space (hd (dec_string n))" for n using space_not_digit by blast
  then have "\<not> is_space (hd (signed_dec z))" by (auto simp: signed_dec_def is_space_def)
  then have "dropWhile is_space (unread st) = signed_dec z @ c # r" using assms(2,3) by (simp add: d dropWhile_spaces)
  then show ?thesis
    using assms(1) num_get_signed [OF assms(4), of z r] by (simp add: extract_u64_def sentry_def stream_good_def)
qed

section \<open>The line of the CPU counters\<close>

text \<open>The numbers of the first line of \<open>/proc/stat\<close>, each after some blanks.\<close>

definition render_signed :: "(string \<times> int) list \<Rightarrow> string" where
  "render_signed fs = concat (map (\<lambda>(ws, z). ws @ signed_dec z) fs)"

definition render_line :: "(string \<times> int) list \<Rightarrow> string \<Rightarrow> string" where
  "render_line fs rest = ''cpu'' @ render_signed fs @ CHR 0x0A # rest"

definition render_numbers :: "(string \<times> nat) list \<Rightarrow> string" where
  "render_numbers fs = concat (map (\<lambda>(ws, n). ws @ dec_string n) fs)"

definition render_stat :: "(string \<times> nat) list \<Rightarrow> string \<Rightarrow> string" where
  "render_stat fs rest = ''cpu'' @ render_numbers fs @ CHR 0x0A # rest"

definition blank :: "string \<Rightarrow> bool" where
  "blank ws \<longleftrightarrow> ws \<noteq> [] \<and> list_all is_space ws"

text \<open>The text after the line does not continue the numbers: its first word is not one.\<close>

definition no_number :: "string \<Rightarrow> bool" where
  "no_number rest \<longleftrightarrow> (case dropWhile is_space rest of [] \<Rightarrow> True
     | c # _ \<Rightarrow> \<not> is_digit c \<and> c \<noteq> CHR ''-'' \<and> c \<noteq> CHR ''+'')"

lemma newline_space [simp]: "is_space (CHR 0x0A)"
  by (simp add: is_space_def)

lemma render_signed_simps [simp]:
  "render_signed [] = []" "render_signed (f # fs) = fst f @ signed_dec (snd f) @ render_signed fs"
  "render_signed (fs @ gs) = render_signed fs @ render_signed gs"
  by (simp_all add: render_signed_def case_prod_beta)

lemma render_stat_line: "render_stat fs rest = render_line (map (apsnd int) fs) rest"
proof -
  have "render_numbers fs = render_signed (map (apsnd int) fs)"
    by (induction fs) (simp_all add: render_numbers_def signed_dec_def case_prod_beta)
  then show ?thesis by (simp add: render_stat_def render_line_def)
qed

lemma numbers_then_space:
  assumes "\<forall>f \<in> set fs. blank (fst f)" "is_space c"
  obtains d r' where "render_signed fs @ c # r = d # r'" "is_space d"
proof (cases fs)
  case (Cons f fs')
  with assms(1) obtain d ws where "fst f = d # ws" "is_space d" by (cases "fst f") (auto simp: blank_def)
  then show thesis by (intro that) (simp_all add: Cons)
qed (use assms(2) that in simp)

lemma extract_no_number:
  assumes "stream_good st" "no_number (unread st)"
  shows "failbit (snd (extract_u64 st 0)) \<and> fst (extract_u64 st 0) = 0"
proof (cases "dropWhile is_space (unread st)")
  case Nil
  with assms(1) show ?thesis by (simp add: extract_u64_def sentry_def)
next
  case (Cons c r)
  with assms(2) have c: "\<not> is_digit c" "c \<noteq> CHR ''-''" "c \<noteq> CHR ''+''" by (simp_all add: no_number_def)
  then have "num_get_u64 (c # r) = (0, True, c # r)" by (simp add: num_get_u64_def)
  with Cons assms(1) show ?thesis by (simp add: extract_u64_def sentry_def)
qed

lemma read_no_number:
  assumes "stream_good st" "k < length slots \<longrightarrow> no_number (unread st)" "k \<le> length slots"
    "\<forall>j. k \<le> j \<and> j < length slots \<longrightarrow> slots ! j = 0"
  shows "read_fields st slots k = (slots, k)"
proof (cases "k < length slots")
  case True
  with assms(2) have "no_number (unread st)" by simp
  from extract_no_number [OF assms(1) this] obtain st' where
    e: "extract_u64 st 0 = (0, st')" "failbit st'" by (metis prod.collapse)
  have "slots[k := 0] = slots" using assms(4) True by (metis list_update_id order_refl)
  then show ?thesis using e True assms(4) by (simp add: read_fields.simps [of st])
qed (use assms(3) in \<open>auto simp: read_fields.simps [of st]\<close>)

text \<open>Numbers that fit are read one after the other; the loop is then behind them.\<close>

lemma read_signed_fields:
  assumes "stream_good st" "unread st = render_signed fs @ c # r" "is_space c"
    "\<forall>f \<in> set fs. blank (fst f) \<and> \<bar>snd f\<bar> < 2 ^ 64" "k + length fs \<le> length slots"
  shows "read_fields st slots k = read_fields (st\<lparr>unread := c # r\<rparr>)
    (take k slots @ map (of_int \<circ> snd) fs @ drop (k + length fs) slots) (k + length fs)"
  using assms
proof (induction fs arbitrary: st slots k)
  case Nil
  then have "st\<lparr>unread := c # r\<rparr> = st" by simp
  then show ?case by simp
next
  case (Cons f fs)
  have f: "\<forall>x \<in> set (fst f). is_space x" "\<bar>snd f\<bar> < 2 ^ 64" and k: "k < length slots"
    using Cons.prems(4,5) by (simp_all add: blank_def list_all_iff)
  obtain d r' where d: "render_signed fs @ c # r = d # r'" "is_space d"
    using Cons.prems(3,4) numbers_then_space [of fs c r] by auto
  let ?st = "st\<lparr>unread := d # r'\<rparr>" and ?slots = "slots[k := of_int (snd f)]"
  have u: "unread st = fst f @ signed_dec (snd f) @ d # r'" using Cons.prems(2) d(1) by simp
  have "extract_u64 st (slots ! k) = (of_int (snd f), ?st)"
    using extract_signed [OF Cons.prems(1) u f(1) space_not_digit [OF d(2)]] f(2) by simp
  then have "read_fields st slots k = read_fields ?st ?slots (Suc k)"
    using k Cons.prems(1) by (simp add: read_fields.simps [of st] stream_good_def)
  also have "\<dots> = read_fields (?st\<lparr>unread := c # r\<rparr>)
      (take (Suc k) ?slots @ map (of_int \<circ> snd) fs @ drop (Suc k + length fs) ?slots) (Suc k + length fs)"
    using Cons.prems d(1) by (intro Cons.IH) (auto simp: stream_good_def)
  also have "take (Suc k) ?slots = take k slots @ [of_int (snd f)]"
    using k by (simp add: take_Suc_conv_app_nth)
  finally show ?case using k by simp
qed

text \<open>The whole line, given what the loop does behind the last number that it counts.\<close>

lemma parse_line:
  fixes fs :: "(string \<times> int) list"
  defines "usum \<equiv> sum_list (map (wrapped \<circ> snd) fs)"
  assumes "\<forall>f \<in> set fs. blank (fst f) \<and> \<bar>snd f\<bar> < 2 ^ 64" "4 \<le> length fs" "length fs \<le> 8"
    "is_space c" "usum < 2 ^ 64" "length slots = 8"
    "read_fields \<lparr>unread = c # r, eofbit = False, failbit = False\<rparr>
       (map (of_int \<circ> snd) fs @ replicate (8 - length fs) 0) (length fs) = (slots, length fs)"
    "take (length fs) slots = map (of_int \<circ> snd) fs"
  shows "parse_cpu_counters (''cpu'' @ render_signed fs @ c # r) src =
    (if unat (slots ! 3) + unat (slots ! 4) < 2 ^ 64 then Inr \<lparr>cpu_total = of_nat usum, cpu_idle = slots ! 3 + slots ! 4\<rparr>
     else Inl (collection_error MalformedSource ''parse_cpu_counters'' src False))"
proof -
  let ?st = "\<lparr>unread = render_signed fs @ c # r, eofbit = False, failbit = False\<rparr>"
  obtain d r' where d: "render_signed fs @ c # r = d # r'" "is_space d"
    using assms(2,5) numbers_then_space [of fs c r] by auto
  have "\<forall>x \<in> set ''cpu''. \<not> is_space x" by (simp add: is_space_def)
  then have label: "extract_string (open_stream (''cpu'' @ render_signed fs @ c # r)) [] = (''cpu'', ?st)"
    using extract_word [of "open_stream (''cpu'' @ d # r')" "[]" "''cpu''" d r' "[]"] d
    by (simp add: open_stream_def stream_good_def)
  have "read_fields ?st (replicate 8 0) 0 = read_fields (?st\<lparr>unread := c # r\<rparr>)
      (take 0 (replicate 8 0) @ map (of_int \<circ> snd) fs @ drop (0 + length fs) (replicate 8 0)) (0 + length fs)"
    using assms(2-5) by (intro read_signed_fields) (simp_all add: stream_good_def)
  then have fields: "read_fields ?st (replicate 8 0) 0 = (slots, length fs)" using assms(8) by simp
  have "sum_list (map unat (take (length fs) slots)) = usum"
    unfolding assms(9) by (simp add: usum_def comp_def unat_of_int64)
  then have sum: "sum_fields (take (length fs) slots) 0 = Some (of_nat usum)"
    using assms(6) by (simp add: sum_fields_iff unat_of_nat take_bit_nat_eq_self)
  have "\<not> slots ! 4 > uint64_max - slots ! 3 \<longleftrightarrow> unat (slots ! 3) + unat (slots ! 4) < 2 ^ 64"
    using unat_uint64_less [of "slots ! 3"] by (auto simp: not_less word_le_nat_alt unat_sub unat_uint64_max)
  then show ?thesis using assms(3) unfolding parse_cpu_counters_def Let_def label
    by (cases "uint64_max - slots ! 3 < slots ! 4") (simp_all add: fields sum)
qed

lemma sum_list_take_le: "sum_list (take n xs) \<le> sum_list (xs :: nat list)"
  using append_take_drop_id [of n xs] by (metis le_add1 sum_list_append)

lemma idle_le_total:
  fixes ns :: "nat list"
  assumes "4 \<le> length ns"
  shows "ns ! 3 + (if 5 \<le> length ns then ns ! 4 else 0) \<le> sum_list ns"
proof -
  have four: "take 4 ns = take 3 ns @ [ns ! 3]"
    using assms take_Suc_conv_app_nth [of 3 ns] by (simp add: eval_nat_numeral)
  have "take 5 ns = take 4 ns @ (if 5 \<le> length ns then [ns ! 4] else [])"
    using assms take_Suc_conv_app_nth [of 4 ns] by (simp add: eval_nat_numeral)
  then have "sum_list (take 5 ns) = sum_list (take 3 ns) + (ns ! 3 + (if 5 \<le> length ns then ns ! 4 else 0))"
    unfolding four by simp
  then show ?thesis using sum_list_take_le [of 5 ns] by linarith
qed

text \<open>A line whose numbers all fit: negative ones count as their two's complement.\<close>

lemma signed_line_counters:
  assumes "\<forall>f \<in> set fs. blank (fst f) \<and> \<bar>snd f\<bar> < 2 ^ 64" "4 \<le> length fs"
    "sum_list (map (wrapped \<circ> snd) (take 8 fs)) < 2 ^ 64" "length fs < 8 \<longrightarrow> no_number rest"
  shows "\<exists>c. parse_cpu_counters (render_line fs rest) src = Inr c \<and>
    unat (cpu_total c) = sum_list (map (wrapped \<circ> snd) (take 8 fs)) \<and>
    unat (cpu_idle c) = wrapped (snd (fs ! 3)) + (if 5 \<le> length fs then wrapped (snd (fs ! 4)) else 0)"
proof -
  let ?fs = "take 8 fs" and ?ns = "map (wrapped \<circ> snd) (take 8 fs)"
  define slots :: "uint64 list" where "slots = map (of_int \<circ> snd) ?fs @ replicate (8 - length ?fs) 0"
  have len: "length slots = 8" "take (length ?fs) slots = map (of_int \<circ> snd) ?fs" by (simp_all add: slots_def)
  have fine: "\<forall>f \<in> set ?fs. blank (fst f) \<and> \<bar>snd f\<bar> < 2 ^ 64" using assms(1) by (auto dest: in_set_takeD)
  have "\<forall>f \<in> set (drop 8 fs). blank (fst f)" using assms(1) by (auto dest: in_set_dropD)
  then obtain c r where c: "render_signed (drop 8 fs) @ CHR 0x0A # rest = c # r" "is_space c"
    by (rule numbers_then_space [OF _ newline_space])
  have line: "render_line fs rest = ''cpu'' @ render_signed ?fs @ c # r"
    using render_signed_simps(3) [of ?fs "drop 8 fs"] c(1) by (simp add: render_line_def)
  have "read_fields \<lparr>unread = c # r, eofbit = False, failbit = False\<rparr> slots (length ?fs) = (slots, length ?fs)"
  proof (rule read_no_number)
    show "length ?fs < length slots \<longrightarrow> no_number (unread \<lparr>unread = c # r, eofbit = False, failbit = False\<rparr>)"
    proof
      assume "length ?fs < length slots"
      then have "length fs < 8" using len by simp
      then show "no_number (unread \<lparr>unread = c # r, eofbit = False, failbit = False\<rparr>)"
        using assms(4) c(1) by (auto simp: no_number_def)
    qed
  qed (auto simp: stream_good_def slots_def nth_append)
  then have parse: "parse_cpu_counters (render_line fs rest) src =
    (if unat (slots ! 3) + unat (slots ! 4) < 2 ^ 64 then Inr \<lparr>cpu_total = of_nat (sum_list ?ns), cpu_idle = slots ! 3 + slots ! 4\<rparr>
     else Inl (collection_error MalformedSource ''parse_cpu_counters'' src False))"
    unfolding line slots_def [symmetric] by (intro parse_line fine c(2) assms(3) len) (use assms(2) in \<open>simp_all add: slots_def\<close>)
  have nth: "slots ! i = (if i < length fs then of_int (snd (fs ! i)) else 0)" if "i < 8" for i
    using that by (simp add: slots_def nth_append)
  have idle: "unat (slots ! 3) + unat (slots ! 4) = wrapped (snd (fs ! 3)) + (if 5 \<le> length fs then wrapped (snd (fs ! 4)) else 0)"
    using assms(2) unfolding nth [of 3, simplified] nth [of 4, simplified] by (simp add: unat_of_int64)
  also have "\<dots> \<le> sum_list ?ns" using idle_le_total [of ?ns] assms(2) by (auto split: if_splits)
  finally have small: "unat (slots ! 3) + unat (slots ! 4) < 2 ^ 64" using assms(3) by (rule le_less_trans)
  have "parse_cpu_counters (render_line fs rest) src = Inr \<lparr>cpu_total = of_nat (sum_list ?ns), cpu_idle = slots ! 3 + slots ! 4\<rparr>"
    using parse small assms(2) by simp
  moreover have "unat (slots ! 3 + slots ! 4) = unat (slots ! 3) + unat (slots ! 4)"
    using small by (simp add: unat_word_ariths)
  moreover have "unat (of_nat (sum_list ?ns) :: uint64) = sum_list ?ns"
    using assms(3) by (simp add: unat_of_nat take_bit_nat_eq_self)
  ultimately show ?thesis using idle
    by (intro exI [of _ "\<lparr>cpu_total = of_nat (sum_list ?ns), cpu_idle = slots ! 3 + slots ! 4\<rparr>"])
      (simp only: cpu_counters.simps simp_thms)
qed

lemma cpu_line_counters:
  assumes "\<forall>f \<in> set fs. blank (fst f)" "4 \<le> length fs" "sum_list (map snd (take 8 fs)) < 2 ^ 64"
    "\<forall>f \<in> set fs. snd f < 2 ^ 64" "length fs < 8 \<longrightarrow> no_number rest"
  shows "\<exists>c. parse_cpu_counters (render_stat fs rest) src = Inr c \<and>
    unat (cpu_total c) = sum_list (map snd (take 8 fs)) \<and>
    unat (cpu_idle c) = snd (fs ! 3) + (if 5 \<le> length fs then snd (fs ! 4) else 0)"
proof -
  let ?fs = "map (apsnd int) fs"
  have fine: "\<forall>f \<in> set ?fs. blank (fst f) \<and> \<bar>snd f\<bar> < 2 ^ 64" using assms(1,4) by auto
  have w: "wrapped (int (snd f)) = snd f" if "f \<in> set fs" for f using assms(4) that by (simp add: wrapped_nat)
  have sums: "map (wrapped \<circ> snd) (take 8 ?fs) = map snd (take 8 fs)"
    using w by (auto simp: take_map dest: in_set_takeD)
  have nth: "wrapped (snd (?fs ! i)) = snd (fs ! i)" if "i < length fs" for i using that w [of "fs ! i"] by simp
  have "5 \<le> length fs \<Longrightarrow> wrapped (snd (?fs ! 4)) = snd (fs ! 4)" "wrapped (snd (?fs ! 3)) = snd (fs ! 3)"
    using assms(2) by (simp_all only: nth)
  with signed_line_counters [OF fine, of rest src] assms(2,3,5) show ?thesis
    unfolding render_stat_line sums by (cases "5 \<le> length fs") simp_all
qed

text \<open>
  A line with a number that does not fit, after at least four and at most seven that do: it is not counted, but its array
  element holds the maximum.
\<close>

lemma overflow_line_counters:
  assumes "\<forall>f \<in> set fs. blank (fst f) \<and> \<bar>snd f\<bar> < 2 ^ 64" "4 \<le> length fs" "length fs < 8"
    "sum_list (map (wrapped \<circ> snd) fs) < 2 ^ 64" "blank ws" "2 ^ 64 \<le> \<bar>z\<bar>"
  shows "parse_cpu_counters (render_line (fs @ [(ws, z)]) rest) src =
    (if length fs = 4 \<and> wrapped (snd (fs ! 3)) \<noteq> 0 then Inl (collection_error MalformedSource ''parse_cpu_counters'' src False)
     else Inr \<lparr>cpu_total = of_nat (sum_list (map (wrapped \<circ> snd) fs)),
       cpu_idle = if length fs = 4 then uint64_max else of_nat (wrapped (snd (fs ! 3)) + wrapped (snd (fs ! 4)))\<rparr>)"
proof -
  let ?zeros = "replicate (8 - length fs) 0 :: uint64 list" and ?us = "map (of_int \<circ> snd) fs :: uint64 list"
  define slots where "slots = ?us @ uint64_max # replicate (7 - length fs) 0"
  obtain c ws' where ws: "ws = c # ws'" "is_space c" "\<forall>x \<in> set ws. is_space x"
    using assms(5) by (cases ws) (auto simp: blank_def list_all_iff)
  let ?r = "ws' @ signed_dec z @ CHR 0x0A # rest"
  let ?st = "\<lparr>unread = c # ?r, eofbit = False, failbit = False\<rparr>"
  have line: "render_line (fs @ [(ws, z)]) rest = ''cpu'' @ render_signed fs @ c # ?r"
    by (simp add: render_line_def ws(1))
  have zeros: "?zeros = 0 # replicate (7 - length fs) 0"
    using assms(3) replicate_Suc [of "7 - length fs" "0 :: uint64"] by (simp add: Suc_diff_le numeral_eq_Suc)
  have "extract_u64 ?st 0 = (uint64_max, ?st\<lparr>unread := CHR 0x0A # rest, failbit := True\<rparr>)"
    using extract_signed [of ?st ws z "CHR 0x0A" rest 0] ws assms(6) space_not_digit [OF newline_space]
    by (simp add: stream_good_def)
  then have "read_fields ?st (?us @ ?zeros) (length fs) = (slots, length fs)"
    unfolding zeros slots_def by (simp add: read_fields.simps [of ?st] nth_append list_update_append)
  then have parse: "parse_cpu_counters (render_line (fs @ [(ws, z)]) rest) src =
    (if unat (slots ! 3) + unat (slots ! 4) < 2 ^ 64
     then Inr \<lparr>cpu_total = of_nat (sum_list (map (wrapped \<circ> snd) fs)), cpu_idle = slots ! 3 + slots ! 4\<rparr>
     else Inl (collection_error MalformedSource ''parse_cpu_counters'' src False))"
    unfolding line by (intro parse_line assms(1,2,4) ws(2)) (use assms(3) in \<open>simp_all add: slots_def\<close>)
  have three: "slots ! 3 = of_int (snd (fs ! 3))" using assms(2) by (simp add: slots_def nth_append)
  have four: "slots ! 4 = (if length fs = 4 then uint64_max else of_int (snd (fs ! 4)))"
    using assms(2) by (auto simp: slots_def nth_append)
  have u: "unat (slots ! 3) = wrapped (snd (fs ! 3))"
    "unat (slots ! 4) = (if length fs = 4 then 2 ^ 64 - 1 else wrapped (snd (fs ! 4)))"
    unfolding three four by (simp_all add: unat_of_int64 unat_uint64_max)
  have le: "wrapped (snd (fs ! 3)) + wrapped (snd (fs ! 4)) < 2 ^ 64" if "length fs \<noteq> 4"
    using idle_le_total [of "map (wrapped \<circ> snd) fs"] assms(2,4) that by (auto split: if_splits)
  show ?thesis
  proof (cases "length fs = 4")
    case True
    have "slots ! 3 = 0" if "wrapped (snd (fs ! 3)) = 0" unfolding three of_int_wrapped that by simp
    then show ?thesis using parse assms(3) True unfolding u by (auto simp: four)
  next
    case False
    then have "parse_cpu_counters (render_line (fs @ [(ws, z)]) rest) src =
        Inr \<lparr>cpu_total = of_nat (sum_list (map (wrapped \<circ> snd) fs)), cpu_idle = slots ! 3 + slots ! 4\<rparr>"
      using parse le unfolding u by simp
    moreover have "slots ! 3 + slots ! 4 = of_nat (wrapped (snd (fs ! 3)) + wrapped (snd (fs ! 4)))"
      using False by (simp add: three four of_int_wrapped)
    ultimately show ?thesis using False by simp
  qed
qed

end
