(* ===== verification/Proc_Properties.thy ===== *)
theory Proc_Properties
  imports Cpu_Line
begin

text \<open>
  What the proc collector guarantees. \<open>render_stat\<close> and \<open>render_meminfo\<close> describe the shape of
  \<open>/proc/stat\<close> and \<open>/proc/meminfo\<close>; the parsers read the numbers in it exactly, and \<open>collect\<close> turns them
  into a sample of finite values with one timestamp.
\<close>

section \<open>Properties of the CPU counters\<close>

text \<open>
  C26: The CPU parser reads what the kernel prints. For a first line of the word \<open>cpu\<close> and at least four numbers, each
  after some blanks, whose first eight add up to less than \<open>2 ^ 64\<close>, and any further text that does not
  continue the numbers, the result is exact: the total is the sum of the first eight, and the idle time is the
  fourth plus the fifth, if there is one.
\<close>

theorem cpu_counters_parsed:
  assumes "\<forall>f \<in> set fs. blank (fst f)" "4 \<le> length fs" "sum_list (map snd (take 8 fs)) < 2 ^ 64"
    "\<forall>f \<in> set fs. snd f < 2 ^ 64" "length fs < 8 \<longrightarrow> no_number rest"
  shows "\<exists>c. parse_cpu_counters (render_stat fs rest) src = Inr c \<and>
    unat (cpu_total c) = sum_list (map snd (take 8 fs)) \<and>
    unat (cpu_idle c) = snd (fs ! 3) + (if 5 \<le> length fs then snd (fs ! 4) else 0)"
  using assms by (rule cpu_line_counters)

theorem cpu_counters_parsed_witness:
  "\<exists>c. parse_cpu_counters (render_stat [('' '', 10), ('' '', 0), ('' '', 5), ('' '', 80), ('' '', 5)] ''intr 7'') ''stat'' = Inr c \<and>
    unat (cpu_total c) = 100 \<and> unat (cpu_idle c) = 85"
  using cpu_counters_parsed [of "[('' '', 10), ('' '', 0), ('' '', 5), ('' '', 80), ('' '', 5)]" "''intr 7''" "''stat''"]
  by (simp add: blank_def no_number_def is_space_def is_digit_def)


section \<open>The memory table\<close>

record meminfo_row =
  row_key :: string
  row_blank :: string
  row_value :: nat
  row_tail :: string

definition render_row :: "meminfo_row \<Rightarrow> string" where
  "render_row r = row_key r @ row_blank r @ dec_string (row_value r) @ row_tail r"

definition render_meminfo :: "meminfo_row list \<Rightarrow> string" where
  "render_meminfo rows = concat (map (\<lambda>r. render_row r @ [CHR 0x0A]) rows)"

text \<open>A row has one word as its key; the two rows that matter count kB.\<close>

definition row_ok :: "meminfo_row \<Rightarrow> bool" where
  "row_ok r \<longleftrightarrow> row_key r \<noteq> [] \<and> list_all (\<lambda>c. \<not> is_space c) (row_key r) \<and> blank (row_blank r) \<and>
     CHR 0x0A \<notin> set (row_blank r) \<and> CHR 0x0A \<notin> set (row_tail r) \<and>
     (row_key r \<in> {mem_total_key, mem_available_key} \<longrightarrow> row_value r < 2 ^ 64 \<and> row_tail r = '' kB'')"

text \<open>The last value printed for a key.\<close>

definition reported :: "string \<Rightarrow> meminfo_row list \<Rightarrow> nat option" where
  "reported key rows = map_of (rev (map (\<lambda>r. (row_key r, row_value r)) rows)) key"

lemma reported_simps [simp]:
  "reported key [] = None"
  "reported key (rows @ [r]) = (if row_key r = key then Some (row_value r) else reported key rows)"
  by (auto simp: reported_def)

lemma getline_lines:
  assumes "\<forall>l \<in> set ls. CHR 0x0A \<notin> set l"
  shows "getline_loop \<lparr>unread = concat (map (\<lambda>l. l @ [CHR 0x0A]) ls), eofbit = False, failbit = False\<rparr> old = ls"
  using assms
proof (induction ls arbitrary: old)
  case Nil
  show ?case by (simp add: getline_loop.simps getline_def stream_good_def)
next
  case (Cons l ls)
  let ?rest = "concat (map (\<lambda>l. l @ [CHR 0x0A]) ls)"
  have "takeWhile (\<lambda>c. c \<noteq> CHR 0x0A) (l @ CHR 0x0A # ?rest) = l"
    "dropWhile (\<lambda>c. c \<noteq> CHR 0x0A) (l @ CHR 0x0A # ?rest) = CHR 0x0A # ?rest"
    using Cons.prems by (auto intro!: takeWhile_word dropWhile_word)
  then have "getline \<lparr>unread = concat (map (\<lambda>l. l @ [CHR 0x0A]) (l # ls)), eofbit = False, failbit = False\<rparr> old =
      (l, \<lparr>unread = ?rest, eofbit = False, failbit = False\<rparr>)"
    by (simp add: getline_def stream_good_def)
  with Cons show ?case by (subst getline_loop.simps) simp
qed

lemma render_row_line: "row_ok r \<Longrightarrow> CHR 0x0A \<notin> set (render_row r)"
  using dec_string_digits [of "row_value r"] newline_space
  by (auto simp: render_row_def row_ok_def list_all_iff is_digit_def)

lemma memory_line_row:
  assumes "row_ok r"
  shows "memory_line (render_row r) acc =
    Some (if row_key r = mem_total_key then (Some (of_nat (row_value r)), snd acc)
      else if row_key r = mem_available_key then (fst acc, Some (of_nat (row_value r))) else acc)"
proof -
  obtain c ws where ws: "row_blank r = c # ws" "is_space c" "\<forall>x \<in> set ws. is_space x"
    using assms by (cases "row_blank r") (auto simp: row_ok_def blank_def list_all_iff)
  let ?rest = "ws @ dec_string (row_value r) @ row_tail r"
  let ?st = "\<lparr>unread = c # ?rest, eofbit = False, failbit = False\<rparr>"
  have key: "extract_string (open_stream (render_row r)) [] = (row_key r, ?st)"
    using assms extract_word [of "open_stream (render_row r)" "[]" "row_key r" c ?rest "[]"] ws
    by (simp add: row_ok_def list_all_iff open_stream_def stream_good_def render_row_def)
  show ?thesis
  proof (cases "row_key r \<in> {mem_total_key, mem_available_key}")
    case True
    with assms have v: "row_value r \<le> unat uint64_max" and t: "row_tail r = '' kB''"
      by (auto simp: row_ok_def unat_uint64_max)
    have "extract_u64 ?st 0 = (of_nat (row_value r), ?st\<lparr>unread := '' kB''\<rparr>)"
      using ws(2,3) by (intro extract_u64_dec [of _ "c # ws"] v) (simp_all add: t stream_good_def)
    moreover have "extract_string (?st\<lparr>unread := '' kB''\<rparr>) [] = (''kB'', \<lparr>unread = [], eofbit = True, failbit = False\<rparr>)"
      by (simp add: extract_string_def sentry_def stream_good_def is_space_def)
    ultimately show ?thesis
      using True by (auto simp: memory_line_def key mem_total_key_def mem_available_key_def)
  next
    case False
    then show ?thesis by (simp add: memory_line_def key)
  qed
qed

lemma memory_lines_append:
  "memory_lines (ls @ ks) acc = (case memory_lines ls acc of None \<Rightarrow> None | Some acc' \<Rightarrow> memory_lines ks acc')"
  by (induction ls arbitrary: acc) (simp_all split: option.split)

lemma memory_lines_rows:
  assumes "list_all row_ok rows"
  shows "memory_lines (map render_row rows) (None, None) =
    Some (map_option of_nat (reported mem_total_key rows), map_option of_nat (reported mem_available_key rows))"
  using assms
proof (induction rows rule: rev_induct)
  case Nil
  show ?case by simp
next
  case (snoc r rows)
  then show ?case
    by (simp add: memory_lines_append memory_line_row mem_total_key_def mem_available_key_def)
qed

lemma reported_bound:
  assumes "list_all row_ok rows"
  shows "reported mem_total_key rows = Some n \<Longrightarrow> n < 2 ^ 64" "reported mem_available_key rows = Some n \<Longrightarrow> n < 2 ^ 64"
proof -
  have "n < 2 ^ 64" if "reported key rows = Some n" "key \<in> {mem_total_key, mem_available_key}" for key
    using map_of_SomeD [OF that(1) [unfolded reported_def]] assms that(2) by (auto simp: list_all_iff row_ok_def)
  then show "reported mem_total_key rows = Some n \<Longrightarrow> n < 2 ^ 64"
    "reported mem_available_key rows = Some n \<Longrightarrow> n < 2 ^ 64" by blast+
qed

lemma kilobyte_bound: "unat (uint64_max div bytes_per_kilobyte) = (2 ^ 64 - 1) div 1024"
  by (simp add: unat_div bytes_per_kilobyte_def uint64_max_def)

lemma memory_table_metrics:
  assumes "list_all row_ok rows"
  shows "parse_memory_metrics (render_meminfo rows) src t =
    (case (reported mem_total_key rows, reported mem_available_key rows) of
       (Some total_kb, Some available_kb) \<Rightarrow>
         if total_kb = 0 \<or> total_kb < available_kb \<or> (2 ^ 64 - 1) div 1024 < total_kb
         then Inl (collection_error MalformedSource ''parse_memory_metrics'' src False)
         else Inr [make_metric ''memory_used_bytes'' (f64_of_nat ((total_kb - available_kb) * 1024)) t,
                   make_metric ''memory_available_bytes'' (f64_of_nat (available_kb * 1024)) t,
                   make_metric ''memory_usage_percent''
                     (f64_div (f64_mul (f64_of_nat 100) (f64_of_nat ((total_kb - available_kb) * 1024)))
                        (f64_of_nat (total_kb * 1024))) t]
     | _ \<Rightarrow> Inl (collection_error MalformedSource ''parse_memory_metrics'' src False))"
proof -
  have ls: "getline_loop (open_stream (render_meminfo rows)) [] = map render_row rows"
    using getline_lines [of "map render_row rows" "[]"] assms render_row_line
    by (auto simp: list_all_iff render_meminfo_def open_stream_def comp_def)
  show ?thesis
  proof (cases "\<exists>total available. reported mem_total_key rows = Some total \<and> reported mem_available_key rows = Some available")
    case False
    then show ?thesis
      by (auto simp: parse_memory_metrics_def Let_def ls memory_lines_rows [OF assms] split: option.split)
  next
    case True
    then obtain total_kb available_kb where r: "reported mem_total_key rows = Some total_kb"
      "reported mem_available_key rows = Some available_kb" by blast
    with reported_bound [OF assms] have b: "total_kb < 2 ^ 64" "available_kb < 2 ^ 64" by blast+
    let ?t = "of_nat total_kb :: uint64" and ?a = "of_nat available_kb :: uint64"
    have u: "unat ?t = total_kb" "unat ?a = available_kb"
      using b by (simp_all add: unat_of_nat take_bit_nat_eq_self)
    have refused: "(?t = 0 \<or> ?t < ?a \<or> uint64_max div bytes_per_kilobyte < ?t) \<longleftrightarrow>
        (total_kb = 0 \<or> total_kb < available_kb \<or> (2 ^ 64 - 1) div 1024 < total_kb)"
      by (simp only: word_less_nat_alt u kilobyte_bound unat_eq_zero [symmetric])
    have "memory_metrics ?t ?a t = [make_metric ''memory_used_bytes'' (f64_of_nat ((total_kb - available_kb) * 1024)) t,
                   make_metric ''memory_available_bytes'' (f64_of_nat (available_kb * 1024)) t,
                   make_metric ''memory_usage_percent''
                     (f64_div (f64_mul (f64_of_nat 100) (f64_of_nat ((total_kb - available_kb) * 1024)))
                        (f64_of_nat (total_kb * 1024))) t]"
      if "\<not> (?t = 0 \<or> ?t < ?a \<or> uint64_max div bytes_per_kilobyte < ?t)"
    proof -
      from that have "?a \<le> ?t" "?t \<le> uint64_max div bytes_per_kilobyte" by (simp_all add: not_less)
      from memory_bytes [OF this] show ?thesis by (simp only: memory_metrics_def Let_def percentage_def u)
    qed
    with refused show ?thesis
      by (simp add: parse_memory_metrics_def Let_def ls memory_lines_rows [OF assms] r)
  qed
qed

section \<open>Properties of the memory metrics\<close>

text \<open>
  C27: The memory parser reads what the kernel prints. For any table of rows whose \<open>MemTotal:\<close> and
  \<open>MemAvailable:\<close> rows count kB below \<open>2 ^ 64\<close>, whatever other rows there are and in whatever order, the
  outcome is decided by the last value of each key: without both, or with a total of zero, more available than
  total, or a total whose bytes do not fit 64 bits, the source is malformed; otherwise the metrics are the used and the
  available bytes and the used percentage, with no wrap-around anywhere.
\<close>

theorem memory_parsed:
  assumes "list_all row_ok rows"
  shows "parse_memory_metrics (render_meminfo rows) src t =
    (case (reported mem_total_key rows, reported mem_available_key rows) of
       (Some total_kb, Some available_kb) \<Rightarrow>
         if total_kb = 0 \<or> total_kb < available_kb \<or> (2 ^ 64 - 1) div 1024 < total_kb
         then Inl (collection_error MalformedSource ''parse_memory_metrics'' src False)
         else Inr [make_metric ''memory_used_bytes'' (f64_of_nat ((total_kb - available_kb) * 1024)) t,
                   make_metric ''memory_available_bytes'' (f64_of_nat (available_kb * 1024)) t,
                   make_metric ''memory_usage_percent''
                     (f64_div (f64_mul (f64_of_nat 100) (f64_of_nat ((total_kb - available_kb) * 1024)))
                        (f64_of_nat (total_kb * 1024))) t]
     | _ \<Rightarrow> Inl (collection_error MalformedSource ''parse_memory_metrics'' src False))"
  using assms by (rule memory_table_metrics)

theorem memory_parsed_witness:
  "parse_memory_metrics (render_meminfo
      [\<lparr>row_key = ''MemTotal:'', row_blank = ''   '', row_value = 16384, row_tail = '' kB''\<rparr>,
       \<lparr>row_key = ''MemAvailable:'', row_blank = '' '', row_value = 4096, row_tail = '' kB''\<rparr>,
       \<lparr>row_key = ''HugePages_Total:'', row_blank = '' '', row_value = 0, row_tail = []\<rparr>]) ''stat'' 0 =
    Inr [make_metric ''memory_used_bytes'' (f64_of_nat 12582912) 0,
         make_metric ''memory_available_bytes'' (f64_of_nat 4194304) 0,
         make_metric ''memory_usage_percent''
           (f64_div (f64_mul (f64_of_nat 100) (f64_of_nat 12582912)) (f64_of_nat 16777216)) 0]"
  by (subst memory_parsed)
    (simp_all add: row_ok_def blank_def is_space_def mem_total_key_def mem_available_key_def reported_def)

section \<open>Samples\<close>

lemma extract_failed:
  assumes "extract_u64 st old = (v, st')" "failbit st'"
  shows "v \<in> {old, 0, uint64_max}"
  using assms by (auto simp: extract_u64_def num_get_u64_def Let_def split: prod.splits if_splits)

lemma read_fields_rest:
  assumes "read_fields input slots k = (slots', n)" "\<forall>j. k \<le> j \<and> j < length slots \<longrightarrow> slots ! j = 0"
  shows "\<forall>j. n \<le> j \<and> j < length slots \<longrightarrow> slots' ! j \<in> {0, uint64_max}"
  using assms
proof (induction input slots k rule: read_fields.induct)
  case (1 input slots k)
  obtain v input' where e: "extract_u64 input (slots ! k) = (v, input')" by fastforce
  show ?case
  proof (cases "k < length slots")
    case True
    show ?thesis
    proof (cases "failbit input'")
      case False
      with 1(2) e True have r: "read_fields input' (slots[k := v]) (Suc k) = (slots', n)"
        by (simp add: read_fields.simps [of input])
      from 1(1) [OF True e [symmetric] False r] 1(3) show ?thesis by simp
    next
      case failed: True
      have "v \<in> {0, uint64_max}" using extract_failed [OF e failed] 1(3) True by auto
      with 1(2,3) e True failed show ?thesis by (auto simp: read_fields.simps [of input] nth_list_update)
    qed
  next
    case False
    with 1(2,3) show ?thesis by (auto simp: read_fields.simps [of input])
  qed
qed

text \<open>
  Idle time never exceeds the total, with one exception. For any text the CPU parser accepts, the total is the sum of
  four to eight counters without wrap-around and the idle time does not exceed it, unless the idle time
  is the largest 64-bit number.
\<close>

lemma cpu_idle_within_total:
  assumes "parse_cpu_counters contents src = Inr c"
  shows "cpu_idle c \<le> cpu_total c \<or> cpu_idle c = uint64_max"
  using assms
proof (cases rule: parse_cpu_counters_InrE)
  case (1 slots n input)
  have rest: "slots ! 4 \<in> {0, uint64_max}" if "n = 4"
    using read_fields_rest [OF 1(2)] that by simp
  obtain s0 s1 s2 s3 s4 fs' where slots: "slots = s0 # s1 # s2 # s3 # s4 # fs'"
    using 1(3) by (auto simp: length_Suc_conv eval_nat_numeral)
  have total4: "sum_list (map unat (take n slots)) = unat s0 + unat s1 + unat s2 + unat s3" if "n = 4"
    using that by (simp add: slots)
  have total5: "unat s3 + unat s4 \<le> sum_list (map unat (take n slots))" if "5 \<le> n"
    using le_Suc_ex [OF that] by (auto simp: slots eval_nat_numeral)
  show ?thesis
  proof (cases "n = 4 \<and> slots ! 4 = uint64_max")
    case True
    have "unat (slots ! 3) + unat (slots ! 4) < 2 ^ 64" using 1(7) unat_uint64_less [of "cpu_idle c"] by simp
    with True have "unat (cpu_idle c) = unat uint64_max" using 1(7) by (simp add: unat_uint64_max)
    then show ?thesis using unsigned_word_eqI [of "cpu_idle c" uint64_max] by blast
  next
    case False
    then have "unat (cpu_idle c) \<le> unat (cpu_total c)"
      using rest total4 total5 1(4) unfolding 1(6,7) by (cases "n = 4") (auto simp: slots)
    then show ?thesis by (simp add: word_le_nat_alt)
  qed
qed



lemma unat_of_nat64: "n < 2 ^ 64 \<Longrightarrow> unat (of_nat n :: uint64) = n"
  by (simp add: unat_of_nat take_bit_nat_eq_self)

lemma percentage_nat:
  assumes "a \<le> b" "0 < b" "b < 2 ^ 46" "b * 2 ^ k < 2 ^ 64"
  shows "f64_real (f64_div (f64_mul (f64_of_nat 100) (f64_of_nat (a * 2 ^ k))) (f64_of_nat (b * 2 ^ k))) =
    f64_srnd (100 * real a / real b)"
proof -
  have "a * 2 ^ k \<le> b * 2 ^ k" using assms(1) by simp
  then have "a * 2 ^ k < 2 ^ 64" using assms(4) by (rule le_less_trans)
  then have u: "unat (of_nat (a * 2 ^ k) :: uint64) = a * 2 ^ k" "unat (of_nat (b * 2 ^ k) :: uint64) = b * 2 ^ k"
    using assms(4) by (simp_all only: unat_of_nat64)
  from percentage_value(2) [OF u assms(1-3)] show ?thesis by (simp only: percentage_def u)
qed

lemma percent_range:
  assumes "a \<le> b" "0 < b"
  shows "f64_srnd (100 * real a / real b) \<in> {0..100}"
proof -
  have le: "0 \<le> 100 * real a / real b" "100 * real a / real b \<le> 100"
    using assms by (simp_all add: divide_le_eq)
  have "f64_srnd 100 = 100" "f64_srnd 0 = 0" using f64_srnd_int [of 100] f64_srnd_int [of 0] by simp_all
  then show ?thesis using f64_srnd_mono [OF le(1)] f64_srnd_mono [OF le(2)] by simp
qed

lemma f64_of_nat_exact:
  assumes "m < 2 ^ 53" "k \<le> 64"
  shows "f64_real (f64_of_nat (m * 2 ^ k)) = real m * 2 ^ k"
proof -
  have "m * 2 ^ k < 2 ^ 53 * 2 ^ k" using assms(1) by simp
  also have "(2::nat) ^ 53 * 2 ^ k \<le> 2 ^ 53 * 2 ^ 64" using assms(2) by (intro mult_left_mono power_increasing) simp_all
  also have "\<dots> < (2::nat) ^ 1000" by simp
  finally have "f64_real (f64_of_nat (m * 2 ^ k)) = f64_rnd (real (m * 2 ^ k))" by (rule f64_of_nat_value)
  then show ?thesis using f64_rnd_exact [OF assms(1), of "int k"] by simp
qed

text \<open>What the counters must have done between two samples for the usage to be defined.\<close>

definition counters_advance :: "cpu_counters \<Rightarrow> cpu_counters \<Rightarrow> bool" where
  "counters_advance p q \<longleftrightarrow> unat (cpu_total p) < unat (cpu_total q) \<and> unat (cpu_idle p) \<le> unat (cpu_idle q) \<and>
     unat (cpu_idle q) - unat (cpu_idle p) \<le> unat (cpu_total q) - unat (cpu_total p)"

definition usage_of :: "cpu_counters \<Rightarrow> cpu_counters \<Rightarrow> f64" where
  "usage_of p q = percentage ((cpu_total q - cpu_total p) - (cpu_idle q - cpu_idle p)) (cpu_total q - cpu_total p)"

lemma counters_advance_words:
  "counters_advance p q \<longleftrightarrow> \<not> (cpu_total q \<le> cpu_total p \<or> cpu_idle q < cpu_idle p) \<and>
     \<not> cpu_idle q - cpu_idle p > cpu_total q - cpu_total p"
  by (auto simp: counters_advance_def word_le_nat_alt word_less_nat_alt unat_sub not_le)

lemma update_cpu_eq:
  "update_cpu c q ms ts =
    ((case previous_cpu_counters c of None \<Rightarrow> Inr ms
      | Some p \<Rightarrow> if counters_advance p q then Inr (make_metric ''cpu_usage_percent'' (usage_of p q) ts # ms)
                 else Inl (collection_error InvalidCounterDelta ''calculate_cpu_usage'' (stat_source c) True)),
     c\<lparr>previous_cpu_counters := Some q\<rparr>)"
  by (auto simp: update_cpu_def counters_advance_words usage_of_def Let_def split: option.split)

lemma usage_of_value:
  assumes "counters_advance p q" "unat (cpu_total q) - unat (cpu_total p) < 2 ^ 46"
  shows "f64_real (usage_of p q) =
      f64_srnd (100 * real ((unat (cpu_total q) - unat (cpu_total p)) - (unat (cpu_idle q) - unat (cpu_idle p))) /
        real (unat (cpu_total q) - unat (cpu_total p)))"
    "0 \<le> f64_real (usage_of p q)" "f64_real (usage_of p q) \<le> 100"
proof -
  let ?t = "unat (cpu_total q) - unat (cpu_total p)" and ?i = "unat (cpu_idle q) - unat (cpu_idle p)"
  from assms(1) have le: "cpu_total p \<le> cpu_total q" "cpu_idle p \<le> cpu_idle q" and pos: "0 < ?t" "?i \<le> ?t"
    by (simp_all add: counters_advance_def word_le_nat_alt)
  then have d: "unat (cpu_total q - cpu_total p) = ?t" "unat (cpu_idle q - cpu_idle p) = ?i"
    by (simp_all add: unat_sub)
  then have "cpu_idle q - cpu_idle p \<le> cpu_total q - cpu_total p" using pos by (simp add: word_le_nat_alt)
  then have "unat ((cpu_total q - cpu_total p) - (cpu_idle q - cpu_idle p)) = (?t - ?i) * 2 ^ 0"
    by (simp add: unat_sub d)
  moreover have "unat (cpu_total q - cpu_total p) = ?t * 2 ^ 0" using d by simp
  ultimately show "f64_real (usage_of p q) = f64_srnd (100 * real (?t - ?i) / real ?t)"
    "0 \<le> f64_real (usage_of p q)" "f64_real (usage_of p q) \<le> 100"
    unfolding usage_of_def using percentage_value(2-4) [OF _ _ _ pos(1) assms(2)] by (metis diff_le_self)+
qed

text \<open>A reader of a small system whose counters grow with every read.\<close>

definition example_rows :: "meminfo_row list" where
  "example_rows = [\<lparr>row_key = ''MemTotal:'', row_blank = ''   '', row_value = 16384, row_tail = '' kB''\<rparr>,
     \<lparr>row_key = ''MemAvailable:'', row_blank = '' '', row_value = 4096, row_tail = '' kB''\<rparr>]"

definition example_fields :: "nat \<Rightarrow> (string \<times> nat) list" where
  "example_fields w = [('' '', 10 + w), ('' '', 0), ('' '', 5), ('' '', 80 + w), ('' '', 5)]"

definition example_files :: "nat \<Rightarrow> string \<Rightarrow> string option \<times> nat" where
  "example_files w source = (Some (if source = ''/proc/stat'' then render_stat (example_fields w) ''intr 7''
     else render_meminfo example_rows), Suc w)"

definition example_reader :: "nat \<Rightarrow> string \<Rightarrow> (metric_collection_error + string) \<times> nat" where
  "example_reader = read_source example_files"

lemma example_reader_eq:
  "example_reader w source = (Inr (if source = ''/proc/stat'' then render_stat (example_fields w) ''intr 7''
     else render_meminfo example_rows), Suc w)"
  by (simp add: example_reader_def read_source_def example_files_def)

lemmas example_sources = example_reader_eq example_rows_def example_fields_def blank_def no_number_def is_space_def
  is_digit_def row_ok_def mem_total_key_def mem_available_key_def reported_def

lemma example_rows_ok: "list_all row_ok example_rows"
  by (simp add: example_sources)

lemma example_memory: "\<exists>ms. parse_memory_metrics (render_meminfo example_rows) src t = Inr ms"
  unfolding memory_table_metrics [OF example_rows_ok] by (simp add: example_sources)

lemma example_counters:
  assumes "w < 1000"
  obtains q where "parse_cpu_counters (render_stat (example_fields w) ''intr 7'') ''/proc/stat'' = Inr q"
    "unat (cpu_total q) = 100 + 2 * w" "unat (cpu_idle q) = 85 + w"
  using cpu_line_counters [of "example_fields w" "''intr 7''" "''/proc/stat''"] assms
  by (auto simp: example_sources)

lemma example_sample:
  "\<exists>q ms. proc_collect example_reader (new_proc_collector, 0) t =
     (Inr ms, new_proc_collector\<lparr>previous_cpu_counters := Some q\<rparr>, 2) \<and> unat (cpu_total q) = 100 \<and> unat (cpu_idle q) = 85"
proof -
  obtain q where q: "parse_cpu_counters (render_stat (example_fields 0) ''intr 7'') ''/proc/stat'' = Inr q"
    "unat (cpu_total q) = 100" "unat (cpu_idle q) = 85" using example_counters [of 0] by auto
  obtain ms where m: "parse_memory_metrics (render_meminfo example_rows) ''/proc/meminfo'' (to_milliseconds t) = Inr ms"
    using example_memory by blast
  have "example_reader 0 ''/proc/stat'' = (Inr (render_stat (example_fields 0) ''intr 7''), 1)"
    "example_reader 1 ''/proc/meminfo'' = (Inr (render_meminfo example_rows), 2)"
    by (simp_all add: example_reader_eq)
  then have "proc_collect example_reader (new_proc_collector, 0) t =
     (Inr ms, new_proc_collector\<lparr>previous_cpu_counters := Some q\<rparr>, 2)"
    by (simp add: proc_collect_def new_proc_collector_def proc_collector_with_def q(1) m update_cpu_eq)
  with q show ?thesis by blast
qed

lemma sample_parts:
  assumes "proc_collect source_reader (c, w) t = (Inr ms, c', w')"
  shows "map m_name ms = (if previous_cpu_counters c = None then [] else [''cpu_usage_percent'']) @
      [''memory_used_bytes'', ''memory_available_bytes'', ''memory_usage_percent''] \<and>
    (\<forall>m \<in> set ms. isfinite (m_value m) \<and> m_timestamp_ms m = to_milliseconds t \<and> m_tags m = []) \<and>
    previous_cpu_counters c' \<noteq> None"
proof -
  from assms show ?thesis
  proof (cases rule: proc_collect_cases)
    case (parsed stat w1 mem q mem_ms)
    from parsed(4) obtain total_kb available_kb where "mem_ms = memory_metrics total_kb available_kb (to_milliseconds t)"
      by (rule parse_memory_metrics_InrE)
    with parsed(5) proc_collect_metrics [OF assms] show ?thesis
      by (auto simp: update_cpu_eq memory_metrics_def Let_def make_metric_def default_metric_def
          split: option.splits if_splits)
  qed simp
qed

text \<open>
  C39: Every sample is well-formed. The metrics are the memory values in a fixed order, preceded by the CPU usage exactly
  when there was a baseline; all of them are finite, untagged and carry the one timestamp of the call, and the baseline
  is set afterwards.
\<close>

theorem proc_sample_shape:
  assumes "proc_collect source_reader (c, w) t = (Inr ms, c', w')"
  shows "map m_name ms = (if previous_cpu_counters c = None then [] else [''cpu_usage_percent'']) @
      [''memory_used_bytes'', ''memory_available_bytes'', ''memory_usage_percent''] \<and>
    (\<forall>m \<in> set ms. isfinite (m_value m) \<and> m_timestamp_ms m = to_milliseconds t \<and> m_tags m = []) \<and>
    previous_cpu_counters c' \<noteq> None"
  using assms by (rule sample_parts)

theorem proc_sample_shape_witness:
  "\<exists>ms c'. proc_collect example_reader (new_proc_collector, 0) 0 = (Inr ms, c', 2) \<and>
    map m_name ms = [''memory_used_bytes'', ''memory_available_bytes'', ''memory_usage_percent''] \<and>
    (\<forall>m \<in> set ms. isfinite (m_value m) \<and> m_timestamp_ms m = to_milliseconds 0 \<and> m_tags m = []) \<and>
    previous_cpu_counters c' \<noteq> None"
proof -
  from example_sample [of 0] obtain ms c' where r: "proc_collect example_reader (new_proc_collector, 0) 0 = (Inr ms, c', 2)"
    by blast
  from proc_sample_shape [OF r] r show ?thesis by (simp add: new_proc_collector_def proc_collector_with_def)
qed







text \<open>
  C4: One sample end to end. When the readers deliver a kernel's \<open>/proc/stat\<close> and \<open>/proc/meminfo\<close>, the counters
  have advanced by less than \<open>2 ^ 46\<close> since the baseline, and the memory table is valid and below \<open>2 ^ 46\<close> kB, the
  sample succeeds; the CPU usage and the memory usage are the exact percentages rounded once, between 0 and
  100, and the byte counts are exact.
\<close>

theorem proc_sample_exact:
  assumes "source_reader w (stat_source c) = (Inr (render_stat fs rest), w1)"
    "source_reader w1 (meminfo_source c) = (Inr (render_meminfo rows), w2)"
    "\<forall>f \<in> set fs. blank (fst f)" "5 \<le> length fs" "sum_list (map snd (take 8 fs)) < 2 ^ 64"
    "\<forall>f \<in> set fs. snd f < 2 ^ 64" "length fs < 8 \<longrightarrow> no_number rest"
    "list_all row_ok rows" "reported mem_total_key rows = Some total_kb" "reported mem_available_key rows = Some available_kb"
    "0 < total_kb" "available_kb \<le> total_kb" "total_kb < 2 ^ 46"
    "previous_cpu_counters c = Some p"
    "unat (cpu_total p) + dt = sum_list (map snd (take 8 fs))" "unat (cpu_idle p) + di = snd (fs ! 3) + snd (fs ! 4)"
    "di \<le> dt" "0 < dt" "dt < 2 ^ 46"
  shows "\<exists>cpu used available usage c'. proc_collect source_reader (c, w) t = (Inr [cpu, used, available, usage], c', w2) \<and>
    f64_real (m_value cpu) = f64_srnd (100 * real (dt - di) / real dt) \<and> f64_real (m_value cpu) \<in> {0..100} \<and>
    f64_real (m_value used) = real ((total_kb - available_kb) * 1024) \<and>
    f64_real (m_value available) = real (available_kb * 1024) \<and>
    f64_real (m_value usage) = f64_srnd (100 * real (total_kb - available_kb) / real total_kb) \<and>
    f64_real (m_value usage) \<in> {0..100}"
proof -
  obtain q where q: "parse_cpu_counters (render_stat fs rest) (stat_source c) = Inr q"
    "unat (cpu_total q) = unat (cpu_total p) + dt" "unat (cpu_idle q) = unat (cpu_idle p) + di"
    using cpu_line_counters [OF assms(3) _ assms(5-7), of "stat_source c"] assms(4,15,16) by auto
  have adv: "counters_advance p q" using assms(17,18) by (simp add: counters_advance_def q)
  let ?ts = "to_milliseconds t" and ?used = "(total_kb - available_kb) * 1024"
  let ?ms = "[make_metric ''memory_used_bytes'' (f64_of_nat ?used) ?ts,
      make_metric ''memory_available_bytes'' (f64_of_nat (available_kb * 1024)) ?ts,
      make_metric ''memory_usage_percent'' (f64_div (f64_mul (f64_of_nat 100) (f64_of_nat ?used)) (f64_of_nat (total_kb * 1024))) ?ts]"
  have mem: "parse_memory_metrics (render_meminfo rows) (meminfo_source c) ?ts = Inr ?ms"
    using assms(11-13) unfolding memory_table_metrics [OF assms(8)] assms(9,10) by simp
  have run: "proc_collect source_reader (c, w) t =
      (Inr (make_metric ''cpu_usage_percent'' (usage_of p q) ?ts # ?ms), c\<lparr>previous_cpu_counters := Some q\<rparr>, w2)"
    by (simp add: proc_collect_def assms(1,2,14) q(1) mem update_cpu_eq adv)
  have cpu: "f64_real (usage_of p q) = f64_srnd (100 * real (dt - di) / real dt)" "f64_real (usage_of p q) \<in> {0..100}"
    using usage_of_value [OF adv] assms(19) by (simp_all add: q)
  have used: "f64_real (f64_of_nat ?used) = real ?used" "f64_real (f64_of_nat (available_kb * 1024)) = real (available_kb * 1024)"
    using f64_of_nat_exact [of "total_kb - available_kb" 10] f64_of_nat_exact [of available_kb 10] assms(12,13) by simp_all
  have b: "total_kb - available_kb \<le> total_kb" "total_kb * 2 ^ 10 < 2 ^ 64" using assms(13) by simp_all
  note u = percentage_nat [OF b(1) assms(11,13) b(2)]
  show ?thesis
    by (intro exI conjI, rule run) (use cpu used u percent_range [OF b(1) assms(11)] in simp_all)
qed

theorem proc_sample_exact_witness:
  "\<exists>cpu used available usage c'. proc_collect example_reader
      (new_proc_collector\<lparr>previous_cpu_counters := Some \<lparr>cpu_total = 60, cpu_idle = 65\<rparr>\<rparr>, 0) 0 =
      (Inr [cpu, used, available, usage], c', 2) \<and>
    f64_real (m_value cpu) = 50 \<and> f64_real (m_value used) = 12582912 \<and>
    f64_real (m_value available) = 4194304 \<and> f64_real (m_value usage) = 75"
proof -
  have "f64_srnd 50 = 50" "f64_srnd 75 = 75" using f64_srnd_int [of 50] f64_srnd_int [of 75] by simp_all
  with proc_sample_exact [where source_reader = example_reader and w = 0 and ?w1.0 = 1 and ?w2.0 = 2 and t = 0
      and c = "new_proc_collector\<lparr>previous_cpu_counters := Some \<lparr>cpu_total = 60, cpu_idle = 65\<rparr>\<rparr>"
      and fs = "example_fields 0" and rest = "''intr 7''" and rows = example_rows
      and total_kb = 16384 and available_kb = 4096 and dt = 40 and di = 20 and p = "\<lparr>cpu_total = 60, cpu_idle = 65\<rparr>"]
  show ?thesis by (simp add: example_sources new_proc_collector_def proc_collector_with_def) blast
qed

end
