(* ===== verification/Collector_Smoke.thy ===== *)
theory Collector_Smoke
  imports Proc_Properties
begin

text \<open>
  The smoke program (\<open>cpp/client/collector_smoke.cpp\<close>): one sample through the collector, the batch builder and
  the queue, twice, with what it prints. The readings of the clock and of the random device, the file system and
  what happens in the outside world during the sleep are arguments.
\<close>

section \<open>The program\<close>

datatype printed = Cout string | Cerr string

record 'w smoke =
  sm_collector :: proc_collector
  sm_builder :: batch_builder
  sm_queue :: batch_queue
  sm_world :: 'w
  sm_output :: "printed list"

definition newline :: string where "newline = [CHR 0x0A]"

definition print :: "printed \<Rightarrow> 'w smoke \<Rightarrow> 'w smoke" where
  "print p s = s\<lparr>sm_output := sm_output s @ [p]\<rparr>"

definition collect_and_enqueue :: "('w \<Rightarrow> string \<Rightarrow> (metric_collection_error + string) \<times> 'w)
    \<Rightarrow> int \<Rightarrow> 'w smoke \<Rightarrow> bool \<times> 'w smoke" where
  "collect_and_enqueue source_reader now s =
     (case proc_collect source_reader (sm_collector s, sm_world s) now of (r, c, w) \<Rightarrow>
        let s1 = s\<lparr>sm_collector := c, sm_world := w\<rparr>
        in case r of
          Inl e \<Rightarrow> (False, print (Cerr (''[CollectorSmoke] collection failed: '' @ mc_operation e @ '' ('' @
                     mc_source e @ '')'' @ newline)) s1)
        | Inr metrics \<Rightarrow>
          (case build (sm_builder s1) metrics of (rb, b) \<Rightarrow>
            let s2 = s1\<lparr>sm_builder := b\<rparr>
            in case rb of
              Inl e \<Rightarrow> (False, print (Cerr (''[CollectorSmoke] batch creation failed'' @ newline)) s2)
            | Inr batch \<Rightarrow>
              (case enqueue (sm_queue s2) batch of (rq, q) \<Rightarrow>
                let s3 = s2\<lparr>sm_queue := q\<rparr>
                in if rq \<noteq> Enqueued
                   then (False, print (Cerr (''[CollectorSmoke] enqueue failed'' @ newline)) s3)
                   else (True, print (Cout (''[CollectorSmoke] batch_id='' @ b_batch_id batch @ '' metrics='' @
                           dec_string (length (b_metrics batch)) @ newline)) s3))))"

text \<open>\<open>main\<close>: the exit code and the final state.\<close>

definition smoke_start :: "uint32 \<Rightarrow> uint32 \<Rightarrow> 'w \<Rightarrow> 'w smoke" where
  "smoke_start first second w =
     \<lparr>sm_collector = new_proc_collector, sm_builder = new_builder ''collector-smoke'' first second,
      sm_queue = new_queue default_queue_capacity, sm_world = w, sm_output = []\<rparr>"

definition smoke_main :: "('w \<Rightarrow> string \<Rightarrow> string option \<times> 'w) \<Rightarrow> ('w \<Rightarrow> 'w)
    \<Rightarrow> uint32 \<Rightarrow> uint32 \<Rightarrow> int \<Rightarrow> int \<Rightarrow> 'w \<Rightarrow> nat \<times> 'w smoke" where
  "smoke_main open_file sleep first second now1 now2 w =
     (case collect_and_enqueue (read_source open_file) now1 (smoke_start first second w) of (ok1, s1) \<Rightarrow>
        if \<not> ok1 then (1, s1)
        else case collect_and_enqueue (read_source open_file) now2 (s1\<lparr>sm_world := sleep (sm_world s1)\<rparr>) of (ok2, s2) \<Rightarrow>
          if \<not> ok2 then (1, s2)
          else (0, print (Cout (''[CollectorSmoke] queued_batches='' @
                  dec_string (queue_size (sm_queue s2)) @ newline)) s2))"

section \<open>One round\<close>

text \<open>Room for the next batch of the builder.\<close>

definition has_slot :: "'w smoke \<Rightarrow> bool" where
  "has_slot s \<longleftrightarrow> bb_client_id (sm_builder s) \<noteq> [] \<and> queue_size (sm_queue s) < q_capacity (sm_queue s) \<and>
     (\<forall>e \<in> set (q_batches (sm_queue s)). entry_id e \<noteq> batch_id_of (sm_builder s) 0)"

definition queued :: "metric list \<Rightarrow> 'w smoke \<Rightarrow> 'w smoke" where
  "queued ms s =
     print (Cout (''[CollectorSmoke] batch_id='' @ batch_id_of (sm_builder s) 0 @ '' metrics='' @ dec_string (length ms) @ newline))
       (s\<lparr>sm_builder := (sm_builder s)\<lparr>bb_next_sequence := bb_next_sequence (sm_builder s) + 1\<rparr>,
          sm_queue := (sm_queue s)\<lparr>q_batches := q_batches (sm_queue s) @
            [\<lparr>pb_batch = \<lparr>b_client_id = bb_client_id (sm_builder s), b_metrics = ms,
               b_batch_id = batch_id_of (sm_builder s) 0\<rparr>, in_flight = False\<rparr>]\<rparr>\<rparr>)"

lemma enqueue_room:
  assumes "admissible batch" "queue_size q < q_capacity q" "\<forall>e \<in> set (q_batches q). entry_id e \<noteq> b_batch_id batch"
  shows "enqueue q batch = (Enqueued, q\<lparr>q_batches := q_batches q @ [\<lparr>pb_batch = batch, in_flight = False\<rparr>]\<rparr>)"
proof -
  have "find_if (\<lambda>e. entry_id e = b_batch_id batch) (q_batches q) = None" using assms(3) by simp
  with assms(1,2) show ?thesis
    by (simp add: enqueue_def admissible_def queue_size_def del: find_if_None)
qed

lemma round_collected:
  assumes "proc_collect source_reader (sm_collector s, sm_world s) now = (Inr ms, c, w)" "has_slot s"
  shows "collect_and_enqueue source_reader now s = (True, queued ms (s\<lparr>sm_collector := c, sm_world := w\<rparr>))"
proof -
  let ?batch = "\<lparr>b_client_id = bb_client_id (sm_builder s), b_metrics = ms, b_batch_id = batch_id_of (sm_builder s) 0\<rparr>"
  have b: "build (sm_builder s) ms =
      (Inr ?batch, (sm_builder s)\<lparr>bb_next_sequence := bb_next_sequence (sm_builder s) + 1\<rparr>)"
    using assms(2) by (intro proc.collected_batch [OF assms(1)]) (simp add: has_slot_def)
  have "admissible ?batch" using proc.collected_batch_admitted [OF assms(1) b] by blast
  note e = enqueue_room [OF this]
  show ?thesis
    using assms(2) e [of "sm_queue s"]
    by (simp add: collect_and_enqueue_def assms(1) b Let_def has_slot_def queued_def print_def)
qed

lemma round_failed:
  assumes "proc_collect source_reader (sm_collector s, sm_world s) now = (Inl e, c, w)"
  shows "collect_and_enqueue source_reader now s = (False, print (Cerr (''[CollectorSmoke] collection failed: '' @
    mc_operation e @ '' ('' @ mc_source e @ '')'' @ newline)) (s\<lparr>sm_collector := c, sm_world := w\<rparr>))"
  by (simp add: collect_and_enqueue_def assms Let_def)

lemma start_room: "has_slot (smoke_start first second w)"
  by (simp add: has_slot_def smoke_start_def new_builder_def builder_with_nonce_def new_queue_def queue_size_def
      default_queue_capacity_def)

lemma second_room: "has_slot ((queued ms ((smoke_start first second w)\<lparr>sm_collector := c, sm_world := w1\<rparr>))\<lparr>sm_world := w2\<rparr>)"
proof -
  have "batch_id_of b 0 \<noteq> batch_id_of b (Suc 0)" for b
    using sequence_inj [of 0 "Suc 0" "bb_next_sequence b"] unfolding batch_id_of_def batch_id_inject by auto
  then show ?thesis
    by (simp add: has_slot_def queued_def print_def smoke_start_def new_builder_def builder_with_nonce_def new_queue_def
        queue_size_def default_queue_capacity_def batch_id_of_def)
qed

section \<open>Properties\<close>

definition smoke_id :: "uint32 \<Rightarrow> uint32 \<Rightarrow> nat \<Rightarrow> string" where
  "smoke_id first second k =
     ''collector-smoke-'' @ hex16_string (make_session_nonce first second) @ ''-'' @ dec_string k"

definition smoke_line :: "uint32 \<Rightarrow> uint32 \<Rightarrow> nat \<Rightarrow> string \<Rightarrow> printed" where
  "smoke_line first second k metrics =
     Cout (''[CollectorSmoke] batch_id='' @ smoke_id first second k @ '' metrics='' @ metrics @ newline)"

definition smoke_failure :: "metric_collection_error \<Rightarrow> printed" where
  "smoke_failure e = Cerr (''[CollectorSmoke] collection failed: '' @ mc_operation e @ '' ('' @ mc_source e @ '')'' @ newline)"

definition smoke_batch :: "uint32 \<Rightarrow> uint32 \<Rightarrow> nat \<Rightarrow> metric list \<Rightarrow> metric_batch" where
  "smoke_batch first second k ms =
     \<lparr>b_client_id = ''collector-smoke'', b_metrics = ms, b_batch_id = smoke_id first second k\<rparr>"

lemma dec_small: "dec_string (Suc (Suc 0)) = ''2''" "dec_string 3 = ''3''" "dec_string 4 = ''4''"
  by code_simp+

lemma sample_count:
  assumes "proc_collect source_reader (c, w) t = (Inr ms, c', w')"
  shows "length ms = (if previous_cpu_counters c = None then 3 else 4)" "previous_cpu_counters c' \<noteq> None"
proof -
  note p = sample_parts [OF assms]
  have "length (map m_name ms) = (if previous_cpu_counters c = None then 3 else 4)"
    unfolding conjunct1 [OF p] by simp
  then show "length ms = (if previous_cpu_counters c = None then 3 else 4)" by simp
  show "previous_cpu_counters c' \<noteq> None" using p by blast
qed

lemma smoke_ids:
  "batch_id_of (new_builder ''collector-smoke'' first second) 0 = smoke_id first second 1"
  "batch_id_of ((new_builder ''collector-smoke'' first second)\<lparr>bb_next_sequence := 2\<rparr>) 0 = smoke_id first second 2"
  by (simp_all add: batch_id_of_def smoke_id_def new_builder_def builder_with_nonce_def)

lemma new_builder_parts [simp]:
  "bb_client_id (new_builder client first second) = client" "bb_next_sequence (new_builder client first second) = 1"
  by (simp_all add: new_builder_def builder_with_nonce_def)

text \<open>
  C29: What the smoke program does. When both samples succeed it prints the IDs of two batches, of three and of four
  metrics, reports two queued batches and exits with 0, and the queue holds exactly these two batches, pending, with
  different IDs: neither the builder nor the queue can fail. When a sample fails it reports
  that sample's error and exits with 1, with the batches of the samples before it in the queue.
\<close>

theorem smoke_main_outcome:
  assumes "proc_collect (read_source open_file) (new_proc_collector, w) t1 = (r1, c1, w1)"
    "proc_collect (read_source open_file) (c1, sleep w1) t2 = (r2, c2, w2)"
    "smoke_main open_file sleep first second t1 t2 w = (code, s)"
  shows "case r1 of
      Inl e \<Rightarrow> code = 1 \<and> sm_output s = [smoke_failure e] \<and> q_batches (sm_queue s) = []
    | Inr ms1 \<Rightarrow>
       (case r2 of
          Inl e \<Rightarrow> code = 1 \<and> sm_output s = [smoke_line first second 1 ''3'', smoke_failure e] \<and>
            q_batches (sm_queue s) = entries [] [smoke_batch first second 1 ms1]
        | Inr ms2 \<Rightarrow> code = 0 \<and>
            sm_output s = [smoke_line first second 1 ''3'', smoke_line first second 2 ''4'',
              Cout (''[CollectorSmoke] queued_batches=2'' @ newline)] \<and>
            q_batches (sm_queue s) = entries [] [smoke_batch first second 1 ms1, smoke_batch first second 2 ms2] \<and>
            smoke_id first second 1 \<noteq> smoke_id first second 2)"
proof (cases r1)
  case (Inl e)
  let ?s0 = "smoke_start first second w"
  have "collect_and_enqueue (read_source open_file) t1 ?s0 = (False, print (smoke_failure e) (?s0\<lparr>sm_collector := c1, sm_world := w1\<rparr>))"
    unfolding smoke_failure_def using assms(1) Inl by (intro round_failed) (simp add: smoke_start_def)
  with assms(3) Inl show ?thesis
    by (auto simp: smoke_main_def print_def smoke_start_def new_queue_def)
next
  case (Inr ms1)
  let ?s0 = "(smoke_start first second w)\<lparr>sm_collector := c1, sm_world := w1\<rparr>"
  let ?s1 = "(queued ms1 ?s0)\<lparr>sm_world := sleep w1\<rparr>"
  have one: "collect_and_enqueue (read_source open_file) t1 (smoke_start first second w) = (True, queued ms1 ?s0)"
    using assms(1) Inr by (intro round_collected start_room) (simp add: smoke_start_def)
  have n1: "length ms1 = 3" "previous_cpu_counters c1 \<noteq> None"
    using sample_count [OF assms(1) [unfolded Inr]] by (simp_all add: new_proc_collector_def proc_collector_with_def)
  have w: "sm_world (queued ms1 ?s0) = w1" by (simp add: queued_def print_def)
  have two: "proc_collect (read_source open_file) (sm_collector ?s1, sm_world ?s1) t2 = (r2, c2, w2)"
    using assms(2) by (simp add: queued_def print_def)
  note facts = smoke_main_def queued_def print_def smoke_start_def new_queue_def entries_def smoke_line_def smoke_batch_def
    smoke_ids new_builder_parts queue_size_def dec_small
  show ?thesis
  proof (cases r2)
    case inl: (Inl e)
    note two' = round_failed [OF two [unfolded inl], folded smoke_failure_def]
    from assms(3) one two' w show ?thesis
      by (simp add: Inr inl) (auto simp: facts n1)
  next
    case inr: (Inr ms2)
    note two' = round_collected [OF two [unfolded inr] second_room]
    have n2: "length ms2 = 4" using sample_count(1) [OF assms(2) [unfolded inr]] n1(2) by simp
    have "smoke_id first second 1 \<noteq> smoke_id first second 2"
      by (simp add: smoke_id_def)
    with assms(3) one two' w show ?thesis
      by (simp add: Inr inr) (auto simp: facts n1 n2)
  qed
qed

lemma example_second_sample:
  assumes "unat (cpu_total q) = 100" "unat (cpu_idle q) = 85"
  shows "\<exists>ms c'. proc_collect example_reader (new_proc_collector\<lparr>previous_cpu_counters := Some q\<rparr>, 2) t = (Inr ms, c', 4)"
proof -
  obtain q' where q: "parse_cpu_counters (render_stat (example_fields 2) ''intr 7'') ''/proc/stat'' = Inr q'"
    "unat (cpu_total q') = 104" "unat (cpu_idle q') = 87" using example_counters [of 2] by auto
  obtain ms where m: "parse_memory_metrics (render_meminfo example_rows) ''/proc/meminfo'' (to_milliseconds t) = Inr ms"
    using example_memory by blast
  have "example_reader 2 ''/proc/stat'' = (Inr (render_stat (example_fields 2) ''intr 7''), 3)"
    "example_reader 3 ''/proc/meminfo'' = (Inr (render_meminfo example_rows), 4)"
    by (simp_all add: example_reader_eq)
  moreover have "counters_advance q q'" using assms q by (simp add: counters_advance_def)
  ultimately show ?thesis
    by (simp add: proc_collect_def new_proc_collector_def proc_collector_with_def q(1) m update_cpu_eq)
qed

theorem smoke_main_outcome_witness:
  "\<exists>s. smoke_main example_files id 1 2 0 100000000 0 = (0, s) \<and>
     map entry_id (q_batches (sm_queue s)) = [smoke_id 1 2 1, smoke_id 1 2 2]"
proof -
  obtain q ms1 where one: "proc_collect example_reader (new_proc_collector, 0) 0 =
      (Inr ms1, new_proc_collector\<lparr>previous_cpu_counters := Some q\<rparr>, 2)"
    and q: "unat (cpu_total q) = 100" "unat (cpu_idle q) = 85" using example_sample [of 0] by blast
  obtain ms2 c2 where two: "proc_collect example_reader (new_proc_collector\<lparr>previous_cpu_counters := Some q\<rparr>, id 2) 100000000 =
      (Inr ms2, c2, 4)" using example_second_sample [OF q, of 100000000] by auto
  obtain code s where run: "smoke_main example_files id 1 2 0 100000000 0 = (code, s)" by fastforce
  from smoke_main_outcome [OF one [unfolded example_reader_def] two [unfolded example_reader_def] run] run show ?thesis by (simp add: smoke_batch_def)
qed

end
