(* ===== verification/Sample_Pipeline.thy ===== *)
theory Sample_Pipeline
  imports Delivery Collector_Smoke
begin

text \<open>
  From the collector to the query: a sample that is collected, built into a batch and committed is what the latest
  query of the aggregator answers.
\<close>

section \<open>The newest sample of a metric\<close>

lemma map_samples: "map s_metric (samples hist n) = filter (\<lambda>m. m_name m = n) hist"
proof -
  have "map s_metric (stored_of hist) = hist" by (simp add: stored_of_def comp_def map_nth)
  then show ?thesis using filter_map [of "\<lambda>m. m_name m = n" s_metric "stored_of hist"]
    by (simp add: samples_def comp_def)
qed

lemma samples_batch:
  assumes "m \<in> set ms" "distinct (map m_name ms)"
  shows "\<exists>i. int (length hist) < i \<and> samples (hist @ map (owned c) ms) (m_name m) =
    samples hist (m_name m) @ [\<lparr>s_metric = owned c m, s_event_id = i\<rparr>]"
proof -
  obtain before later where ms: "ms = before @ m # later" using assms(1) by (meson split_list)
  have out: "m_name m \<notin> m_name ` set (map (owned c) before)" "m_name m \<notin> m_name ` set (map (owned c) later)"
    using assms(2) by (auto simp: ms)
  have "samples (hist @ map (owned c) ms) (m_name m) = samples ((hist @ map (owned c) before) @ [owned c m]) (m_name m)"
    using samples_untouched [OF out(2), of "(hist @ map (owned c) before) @ [owned c m]"] by (simp add: ms)
  also have "\<dots> = samples hist (m_name m) @ [\<lparr>s_metric = owned c m, s_event_id = int (length hist + length before) + 1\<rparr>]"
    using samples_untouched [OF out(1), of hist] samples_snoc [of "hist @ map (owned c) before" "owned c m" "m_name m"] by simp
  finally show ?thesis by (intro exI [of _ "int (length hist + length before) + 1"]) simp
qed

text \<open>The committed samples of a metric that are younger than a time.\<close>

definition younger :: "metric list \<Rightarrow> string \<Rightarrow> int \<Rightarrow> metric list" where
  "younger hist n t = filter (\<lambda>x. m_name x = n \<and> t < m_timestamp_ms x) hist"

lemma younger_samples:
  "younger hist n t = map s_metric (filter (\<lambda>s. t < m_timestamp_ms (s_metric s)) (samples hist n))"
proof -
  have "younger hist n t = filter (\<lambda>x. t < m_timestamp_ms x) (filter (\<lambda>m. m_name m = n) hist)"
    by (simp add: younger_def conj_commute)
  then show ?thesis by (simp add: map_samples [symmetric] filter_map comp_def)
qed

text \<open>
  When the newest event of a log is retained, and when it is the last of its client: both depend on the younger
  samples only.
\<close>

lemma newest_event:
  assumes "xs = samples hist' n" "xs = samples hist n @ [s]" "int (length hist) < s_event_id s"
  shows "s \<in> set (retained cap xs) \<longleftrightarrow> length (younger hist n (m_timestamp_ms (s_metric s))) < cap"
    "\<forall>x \<in> set xs. key_of s < key_of x \<longleftrightarrow> x \<in> set (samples hist n) \<and> m_timestamp_ms (s_metric s) < m_timestamp_ms (s_metric x)"
proof -
  have gt: "key_of s < key_of x \<longleftrightarrow> m_timestamp_ms (s_metric s) < m_timestamp_ms (s_metric x)"
    if "x \<in> set (samples hist n)" for x
  proof -
    have "s_event_id x < s_event_id s" using that set_stored_ofD [of x hist] assms(3) by (auto simp: samples_def)
    then show ?thesis by (auto simp: key_of_def less_sample_key_def)
  qed
  then show "\<forall>x \<in> set xs. key_of s < key_of x \<longleftrightarrow>
      x \<in> set (samples hist n) \<and> m_timestamp_ms (s_metric s) < m_timestamp_ms (s_metric x)"
    by (auto simp: assms(2))
  have "filter (\<lambda>x. key_of s < key_of x) xs =
      filter (\<lambda>x. m_timestamp_ms (s_metric s) < m_timestamp_ms (s_metric x)) (samples hist n)"
    using gt by (simp add: assms(2) cong: filter_cong)
  moreover have "s \<in> set xs" by (simp add: assms(2))
  ultimately show "s \<in> set (retained cap xs) \<longleftrightarrow> length (younger hist n (m_timestamp_ms (s_metric s))) < cap"
    using in_retained_samples [of s cap hist' n] by (simp add: assms(1) [symmetric] younger_samples)
qed

lemma last_of_client:
  assumes "xs = samples hist' n" "xs = samples hist n @ [s]" "int (length hist) < s_event_id s"
    "F = filter (\<lambda>x. m_source_client_id (s_metric x) = m_source_client_id (s_metric s)) (retained cap xs)"
    "Y = younger hist n (m_timestamp_ms (s_metric s))"
  shows "F \<noteq> [] \<and> s_metric (last F) = s_metric s \<longleftrightarrow>
    length Y < cap \<and> (\<forall>x \<in> set Y. m_source_client_id x \<noteq> m_source_client_id (s_metric s))"
    (is "?answer \<longleftrightarrow> ?free")
proof -
  note new = newest_event [OF assms(1-3)]
  have mem: "s \<in> set (retained cap xs) \<longleftrightarrow> length Y < cap" using new(1) by (simp add: assms(5))
  have R: "set (retained cap xs) \<subseteq> set xs" "sorted (map key_of F)"
    unfolding assms(4) by (rule retained_facts sorted_filter [OF retained_facts(1)])+
  have s: "s \<in> set xs" by (simp add: assms(2))
  have same: "x = s" if "x \<in> set xs" "key_of x = key_of s" for x
    using inj_onD [OF samples_key_inj [of hist' n]] that s unfolding assms(1) by blast
  have last: "last F \<in> set (retained cap xs) \<and> m_source_client_id (s_metric (last F)) = m_source_client_id (s_metric s)"
    if "F \<noteq> []" using last_in_set [OF that] by (simp add: assms(4))
  show ?thesis
  proof
    assume free: ?free
    with mem have F: "s \<in> set F" by (simp add: assms(4))
    then have "F \<noteq> []" by auto
    have "\<not> key_of s < key_of (last F)"
    proof
      assume gt: "key_of s < key_of (last F)"
      have "last F \<in> set xs" using last [OF \<open>F \<noteq> []\<close>] R(1) by blast
      with new(2) gt have "s_metric (last F) \<in> set Y" by (auto simp: assms(5) younger_samples)
      with free last [OF \<open>F \<noteq> []\<close>] show False by blast
    qed
    with sorted_last [OF R(2) F] have "key_of (last F) = key_of s" by simp
    then have "last F = s" using same last [OF \<open>F \<noteq> []\<close>] R(1) by blast
    with \<open>F \<noteq> []\<close> show ?answer by simp
  next
    assume ?answer
    then have l: "last F \<in> set (retained cap xs)" "s_metric (last F) = s_metric s" using last by blast+
    have "\<not> key_of s < key_of (last F)" using new(2) l R(1) by auto
    then have le: "key_of (last F) \<le> key_of s" by simp
    have "s \<in> set (retained cap xs)" using retained_upward l(1) s le unfolding assms(1) by blast
    moreover have "m_source_client_id x \<noteq> m_source_client_id (s_metric s)" if x: "x \<in> set Y" for x
    proof
      assume c: "m_source_client_id x = m_source_client_id (s_metric s)"
      obtain sx where sx: "sx \<in> set (samples hist n)" "x = s_metric sx" "m_timestamp_ms (s_metric s) < m_timestamp_ms x"
        using x by (auto simp: assms(5) younger_samples)
      then have gt: "key_of s < key_of sx" "sx \<in> set xs" using new(2) by (simp_all add: assms(2))
      then have "sx \<in> set (retained cap xs)"
        using retained_upward [OF calculation [unfolded assms(1)], of sx] unfolding assms(1) by simp
      then have "sx \<in> set F" using c sx(2) by (simp add: assms(4))
      from sorted_last [OF R(2) this] gt(1) le show False by simp
    qed
    ultimately show ?free using mem by blast
  qed
qed

text \<open>A committed sample answers the latest query of its client exactly when no younger sample hides it.\<close>

lemma committed_is_latest:
  assumes "store_log st hist" "commit_batch st b = (Inr Committed, st')" "m \<in> set (b_metrics b)"
    "distinct (map m_name (b_metrics b))" "m_name m \<noteq> []" "b_client_id b \<noteq> []"
  shows "query_latest st' \<lparr>q_metric_name = m_name m, q_client_id = Some (b_client_id b), q_tags_filter = []\<rparr> =
      Inr (Some \<lparr>l_metric = owned (b_client_id b) m\<rparr>) \<longleftrightarrow>
    length (younger hist (m_name m) (m_timestamp_ms m)) < capacity_per_metric st \<and>
    (\<forall>x \<in> set (younger hist (m_name m) (m_timestamp_ms m)). m_source_client_id x \<noteq> b_client_id b)"
proof -
  let ?c = "b_client_id b" and ?n = "m_name m" and ?cap = "capacity_per_metric st"
  let ?req = "\<lparr>q_metric_name = ?n, q_client_id = Some ?c, q_tags_filter = []\<rparr> :: latest_request"
  let ?hist = "hist @ map (owned ?c) (b_metrics b)"
  let ?R = "retained ?cap (samples ?hist ?n)" and ?F = "filter (\<lambda>x. m_source_client_id (s_metric x) = ?c)"
  have log: "store_log st' ?hist" and cap: "capacity_per_metric st' = ?cap"
    using commit_committed_log [OF assms(1,2)] by blast+
  obtain i where i: "int (length hist) < i"
    "samples ?hist ?n = samples hist ?n @ [\<lparr>s_metric = owned ?c m, s_event_id = i\<rparr>]"
    using samples_batch [OF assms(3,4)] by blast
  have match: "filter (\<lambda>x. matches_filters (s_metric x) ?req) ?R = ?F ?R"
    using retained_facts(2) [of ?cap "samples ?hist ?n"]
    by (intro filter_cong) (auto simp: matches_filters_def matches_tags_def samples_def)
  have "query_latest st' ?req = Inr (first_match ?req (rev (buffer_of st' ?n)))"
    using assms(5,6) by (simp add: query_latest_def validate_query_filters_def split: option.split)
  then have "query_latest st' ?req = Inr (if ?F ?R = [] then None else Some \<lparr>l_metric = s_metric (last (?F ?R))\<rparr>)"
    unfolding first_match_last log_buffer [OF log] cap match Let_def .
  then have "query_latest st' ?req = Inr (Some \<lparr>l_metric = owned ?c m\<rparr>) \<longleftrightarrow>
      ?F ?R \<noteq> [] \<and> s_metric (last (?F ?R)) = owned ?c m" by simp
  also have "\<dots> \<longleftrightarrow> length (younger hist ?n (m_timestamp_ms m)) < ?cap \<and>
      (\<forall>x \<in> set (younger hist ?n (m_timestamp_ms m)). m_source_client_id x \<noteq> ?c)"
    using last_of_client [OF refl i(2), of "?F ?R" ?cap] i(1) by (simp add: owned_def)
  finally show ?thesis .
qed

section \<open>Properties\<close>

text \<open>
  C10: A sample reaches the query unless younger samples hide it. Whatever the proc collector returns, a builder with a
  client ID makes a batch of it; once a reachable store commits that batch, a metric of the sample, CPU usage and memory
  alike, is what the latest query for its name and client answers, with the client stamped on it, exactly when fewer
  committed samples of that name than the buffer holds are younger than the sampling time, and none of those is of the same client.
\<close>

theorem sample_reaches_query:
  assumes "proc_collect source_reader cw t = (Inr ms, cw')" "bb_client_id b \<noteq> []" "m \<in> set ms"
    "commit_all commit_batch bs (new_store cap) = (rs, st)"
    "hidden_by = filter (\<lambda>x. m_name x = m_name m \<and> to_milliseconds t < m_timestamp_ms x) (committed_log bs rs)"
  shows "\<exists>batch. build b ms = (Inr batch, b\<lparr>bb_next_sequence := bb_next_sequence b + 1\<rparr>) \<and>
    (\<forall>st'. commit_batch st batch = (Inr Committed, st') \<longrightarrow>
       (query_latest st' \<lparr>q_metric_name = m_name m, q_client_id = Some (bb_client_id b), q_tags_filter = []\<rparr> =
          Inr (Some \<lparr>l_metric = owned (bb_client_id b) m\<rparr>) \<longleftrightarrow>
        length hidden_by < capacity_per_metric st \<and> (\<forall>x \<in> set hidden_by. m_source_client_id x \<noteq> bb_client_id b)))"
proof -
  let ?batch = "\<lparr>b_client_id = bb_client_id b, b_metrics = ms, b_batch_id = batch_id_of b 0\<rparr>"
  obtain c w c' w' where cw: "cw = (c, w)" "cw' = (c', w')" by (cases cw; cases cw') simp
  note parts = sample_parts [OF assms(1) [unfolded cw]]
  have names: "distinct (map m_name ms)" unfolding conjunct1 [OF parts] by simp
  have m: "m_name m \<noteq> []" "m_timestamp_ms m = to_milliseconds t"
    using proc_collect_metrics [OF assms(1)] assms(3) by blast+
  have log: "store_log st (committed_log bs rs)" using commit_all_log [OF new_store_log assms(4)] by simp
  have built: "build b ms = (Inr ?batch, b\<lparr>bb_next_sequence := bb_next_sequence b + 1\<rparr>)"
    by (rule proc.collected_batch [OF assms(1,2)])
  have "query_latest st' \<lparr>q_metric_name = m_name m, q_client_id = Some (bb_client_id b), q_tags_filter = []\<rparr> =
         Inr (Some \<lparr>l_metric = owned (bb_client_id b) m\<rparr>) \<longleftrightarrow>
      length hidden_by < capacity_per_metric st \<and> (\<forall>x \<in> set hidden_by. m_source_client_id x \<noteq> bb_client_id b)"
    if "commit_batch st ?batch = (Inr Committed, st')" for st'
    using committed_is_latest [OF log that, of m] assms(2,3) names m by (simp add: younger_def [symmetric] assms(5))
  with built show ?thesis by blast
qed

theorem sample_reaches_query_witness:
  "\<exists>ms batch b' st'. length ms = 3 \<and> build (builder_with_nonce ''agent'' 7) ms = (Inr batch, b') \<and>
    commit_batch (new_store 5) batch = (Inr Committed, st') \<and>
    query_latest st' \<lparr>q_metric_name = m_name (hd ms), q_client_id = Some ''agent'', q_tags_filter = []\<rparr> =
      Inr (Some \<lparr>l_metric = owned ''agent'' (hd ms)\<rparr>)"
proof -
  let ?b = "builder_with_nonce ''agent'' 7"
  have client: "bb_client_id ?b = ''agent''" by (simp add: builder_with_nonce_def)
  obtain q ms where run: "proc_collect example_reader (new_proc_collector, 0) 0 =
      (Inr ms, new_proc_collector\<lparr>previous_cpu_counters := Some q\<rparr>, 2)" using example_sample [of 0] by blast
  have len: "length ms = 3"
    using sample_count(1) [OF run] by (simp add: new_proc_collector_def proc_collector_with_def)
  then have hd: "hd ms \<in> set ms" by (cases ms) simp_all
  have none: "commit_all commit_batch [] (new_store 5) = ([], new_store 5)" by simp
  from sample_reaches_query [OF run _ hd none refl, of ?b] client
  obtain batch where b: "build ?b ms = (Inr batch, ?b\<lparr>bb_next_sequence := bb_next_sequence ?b + 1\<rparr>)"
    and query: "\<And>st'. commit_batch (new_store 5) batch = (Inr Committed, st') \<Longrightarrow>
       query_latest st' \<lparr>q_metric_name = m_name (hd ms), q_client_id = Some ''agent'', q_tags_filter = []\<rparr> =
         Inr (Some \<lparr>l_metric = owned ''agent'' (hd ms)\<rparr>)" by (auto simp: new_store_def)
  have "validate_batch batch = None" using proc.collected_batch_admitted [OF run b] by blast
  moreover have "b_metrics batch = ms" using b by (cases rule: build_cases [of ?b ms]) auto
  ultimately have "fst (commit_batch (new_store 5) batch) = Inr Committed"
    using len by (simp add: commit_batch_def new_store_def int64_max_def split: prod.split)
  then obtain st' where "commit_batch (new_store 5) batch = (Inr Committed, st')" by (metis prod.collapse)
  with len b query show ?thesis by blast
qed

end
