(* ===== verification/Paging.thy ===== *)
theory Paging
  imports Store_Queries
begin

text \<open>
  Following page tokens always ends, even when samples are evicted between the requests: each page with a token is
  full and moves the cursor past that many samples of the fixed snapshot.
\<close>

section \<open>The samples a cursor has still to pass\<close>

definition log_view_set :: "metric list \<Rightarrow> range_request \<Rightarrow> stored_metric set" where
  "log_view_set hist request =
     set (filter (in_view request (int (length hist))) (samples hist (q_metric_name request)))"

definition ahead :: "metric list \<Rightarrow> range_request \<Rightarrow> range_page_cursor option \<Rightarrow> stored_metric set" where
  "ahead hist request c = {s \<in> log_view_set hist request. after_cursor c s}"

lemma finite_ahead [simp]: "finite (ahead hist request c)"
  by (simp add: ahead_def log_view_set_def)

lemma after_cursor_mono: "after_cursor c s \<Longrightarrow> key_of s < key_of t \<Longrightarrow> after_cursor c t"
  by (auto simp: after_cursor_def is_after_cursor_def key_of_def less_sample_key_def split: option.splits)

lemma view_in_log:
  assumes "store_log st (hist @ ext)"
  shows "set (snapshot_view st request (int (length hist))) \<subseteq> log_view_set hist request"
proof
  let ?n = "q_metric_name request"
  fix s assume "s \<in> set (snapshot_view st request (int (length hist)))"
  then have s: "in_view request (int (length hist)) s" "s \<in> set (samples (hist @ ext) ?n)"
    using retained_facts(2) unfolding log_view [OF assms] by auto
  then have "s \<in> set (filter (\<lambda>s. s_event_id s \<le> int (length hist)) (samples (hist @ ext) ?n))"
    by (simp add: in_view_def)
  then show "s \<in> log_view_set hist request"
    using s(1) by (simp only: samples_prefix) (simp add: log_view_set_def)
qed

lemma full_page_advances:
  assumes "store_ok st" "set (snapshot_view st request snap) \<subseteq> log_view_set hist request"
    "rest = filter (after_cursor c) (snapshot_view st request snap)" "0 < n" "n < length rest"
  shows "card (ahead hist request (Some (cursor_at snap (last (take n rest))))) + n \<le> card (ahead hist request c)"
proof -
  note facts = snapshot_view_facts [OF assms(1), of request snap]
  let ?l = "last (take n rest)" and ?page = "take n rest"
  have ne: "?page \<noteq> []" using assms(4,5) by auto
  have "sorted (map key_of rest)" unfolding assms(3) by (rule sorted_filter [OF facts(1)])
  then have page_sorted: "sorted (map key_of ?page)" by (metis sorted_wrt_take take_map)
  have le: "key_of s \<le> key_of ?l" if "s \<in> set ?page" for s by (rule sorted_last [OF page_sorted that])
  have l: "after_cursor c ?l" using last_in_set [OF ne] by (auto simp: assms(3) dest: in_set_takeD)
  have page: "set ?page \<subseteq> ahead hist request c"
    using assms(2) by (auto simp: ahead_def assms(3) dest!: in_set_takeD)
  have "ahead hist request (Some (cursor_at snap ?l)) \<subseteq> ahead hist request c - set ?page"
  proof
    fix s assume "s \<in> ahead hist request (Some (cursor_at snap ?l))"
    then have s: "s \<in> log_view_set hist request" "key_of ?l < key_of s" by (simp_all add: ahead_def after_cursor_key)
    then show "s \<in> ahead hist request c - set ?page"
      using after_cursor_mono [OF l s(2)] le [of s] by (auto simp: ahead_def not_le [symmetric])
  qed
  then have "card (ahead hist request (Some (cursor_at snap ?l))) \<le> card (ahead hist request c - set ?page)"
    by (rule card_mono [OF finite_Diff, rotated]) simp
  also have "\<dots> = card (ahead hist request c) - card (set ?page)" by (rule card_Diff_subset) (simp_all add: page)
  also have "card (set ?page) = n"
    using facts(3) assms(5) by (simp add: assms(3) distinct_card)
  also have "card (ahead hist request c) - n + n = card (ahead hist request c)"
    using card_mono [OF finite_ahead page] \<open>card (set ?page) = n\<close> by simp
  finally show ?thesis using card_mono [OF finite_ahead page] \<open>card (set ?page) = n\<close> by simp
qed

lemma plan_of_token:
  assumes "make_range_query_plan (request\<lparr>page_token := tok\<rparr>) = Inr plan" "cursor_valid c"
  shows "make_range_query_plan (request\<lparr>page_token := encode_page_token c\<rparr>) =
    Inr \<lparr>plan_cursor = Some c, plan_page_size = plan_page_size plan\<rparr>"
  using assms(1) encode_decode [OF assms(2)]
  by (auto simp: make_range_query_plan_def validate_query_filters_def Let_def encode_page_token_def page_token_prefix_def
      split: if_splits option.splits)

section \<open>Every chain of pages ends\<close>

definition cursor_of_snapshot :: "int \<Rightarrow> range_page_cursor option \<Rightarrow> store \<Rightarrow> bool" where
  "cursor_of_snapshot snap c st \<longleftrightarrow>
     (case c of None \<Rightarrow> snap = st_current_event_id st | Some cc \<Rightarrow> snapshot_event_id cc = snap)"

lemma full_page_cursor_valid:
  assumes "store_ok st" "0 < n" "n < length (filter P (snapshot_view st request snapshot))"
    "int64_range (from_ms request)" "int64_range (to_ms request)" "0 \<le> snapshot" "snapshot \<le> int64_max"
  shows "cursor_valid (cursor_at snapshot (last (take n (filter P (snapshot_view st request snapshot)))))"
proof -
  let ?rest = "filter P (snapshot_view st request snapshot)"
  have "take n ?rest \<noteq> []" using assms(2,3) by auto
  then have "last (take n ?rest) \<in> set ?rest" by (rule in_set_takeD [OF last_in_set])
  then have "last (take n ?rest) \<in> set (snapshot_view st request snapshot)" by (simp only: set_filter mem_Collect_eq)
  then show ?thesis
    using snapshot_view_facts(4) [OF assms(1), of request snapshot] assms(4-7)
    by (auto simp: cursor_valid_def cursor_at_def in_view_def int64_range_def int64_min_def)
qed

lemma follow_pages_end:
  assumes "\<forall>st \<in> set sts. \<exists>ext. store_log st (hist @ ext)"
    and "make_range_query_plan (request\<lparr>page_token := tok\<rparr>) = Inr plan"
    and "sts \<noteq> [] \<longrightarrow> cursor_of_snapshot (int (length hist)) (plan_cursor plan) (hd sts)"
    and range: "int64_range (from_ms request)" "int64_range (to_ms request)" "int (length hist) \<le> int64_max"
  defines "pages \<equiv> follow_pages sts (request\<lparr>page_token := tok\<rparr>)" and "n \<equiv> unat (plan_page_size plan)"
  shows "list_all has_value pages \<and> (length pages - 1) * n \<le> card (ahead hist request (plan_cursor plan)) \<and>
    (card (ahead hist request (plan_cursor plan)) < length sts * n \<longrightarrow>
       (\<exists>r. last pages = Inr r \<and> next_page_token r = []) \<and> pages \<noteq> [])"
  using assms(1-3) unfolding pages_def n_def
proof (induction sts arbitrary: tok plan)
  case (Cons st sts)
  let ?snap = "int (length hist)" and ?n = "unat (plan_page_size plan)" and ?c = "plan_cursor plan"
  let ?view = "snapshot_view st request ?snap" and ?req = "request\<lparr>page_token := tok\<rparr>"
  let ?rest = "filter (after_cursor ?c) ?view"
  obtain ext where log: "store_log st (hist @ ext)" using Cons.prems(1) by auto
  then have ok: "store_ok st" by (auto simp: store_ok_def)
  have snap: "(case ?c of None \<Rightarrow> st_current_event_id st | Some cc \<Rightarrow> snapshot_event_id cc) = ?snap"
    "?snap \<le> st_current_event_id st"
    using Cons.prems(3) log by (simp_all add: cursor_of_snapshot_def store_log_def split: option.splits)
  have n: "0 < ?n" using page_size_pos [OF Cons.prems(2)] by blast
  have q: "query_range st ?req = Inr (page_spec ?n ?snap ?view ?rest)"
    using query_range_spec [OF ok Cons.prems(2)] snap by simp
  show ?case
  proof (cases "?n < length ?rest")
    case False
    then have "next_page_token (page_spec ?n ?snap ?view ?rest) = []" by (simp add: page_spec_def Let_def)
    then have "follow_pages (st # sts) ?req = [Inr (page_spec ?n ?snap ?view ?rest)]" by (simp add: q)
    with False show ?thesis by (simp add: page_spec_def Let_def)
  next
    case True
    let ?cur = "cursor_at ?snap (last (take ?n ?rest))"
    note step = full_page_advances [OF ok view_in_log [OF log] refl n True]
    have valid: "cursor_valid ?cur" by (rule full_page_cursor_valid [OF ok n True range(1,2) _ range(3)]) simp
    let ?plan = "\<lparr>plan_cursor = Some ?cur, plan_page_size = plan_page_size plan\<rparr>"
      and ?tok = "encode_page_token ?cur"
    have token: "next_page_token (page_spec ?n ?snap ?view ?rest) = ?tok" "?tok \<noteq> []"
      using True by (simp_all add: page_spec_def Let_def encode_page_token_def page_token_prefix_def)
    then have pages: "follow_pages (st # sts) ?req =
        Inr (page_spec ?n ?snap ?view ?rest) # follow_pages sts (request\<lparr>page_token := ?tok\<rparr>)"
      by (simp add: q)
    have IH: "list_all has_value (follow_pages sts (request\<lparr>page_token := ?tok\<rparr>)) \<and>
      (length (follow_pages sts (request\<lparr>page_token := ?tok\<rparr>)) - 1) * ?n \<le> card (ahead hist request (Some ?cur)) \<and>
      (card (ahead hist request (Some ?cur)) < length sts * ?n \<longrightarrow>
        (\<exists>r. last (follow_pages sts (request\<lparr>page_token := ?tok\<rparr>)) = Inr r \<and> next_page_token r = []) \<and>
        follow_pages sts (request\<lparr>page_token := ?tok\<rparr>) \<noteq> [])"
      using Cons.IH [OF _ plan_of_token [OF Cons.prems(2) valid]] Cons.prems(1)
      by (simp add: cursor_of_snapshot_def cursor_at_def)
    have "(length (follow_pages sts (request\<lparr>page_token := ?tok\<rparr>)) * ?n) \<le> card (ahead hist request ?c)"
      using IH step by (cases "follow_pages sts (request\<lparr>page_token := ?tok\<rparr>)") auto
    with IH step show ?thesis unfolding pages by auto
  qed
qed simp

section \<open>Properties\<close>

text \<open>
  C25: Paging always terminates. A client follows the tokens of a valid range request on a reachable store, while
  any batches are committed in between, whether they evict samples of the snapshot or not. No request fails, the number
  of pages beyond the first times the page size is at most the number of selected samples in the log of
  the first request, and given more requests than that the client reaches a page without a token.
\<close>

theorem paging_terminates:
  assumes "commit_all commit_batch bs (new_store cap) = (outs, st)"
    and "make_range_query_plan request = Inr plan" "page_token request = []"
    and "int64_range (from_ms request)" "int64_range (to_ms request)"
    and "pages = follow_pages (st # states_after bss st) request"
    and "selected = filter (in_view request (st_current_event_id st)) (samples (committed_log bs outs) (q_metric_name request))"
  shows "list_all has_value pages \<and> (length pages - 1) * unat (plan_page_size plan) \<le> length selected \<and>
    (length selected < Suc (length bss) * unat (plan_page_size plan) \<longrightarrow>
       (\<exists>r. last pages = Inr r \<and> next_page_token r = []))"
proof -
  let ?hist = "committed_log bs outs" and ?n = "unat (plan_page_size plan)"
  have log: "store_log st ?hist" using commit_all_log [OF new_store_log assms(1)] by simp
  then have snap: "st_current_event_id st = int (length ?hist)" "int (length ?hist) \<le> int64_max"
    by (simp_all add: store_log_def)
  have len: "length (states_after bss st) = length bss"
    by (induction bss arbitrary: st) (simp_all add: Let_def)
  have none: "plan_cursor plan = None"
    using assms(2,3) by (auto simp: make_range_query_plan_def Let_def split: if_splits option.splits)
  have sts: "\<forall>st' \<in> set (st # states_after bss st). \<exists>ext. store_log st' (?hist @ ext)"
    using log states_after_log [OF log] by (metis append_Nil2 set_ConsD)
  have tok: "request\<lparr>page_token := []\<rparr> = request" using assms(3) by simp
  have "card (ahead ?hist request (plan_cursor plan)) \<le> length selected"
    unfolding none assms(7) snap(1) by (simp add: ahead_def log_view_set_def card_length del: set_filter)
  moreover have cur: "cursor_of_snapshot (int (length ?hist)) (plan_cursor plan) (hd (st # states_after bss st))"
    by (simp add: none cursor_of_snapshot_def snap(1))
  ultimately show ?thesis
    using follow_pages_end [OF sts, where request = request and tok = "[]" and plan = plan] assms(2,4,5) snap(2)
    unfolding tok assms(6) [symmetric] by (auto simp: len)
qed

theorem paging_terminates_witness:
  "\<exists>st pages r. commit_all commit_batch
       [example_batch ''b1'' [example_metric ''cpu'' 3 20, example_metric ''cpu'' 4 10]] (new_store 2)
       = ([Inr Committed], st) \<and>
     pages = follow_pages (st # states_after [[example_batch ''b2'' [example_metric ''cpu'' 7 30]], []] st) (example_request 1) \<and>
     list_all has_value pages \<and> length pages \<le> 3 \<and> last pages = Inr r \<and> next_page_token r = []"
proof -
  let ?bs = "[example_batch ''b1'' [example_metric ''cpu'' 3 20, example_metric ''cpu'' 4 10]]"
  let ?bss = "[[example_batch ''b2'' [example_metric ''cpu'' 7 30]], []]" and ?r = "example_request 1"
  let ?plan = "\<lparr>plan_cursor = None, plan_page_size = 1\<rparr>"
  define st where "st = snd (commit_all commit_batch ?bs (new_store 2))"
  have c: "commit_all commit_batch ?bs (new_store 2) = ([Inr Committed], st)"
    unfolding st_def by (simp add: store_eval example_defs int64_max_def)
  have plan: "make_range_query_plan ?r = Inr ?plan" "page_token ?r = []"
    by (simp_all add: query_eval)
  have ints: "int64_range (from_ms ?r)" "int64_range (to_ms ?r)"
    by (simp_all add: example_request_def int64_range_def int64_min_def int64_max_def)
  have "length (samples (committed_log ?bs [Inr Committed]) ''cpu'') = 2"
    by (simp add: samples_def stored_of_def example_defs owned_def eval_nat_numeral)
  then have two: "length (filter (in_view ?r (st_current_event_id st))
      (samples (committed_log ?bs [Inr Committed]) (q_metric_name ?r))) \<le> 2"
    using length_filter_le [of "in_view ?r (st_current_event_id st)" "samples (committed_log ?bs [Inr Committed]) ''cpu''"]
    by (simp add: example_request_def)
  from paging_terminates [OF c plan ints refl refl, of ?bss] two c show ?thesis by auto
qed

end
