(* ===== verification/Agent_Config.thy ===== *)
theory Agent_Config
  imports Cxx_Text
begin

text \<open>
  \<open>parse_agent_config\<close> (\<open>cpp/client/impl/agent_config\<close>): the command line of the Agent as a typed
  configuration. The parse state is threaded through the argument loop; an error leaves the loop.
\<close>

section \<open>Types\<close>

record agent_config =
  cfg_client_id :: string
  cfg_collection_interval :: int
  cfg_aggregator_endpoints :: "string list"
  cfg_queue_capacity :: nat

definition default_config :: agent_config where
  "default_config = \<lparr>cfg_client_id = [], cfg_collection_interval = 1000,
     cfg_aggregator_endpoints = [], cfg_queue_capacity = 256\<rparr>"

datatype agent_config_error_code = UnknownOption | DuplicateOption | MissingRequiredOption | InvalidValue

record agent_config_error =
  ce_code :: agent_config_error_code
  ce_option :: string

definition config_error :: "agent_config_error_code \<Rightarrow> string \<Rightarrow> agent_config_error" where
  "config_error c option = \<lparr>ce_code = c, ce_option = option\<rparr>"

definition client_id_option :: string where "client_id_option = ''--client-id=''"

definition interval_option :: string where "interval_option = ''--interval-ms=''"

definition endpoint_option :: string where "endpoint_option = ''--endpoint=''"

definition queue_capacity_option :: string where "queue_capacity_option = ''--queue-capacity=''"

record config_parse_state =
  ps_config :: agent_config
  has_client_id :: bool
  has_interval :: bool
  has_queue_capacity :: bool

definition initial_parse_state :: config_parse_state where
  "initial_parse_state = \<lparr>ps_config = default_config, has_client_id = False, has_interval = False,
     has_queue_capacity = False\<rparr>"

section \<open>Parsing\<close>

definition parse_positive_integer :: "int \<Rightarrow> int \<Rightarrow> string \<Rightarrow> int option" where
  "parse_positive_integer lo hi text =
     (case parse_whole lo hi text of None \<Rightarrow> None | Some v \<Rightarrow> if 0 < v then Some v else None)"

abbreviation parse_interval_ms :: "string \<Rightarrow> int option" where
  "parse_interval_ms \<equiv> parse_positive_integer int64_min int64_max"

abbreviation parse_size :: "string \<Rightarrow> int option" where
  "parse_size \<equiv> parse_positive_integer 0 (2 ^ 64 - 1)"

definition parse_client_id :: "config_parse_state \<Rightarrow> string \<Rightarrow> agent_config_error + config_parse_state" where
  "parse_client_id st v =
     (if has_client_id st then Inl (config_error DuplicateOption client_id_option)
      else if v = [] then Inl (config_error InvalidValue client_id_option)
      else Inr (st\<lparr>ps_config := (ps_config st)\<lparr>cfg_client_id := v\<rparr>, has_client_id := True\<rparr>))"

definition parse_interval :: "config_parse_state \<Rightarrow> string \<Rightarrow> agent_config_error + config_parse_state" where
  "parse_interval st v =
     (if has_interval st then Inl (config_error DuplicateOption interval_option)
      else case parse_interval_ms v of
        None \<Rightarrow> Inl (config_error InvalidValue interval_option)
      | Some ms \<Rightarrow> Inr (st\<lparr>ps_config := (ps_config st)\<lparr>cfg_collection_interval := ms\<rparr>, has_interval := True\<rparr>))"

definition parse_endpoint :: "config_parse_state \<Rightarrow> string \<Rightarrow> agent_config_error + config_parse_state" where
  "parse_endpoint st v =
     (if v = [] then Inl (config_error InvalidValue endpoint_option)
      else Inr (st\<lparr>ps_config := (ps_config st)
        \<lparr>cfg_aggregator_endpoints := cfg_aggregator_endpoints (ps_config st) @ [v]\<rparr>\<rparr>))"

definition parse_queue_capacity :: "config_parse_state \<Rightarrow> string \<Rightarrow> agent_config_error + config_parse_state" where
  "parse_queue_capacity st v =
     (if has_queue_capacity st then Inl (config_error DuplicateOption queue_capacity_option)
      else case parse_size v of
        None \<Rightarrow> Inl (config_error InvalidValue queue_capacity_option)
      | Some n \<Rightarrow> Inr (st\<lparr>ps_config := (ps_config st)\<lparr>cfg_queue_capacity := nat n\<rparr>,
          has_queue_capacity := True\<rparr>))"

definition parse_argument :: "config_parse_state \<Rightarrow> string \<Rightarrow> agent_config_error + config_parse_state" where
  "parse_argument st argument =
     (case split_at (CHR ''='') argument of
        None \<Rightarrow> Inl (config_error UnknownOption argument)
      | Some (name, v) \<Rightarrow>
          (let option = name @ ''=''
           in if option = client_id_option then parse_client_id st v
              else if option = interval_option then parse_interval st v
              else if option = endpoint_option then parse_endpoint st v
              else if option = queue_capacity_option then parse_queue_capacity st v
              else Inl (config_error UnknownOption option)))"

fun parse_arguments :: "config_parse_state \<Rightarrow> string list \<Rightarrow> agent_config_error + config_parse_state" where
  "parse_arguments st [] = Inr st"
| "parse_arguments st (a # args) =
     (case parse_argument st a of Inl e \<Rightarrow> Inl e | Inr st' \<Rightarrow> parse_arguments st' args)"

definition parse_agent_config :: "string list \<Rightarrow> agent_config_error + agent_config" where
  "parse_agent_config args =
     (case parse_arguments initial_parse_state args of
        Inl e \<Rightarrow> Inl e
      | Inr st \<Rightarrow>
          if \<not> has_client_id st then Inl (config_error MissingRequiredOption client_id_option)
          else if cfg_aggregator_endpoints (ps_config st) = []
          then Inl (config_error MissingRequiredOption endpoint_option)
          else Inr (ps_config st))"

section \<open>Which command lines are accepted\<close>

text \<open>
  The specification does not look at the order of different options: it collects the values of
  each option and asks for at most one client, interval and capacity, all values well formed.
\<close>

definition option_of :: "string \<Rightarrow> (string \<times> string) option" where
  "option_of a = (case split_at (CHR ''='') a of None \<Rightarrow> None | Some (name, v) \<Rightarrow> Some (name @ ''='', v))"

definition values_of :: "string \<Rightarrow> string list \<Rightarrow> string list" where
  "values_of option args =
     concat (map (\<lambda>a. case option_of a of None \<Rightarrow> [] | Some (n, v) \<Rightarrow> if n = option then [v] else []) args)"

definition known_argument :: "string \<Rightarrow> bool" where
  "known_argument a \<longleftrightarrow> (case option_of a of None \<Rightarrow> False
     | Some (n, v) \<Rightarrow> n \<in> {client_id_option, interval_option, endpoint_option, queue_capacity_option})"

definition well_formed :: "string list \<Rightarrow> bool" where
  "well_formed args \<longleftrightarrow> list_all known_argument args \<and>
     length (values_of client_id_option args) \<le> 1 \<and> [] \<notin> set (values_of client_id_option args) \<and>
     length (values_of interval_option args) \<le> 1 \<and>
     (\<forall>v \<in> set (values_of interval_option args). parse_interval_ms v \<noteq> None) \<and>
     [] \<notin> set (values_of endpoint_option args) \<and>
     length (values_of queue_capacity_option args) \<le> 1 \<and>
     (\<forall>v \<in> set (values_of queue_capacity_option args). parse_size v \<noteq> None)"

definition config_of :: "string list \<Rightarrow> agent_config" where
  "config_of args =
     \<lparr>cfg_client_id = (case values_of client_id_option args of [] \<Rightarrow> [] | v # _ \<Rightarrow> v),
      cfg_collection_interval = (case values_of interval_option args of [] \<Rightarrow> 1000 | v # _ \<Rightarrow> the (parse_interval_ms v)),
      cfg_aggregator_endpoints = values_of endpoint_option args,
      cfg_queue_capacity = (case values_of queue_capacity_option args of [] \<Rightarrow> 256 | v # _ \<Rightarrow> nat (the (parse_size v)))\<rparr>"

definition parse_state_of :: "string list \<Rightarrow> config_parse_state" where
  "parse_state_of args = \<lparr>ps_config = config_of args, has_client_id = values_of client_id_option args \<noteq> [],
     has_interval = values_of interval_option args \<noteq> [],
     has_queue_capacity = values_of queue_capacity_option args \<noteq> []\<rparr>"

lemma options_distinct [simp]:
  "client_id_option \<noteq> interval_option" "client_id_option \<noteq> endpoint_option"
  "client_id_option \<noteq> queue_capacity_option" "interval_option \<noteq> endpoint_option"
  "interval_option \<noteq> queue_capacity_option" "endpoint_option \<noteq> queue_capacity_option"
  "interval_option \<noteq> client_id_option" "endpoint_option \<noteq> client_id_option"
  "queue_capacity_option \<noteq> client_id_option" "endpoint_option \<noteq> interval_option"
  "queue_capacity_option \<noteq> interval_option" "queue_capacity_option \<noteq> endpoint_option"
  by (simp_all add: client_id_option_def interval_option_def endpoint_option_def queue_capacity_option_def)

lemma values_of_simps [simp]:
  "values_of option [] = []"
  "values_of option (args @ [a]) = values_of option args @
     (case option_of a of None \<Rightarrow> [] | Some (n, v) \<Rightarrow> if n = option then [v] else [])"
  by (simp_all add: values_of_def)

lemma parse_argument_option:
  "parse_argument st a =
     (case option_of a of
        None \<Rightarrow> Inl (config_error UnknownOption a)
      | Some (option, v) \<Rightarrow>
          if option = client_id_option then parse_client_id st v
          else if option = interval_option then parse_interval st v
          else if option = endpoint_option then parse_endpoint st v
          else if option = queue_capacity_option then parse_queue_capacity st v
          else Inl (config_error UnknownOption option))"
  by (simp add: parse_argument_def option_of_def Let_def split: option.split)

lemma well_formed_prefix: "well_formed (args @ [a]) \<Longrightarrow> well_formed args"
  by (simp add: well_formed_def)

text \<open>One argument, on a well-formed prefix.\<close>

lemma parse_argument_step:
  assumes "well_formed args"
  shows "if well_formed (args @ [a]) then parse_argument (parse_state_of args) a = Inr (parse_state_of (args @ [a]))
    else \<exists>e. parse_argument (parse_state_of args) a = Inl e"
proof (cases "option_of a")
  case None
  then show ?thesis by (simp add: well_formed_def known_argument_def parse_argument_option)
next
  case (Some nv)
  obtain n v where a: "option_of a = Some (n, v)" using Some by (cases nv) simp
  let ?c = "values_of client_id_option args" and ?i = "values_of interval_option args"
    and ?q = "values_of queue_capacity_option args"
  consider (client) "n = client_id_option" | (interval) "n = interval_option"
    | (endpoint) "n = endpoint_option" | (capacity) "n = queue_capacity_option"
    | (unknown) "n \<notin> {client_id_option, interval_option, endpoint_option, queue_capacity_option}" by blast
  then show ?thesis
  proof cases
    case client
    with assms a show ?thesis
      by (cases ?c) (auto simp: well_formed_def known_argument_def parse_argument_option parse_client_id_def
          parse_state_of_def config_of_def)
  next
    case interval
    with assms a show ?thesis
      by (cases ?i) (auto simp: well_formed_def known_argument_def parse_argument_option parse_interval_def
          parse_state_of_def config_of_def split: option.split)
  next
    case endpoint
    with assms a show ?thesis
      by (auto simp: well_formed_def known_argument_def parse_argument_option parse_endpoint_def
          parse_state_of_def config_of_def)
  next
    case capacity
    with assms a show ?thesis
      by (cases ?q) (auto simp: well_formed_def known_argument_def parse_argument_option parse_queue_capacity_def
          parse_state_of_def config_of_def split: option.split)
  next
    case unknown
    with assms a show ?thesis by (auto simp: well_formed_def known_argument_def parse_argument_option)
  qed
qed

lemma parse_arguments_append:
  "parse_arguments st (xs @ ys) =
     (case parse_arguments st xs of Inl e \<Rightarrow> Inl e | Inr st' \<Rightarrow> parse_arguments st' ys)"
  by (induction xs arbitrary: st) (simp_all split: sum.split)

lemma parse_arguments_state:
  "if well_formed args then parse_arguments initial_parse_state args = Inr (parse_state_of args)
   else \<exists>e. parse_arguments initial_parse_state args = Inl e"
proof (induction args rule: rev_induct)
  case Nil
  show ?case by (simp add: well_formed_def initial_parse_state_def parse_state_of_def config_of_def default_config_def)
next
  case (snoc a args)
  show ?case
  proof (cases "well_formed args")
    case True
    with snoc parse_argument_step [OF True, of a] show ?thesis
      by (auto simp: parse_arguments_append split: if_splits)
  next
    case False
    with snoc well_formed_prefix [of args a] show ?thesis by (auto simp: parse_arguments_append)
  qed
qed

section \<open>Properties\<close>

text \<open>
  C15: Exactly which command lines are accepted, and as what. The parser succeeds if and only if every argument is
  one of the four known options, there is exactly one client ID and it is not empty, there is at
  least one endpoint and none is empty, and the interval and the queue capacity are given at most
  once, each as a positive decimal integer that fits its type; the result then holds those values, the endpoints in
  their order and the defaults of 1000 ms and 256 entries. The order of different options does not matter.
\<close>

theorem config_accepted_iff:
  "(parse_agent_config args = Inr cfg \<longleftrightarrow>
     well_formed args \<and> values_of client_id_option args \<noteq> [] \<and> values_of endpoint_option args \<noteq> [] \<and>
     cfg = config_of args)"
proof (cases "well_formed args")
  case True
  then have "parse_arguments initial_parse_state args = Inr (parse_state_of args)"
    using parse_arguments_state [of args] by simp
  with True show ?thesis by (auto simp: parse_agent_config_def parse_state_of_def config_of_def)
next
  case False
  then obtain e where "parse_arguments initial_parse_state args = Inl e"
    using parse_arguments_state [of args] by auto
  with False show ?thesis by (simp add: parse_agent_config_def)
qed

definition argument_error :: "string list \<Rightarrow> string \<Rightarrow> agent_config_error" where
  "argument_error prev a =
     (case option_of a of
        None \<Rightarrow> config_error UnknownOption a
      | Some (n, v) \<Rightarrow>
          if n \<notin> {client_id_option, interval_option, endpoint_option, queue_capacity_option}
          then config_error UnknownOption n
          else if n \<noteq> endpoint_option \<and> values_of n prev \<noteq> [] then config_error DuplicateOption n
          else config_error InvalidValue n)"

lemma parse_argument_error:
  assumes "well_formed args" "\<not> well_formed (args @ [a])"
  shows "parse_argument (parse_state_of args) a = Inl (argument_error args a)"
proof (cases "option_of a")
  case None
  then show ?thesis by (simp add: argument_error_def parse_argument_option)
next
  case (Some nv)
  obtain n v where a: "option_of a = Some (n, v)" using Some by (cases nv) simp
  let ?c = "values_of client_id_option args" and ?i = "values_of interval_option args"
    and ?q = "values_of queue_capacity_option args"
  consider (client) "n = client_id_option" | (interval) "n = interval_option"
    | (endpoint) "n = endpoint_option" | (capacity) "n = queue_capacity_option"
    | (unknown) "n \<notin> {client_id_option, interval_option, endpoint_option, queue_capacity_option}" by blast
  then show ?thesis
  proof cases
    case client
    with assms a show ?thesis
      by (cases ?c) (auto simp: well_formed_def known_argument_def parse_argument_option parse_client_id_def
          parse_state_of_def argument_error_def)
  next
    case interval
    with assms a show ?thesis
      by (cases ?i) (auto simp: well_formed_def known_argument_def parse_argument_option parse_interval_def
          parse_state_of_def argument_error_def split: option.split)
  next
    case endpoint
    with assms a show ?thesis
      by (auto simp: well_formed_def known_argument_def parse_argument_option parse_endpoint_def
          parse_state_of_def argument_error_def)
  next
    case capacity
    with assms a show ?thesis
      by (cases ?q) (auto simp: well_formed_def known_argument_def parse_argument_option parse_queue_capacity_def
          parse_state_of_def argument_error_def split: option.split)
  next
    case unknown
    with a show ?thesis by (auto simp: parse_argument_option argument_error_def)
  qed
qed

text \<open>
  C36: Which error a refused command line gets: that of its first offending argument, whatever follows. It is
  an unknown option (named with its equals sign, or the whole argument when it has none), the
  second occurrence of a client ID, interval or capacity, or an invalid value; and when every argument
  is fine, the missing client ID and then the missing endpoint are reported.
\<close>

theorem config_first_error:
  assumes "well_formed prev"
  shows "(\<not> well_formed (prev @ [a]) \<longrightarrow> parse_agent_config (prev @ a # rest) = Inl (argument_error prev a)) \<and>
    (values_of client_id_option prev = [] \<longrightarrow>
       parse_agent_config prev = Inl (config_error MissingRequiredOption client_id_option)) \<and>
    (values_of client_id_option prev \<noteq> [] \<and> values_of endpoint_option prev = [] \<longrightarrow>
       parse_agent_config prev = Inl (config_error MissingRequiredOption endpoint_option))"
proof -
  have "parse_arguments initial_parse_state prev = Inr (parse_state_of prev)"
    using parse_arguments_state [of prev] assms by simp
  then show ?thesis using parse_argument_error [OF assms, of a]
    by (auto simp: parse_agent_config_def parse_arguments_append parse_state_of_def config_of_def)
qed

lemma option_of_join:
  "option_of (client_id_option @ v) = Some (client_id_option, v)"
  "option_of (interval_option @ v) = Some (interval_option, v)"
  "option_of (endpoint_option @ v) = Some (endpoint_option, v)"
  "option_of (queue_capacity_option @ v) = Some (queue_capacity_option, v)"
proof -
  have "option_of ((n @ ''='') @ v) = Some (n @ ''='', v)" if "CHR ''='' \<notin> set n" for n
    using split_at_join [OF that, of v] by (simp add: option_of_def)
  from this [of "''--client-id''"] this [of "''--interval-ms''"] this [of "''--endpoint''"] this [of "''--queue-capacity''"]
  show "option_of (client_id_option @ v) = Some (client_id_option, v)"
    "option_of (interval_option @ v) = Some (interval_option, v)"
    "option_of (endpoint_option @ v) = Some (endpoint_option, v)"
    "option_of (queue_capacity_option @ v) = Some (queue_capacity_option, v)"
    by (simp_all add: client_id_option_def interval_option_def endpoint_option_def queue_capacity_option_def)
qed

theorem config_first_error_witness:
  "parse_agent_config [client_id_option @ ''a'', client_id_option @ ''b'', ''--bogus'']
     = Inl (config_error DuplicateOption client_id_option)"
proof -
  have "well_formed [client_id_option @ ''a'']"
    by (simp add: well_formed_def known_argument_def values_of_def option_of_join)
  moreover have "\<not> well_formed ([client_id_option @ ''a''] @ [client_id_option @ ''b''])"
    by (simp add: well_formed_def values_of_def option_of_join)
  ultimately have "parse_agent_config ([client_id_option @ ''a''] @ (client_id_option @ ''b'') # [''--bogus''])
      = Inl (argument_error [client_id_option @ ''a''] (client_id_option @ ''b''))"
    using config_first_error by blast
  also have "argument_error [client_id_option @ ''a''] (client_id_option @ ''b'')
      = config_error DuplicateOption client_id_option"
    by (simp add: argument_error_def option_of_join values_of_def)
  finally show ?thesis by simp
qed

section \<open>Round trip\<close>

definition config_valid :: "agent_config \<Rightarrow> bool" where
  "config_valid cfg \<longleftrightarrow> cfg_client_id cfg \<noteq> [] \<and> 0 < cfg_collection_interval cfg \<and>
     cfg_collection_interval cfg \<le> int64_max \<and> cfg_aggregator_endpoints cfg \<noteq> [] \<and>
     [] \<notin> set (cfg_aggregator_endpoints cfg) \<and> 0 < cfg_queue_capacity cfg \<and> cfg_queue_capacity cfg < 2 ^ 64"

definition config_arguments :: "agent_config \<Rightarrow> string list" where
  "config_arguments cfg =
     map (\<lambda>e. endpoint_option @ e) (cfg_aggregator_endpoints cfg) @
     [interval_option @ to_string (cfg_collection_interval cfg), client_id_option @ cfg_client_id cfg,
      queue_capacity_option @ to_string (int (cfg_queue_capacity cfg))]"

lemma values_of_append: "values_of option (xs @ ys) = values_of option xs @ values_of option ys"
  by (simp add: values_of_def)

lemma values_of_endpoints:
  "values_of option (map (\<lambda>e. endpoint_option @ e) es) = (if option = endpoint_option then es else [])"
  by (induction es) (simp_all add: values_of_def option_of_join)

lemma parse_rendered_config:
  assumes "config_valid cfg"
  shows "parse_agent_config (config_arguments cfg) = Inr cfg"
proof -
  have i: "parse_interval_ms (to_string (cfg_collection_interval cfg)) = Some (cfg_collection_interval cfg)"
    using assms parse_to_string [of int64_min "cfg_collection_interval cfg" int64_max]
    by (simp add: parse_positive_integer_def config_valid_def int64_min_def)
  have q: "parse_size (to_string (int (cfg_queue_capacity cfg))) = Some (int (cfg_queue_capacity cfg))"
    using assms parse_to_string [of 0 "int (cfg_queue_capacity cfg)" "2 ^ 64 - 1"]
    by (simp add: parse_positive_integer_def config_valid_def)
  have q: "parse_positive_integer 0 18446744073709551615 (to_string (int (cfg_queue_capacity cfg))) =
      Some (int (cfg_queue_capacity cfg))" using q by simp
  have v: "values_of client_id_option (config_arguments cfg) = [cfg_client_id cfg]"
    "values_of interval_option (config_arguments cfg) = [to_string (cfg_collection_interval cfg)]"
    "values_of endpoint_option (config_arguments cfg) = cfg_aggregator_endpoints cfg"
    "values_of queue_capacity_option (config_arguments cfg) = [to_string (int (cfg_queue_capacity cfg))]"
    unfolding config_arguments_def values_of_append values_of_endpoints
    by (simp_all add: values_of_def option_of_join)
  have "list_all known_argument (config_arguments cfg)"
    by (simp add: config_arguments_def known_argument_def option_of_join list_all_iff)
  then have "well_formed (config_arguments cfg)"
    using assms by (auto simp: well_formed_def v i q config_valid_def)
  then have "parse_agent_config (config_arguments cfg) = Inr (config_of (config_arguments cfg))"
    using assms parse_arguments_state [of "config_arguments cfg"]
    by (simp add: parse_agent_config_def parse_state_of_def v config_of_def config_valid_def)
  then show ?thesis
    by (simp add: config_of_def v i q)
qed

lemma parsed_config_valid:
  assumes "parse_agent_config args = Inr parsed"
  shows "config_valid parsed"
proof -
  have w: "well_formed args" using parse_arguments_state [of args] assms
    by (auto simp: parse_agent_config_def split: if_splits)
  then have cfg: "parsed = config_of args" "values_of client_id_option args \<noteq> []" "values_of endpoint_option args \<noteq> []"
    using assms parse_arguments_state [of args]
    by (auto simp: parse_agent_config_def parse_state_of_def config_of_def split: if_splits)
  have "0 < x \<and> x \<le> hi" if "parse_positive_integer lo hi s = Some x" for lo hi s x
    using that parse_whole_range by (fastforce simp: parse_positive_integer_def split: option.splits if_splits)
  then have r: "parse_interval_ms s \<noteq> None \<Longrightarrow> 0 < the (parse_interval_ms s) \<and> the (parse_interval_ms s) \<le> int64_max"
    "parse_size s \<noteq> None \<Longrightarrow> 0 < the (parse_size s) \<and> the (parse_size s) \<le> 2 ^ 64 - 1" for s
    by fastforce+
  have "0 < cfg_collection_interval parsed \<and> cfg_collection_interval parsed \<le> int64_max"
    using w r(1) unfolding cfg(1)
    by (cases "values_of interval_option args") (auto simp: config_of_def well_formed_def int64_max_def)
  moreover have "0 < cfg_queue_capacity parsed \<and> cfg_queue_capacity parsed < 2 ^ 64"
  proof (cases "values_of queue_capacity_option args")
    case (Cons s ss)
    with w r(2) [of s] show ?thesis unfolding cfg(1) by (auto simp: config_of_def well_formed_def)
  qed (simp add: cfg(1) config_of_def)
  moreover have "cfg_client_id parsed \<noteq> []"
    using w cfg(2) unfolding cfg(1) by (cases "values_of client_id_option args") (auto simp: config_of_def well_formed_def)
  ultimately show ?thesis
    using w cfg(3) unfolding cfg(1) by (simp add: config_valid_def) (simp add: config_of_def well_formed_def)
qed

text \<open>
  C31: The configuration round trips: every configuration the parser can produce satisfies its validity
  conditions (a client, endpoints, a positive interval and a positive capacity in range), and
  rendering a valid configuration as a command line and parsing it gives the configuration back.
\<close>

theorem config_roundtrip:
  "(config_valid cfg \<longrightarrow> parse_agent_config (config_arguments cfg) = Inr cfg) \<and>
   (parse_agent_config args = Inr parsed \<longrightarrow> config_valid parsed)"
  using parse_rendered_config parsed_config_valid by blast

theorem config_roundtrip_witness:
  "parse_agent_config (config_arguments \<lparr>cfg_client_id = ''agent-a'', cfg_collection_interval = 250,
     cfg_aggregator_endpoints = [''a:50051'', ''b:50051''], cfg_queue_capacity = 512\<rparr>) =
   Inr \<lparr>cfg_client_id = ''agent-a'', cfg_collection_interval = 250,
     cfg_aggregator_endpoints = [''a:50051'', ''b:50051''], cfg_queue_capacity = 512\<rparr>"
  by (rule config_roundtrip [THEN conjunct1, rule_format]) (simp add: config_valid_def int64_max_def)

end
