(* ===== verification/Synthetic_Collector.thy ===== *)
theory Synthetic_Collector
  imports Metric_Collector
begin

text \<open>
  \<open>SyntheticMetricCollector\<close> (\<open>cpp/client/impl/synthetic_metric_collector\<close>): a deterministic line
  \<open>initial + index * step\<close> in IEEE binary64, one rounding per operation. The index advances after
  a success only.
\<close>

record synthetic_config =
  sc_metric_name :: string
  sc_initial_value :: f64
  sc_step :: f64

record synthetic_collector = synthetic_config +
  sample_index :: uint64

definition default_synthetic_config :: synthetic_config where
  "default_synthetic_config = \<lparr>sc_metric_name = ''synthetic_value'', sc_initial_value = f64_zero False,
     sc_step = f64_of_nat 1\<rparr>"


definition synthetic_error :: metric_collection_error where
  "synthetic_error = collection_error MalformedSource ''generate_synthetic_metric'' ''synthetic'' False"

definition synthetic_value :: "synthetic_collector \<Rightarrow> f64" where
  "synthetic_value c =
     f64_add (sc_initial_value c) (f64_mul (f64_of_nat (unat (sample_index c))) (sc_step c))"

definition synthetic_collect :: "synthetic_collector \<Rightarrow> int
    \<Rightarrow> (metric_collection_error + metric list) \<times> synthetic_collector" where
  "synthetic_collect c sampled_at =
     (if sc_metric_name c = [] \<or> \<not> isfinite (sc_initial_value c) \<or> \<not> isfinite (sc_step c)
      then (Inl synthetic_error, c)
      else if \<not> isfinite (synthetic_value c) then (Inl synthetic_error, c)
      else (Inr [default_metric\<lparr>m_name := sc_metric_name c, m_value := synthetic_value c,
              m_timestamp_ms := to_milliseconds sampled_at\<rparr>],
            c\<lparr>sample_index := sample_index c + 1\<rparr>))"

interpretation synthetic: metric_collector synthetic_collect
  by unfold_locales (auto simp: synthetic_collect_def split: if_splits)




section \<open>Properties\<close>



text \<open>
  A synthetic sample is refused exactly when the name is empty, a parameter is not finite or the
  generated value is not finite, always with the same malformed-source error, and a refused call
  changes nothing: the next call generates the same value, so no index is skipped.
\<close>

lemma synthetic_refusal:
  "case synthetic_collect c t of
     (Inl e, c') \<Rightarrow> c' = c \<and> e = synthetic_error \<and> (sc_metric_name c = [] \<or> \<not> isfinite (sc_initial_value c) \<or>
        \<not> isfinite (sc_step c) \<or> \<not> isfinite (synthetic_value c))
   | (Inr ms, c') \<Rightarrow> map m_value ms = [synthetic_value c] \<and> map m_timestamp_ms ms = [to_milliseconds t] \<and>
        isfinite (synthetic_value c) \<and> c' = c\<lparr>sample_index := sample_index c + 1\<rparr>"
  by (auto simp: synthetic_collect_def)

end
