(* ===== verification/Store_Concurrency.thy ===== *)
theory Store_Concurrency
  imports Store_Queries
begin

text \<open>
  The store under several threads, at the grain of its individual reads and writes. Everywhere else an operation of the
  store is one step on its state; here that is proved: the shared mutex of \<open>InMemoryTimeSeriesStore\<close> makes every
  interleaving of commits and queries, and of exceptions thrown inside them, equal to a sequence of whole
  operations.
\<close>

section \<open>A commit, access by access\<close>

text \<open>
  Where a thread stands in \<open>commit_batch\<close> once it holds the lock: before the duplicate check, in the staging loop, before the
  batch ID is recorded, in the loop of \<open>publish_staged_buffers\<close>, and at the return.
\<close>

datatype commit_pc =
    Check metric_batch
  | Stage metric_batch "metric list" "(string \<times> stored_metric list) list" int
  | Record metric_batch "(string \<times> stored_metric list) list" int
  | Publish "(string \<times> stored_metric list) list" int
  | Return "store_error + batch_commit_outcome"

fun commit_step :: "store \<times> commit_pc \<Rightarrow> store \<times> commit_pc" where
  "commit_step (st, Check batch) =
     (if b_batch_id batch \<in> committed_batch_ids st then (st, Return (Inr Duplicate))
      else if int (length (b_metrics batch)) > int64_max - st_current_event_id st
      then (st, Return (Inl (make_error Constraint ''commit_batch'' ''event_id_exhausted'' False)))
      else (st, Stage batch (b_metrics batch) [] (st_current_event_id st)))"
| "commit_step (st, Stage batch (m # ms) staged next_event_id) =
     (st, Stage batch ms
       (insert_staged (capacity_per_metric st) (m_name m)
          \<lparr>s_metric = m\<lparr>m_source_client_id := b_client_id batch\<rparr>, s_event_id = next_event_id + 1\<rparr>
          (stage_buffer st (m_name m) staged))
       (next_event_id + 1))"
| "commit_step (st, Stage batch [] staged next_event_id) = (st, Record batch staged next_event_id)"
| "commit_step (st, Record batch staged next_event_id) =
     (st\<lparr>committed_batch_ids := insert (b_batch_id batch) (committed_batch_ids st)\<rparr>,
      Publish staged next_event_id)"
| "commit_step (st, Publish ((k, b) # staged) next_event_id) =
     (st\<lparr>metric_buffers := publish_staged_buffers (metric_buffers st) [(k, b)]\<rparr>, Publish staged next_event_id)"
| "commit_step (st, Publish [] next_event_id) =
     (st\<lparr>st_current_event_id := next_event_id\<rparr>, Return (Inr Committed))"
| "commit_step (st, Return r) = (st, Return r)"

text \<open>
  Memory can run out while the error or the staged buffers are built, while the table grows, and while the batch ID is inserted,
  which has no effect then. Publishing only swaps buffers and moves nodes into a table that has room for
  them: from there on nothing throws.
\<close>

fun may_throw :: "commit_pc \<Rightarrow> bool" where
  "may_throw (Check batch) = True"
| "may_throw (Stage batch ms staged next_event_id) = True"
| "may_throw (Record batch staged next_event_id) = True"
| "may_throw _ = False"

lemma stage_steps:
  "(commit_step ^^ length ms) (st, Stage batch ms staged n) =
   (case stage_metrics st (b_client_id batch) ms (staged, n) of (staged', n') \<Rightarrow> (st, Stage batch [] staged' n'))"
  by (induction ms arbitrary: staged n) (simp_all add: funpow_swap1)

lemma publish_split:
  "publish_staged_buffers d (xs @ ys) = publish_staged_buffers (publish_staged_buffers d xs) ys"
  by (induction d xs rule: publish_staged_buffers.induct) simp_all

lemma publish_steps:
  "(commit_step ^^ length staged) (st, Publish staged n) =
   (st\<lparr>metric_buffers := publish_staged_buffers (metric_buffers st) staged\<rparr>, Publish [] n)"
proof (induction staged arbitrary: st)
  case (Cons e staged)
  obtain k b where e: "e = (k, b)" by fastforce
  have "publish_staged_buffers (metric_buffers st) (e # staged) =
      publish_staged_buffers (publish_staged_buffers (metric_buffers st) [e]) staged"
    using publish_split [of "metric_buffers st" "[e]" staged] by simp
  with Cons show ?case by (simp add: funpow_swap1 e del: publish_staged_buffers.simps)
qed simp

lemma stage_length:
  "length (fst (stage_metrics st client ms acc)) \<le> length (fst acc) + length ms"
proof (induction ms arbitrary: acc)
  case (Cons m ms)
  obtain staged n where acc: "acc = (staged, n)" by fastforce
  have grown: "length (stage_buffer st (m_name m) staged) \<le> Suc (length staged)"
    by (simp add: stage_buffer_def split: option.split)
  have kept: "length (insert_staged c k x l) = length l" if "map_of l k \<noteq> None" for c k x l
    using that by (induction l) (auto simp: insert_staged_def)
  have there: "map_of (stage_buffer st (m_name m) staged) (m_name m) \<noteq> None"
    by (simp add: stage_buffer_def split: option.split)
  have "length (insert_staged c (m_name m) x (stage_buffer st (m_name m) staged)) + length ms
      \<le> length staged + length (m # ms)" for c x
    using grown kept [OF there] by simp
  then show ?case unfolding acc stage_metrics.simps fst_conv
    by (intro order_trans [OF Cons.IH]) simp
qed simp

text \<open>All steps together are the operation.\<close>

lemma commit_steps:
  assumes "validate_batch batch = None"
  shows "\<exists>n \<le> 2 * length (b_metrics batch) + 4.
    (commit_step ^^ n) (st, Check batch) = (snd (commit_batch st batch), Return (fst (commit_batch st batch)))"
proof (cases "b_batch_id batch \<in> committed_batch_ids st \<or>
    int (length (b_metrics batch)) > int64_max - st_current_event_id st")
  case True
  then have "(commit_step ^^ 1) (st, Check batch) = (snd (commit_batch st batch), Return (fst (commit_batch st batch)))"
    using assms by (auto simp: commit_batch_def)
  then show ?thesis by (intro exI [of _ 1]) simp
next
  case False
  let ?ms = "b_metrics batch"
  obtain staged next_id where s: "stage_metrics st (b_client_id batch) ?ms ([], st_current_event_id st) = (staged, next_id)"
    by fastforce
  have short: "length staged \<le> length ?ms"
    using stage_length [of st "b_client_id batch" ?ms "([], st_current_event_id st)"] s by simp
  let ?st1 = "st\<lparr>committed_batch_ids := insert (b_batch_id batch) (committed_batch_ids st)\<rparr>"
  have "(commit_step ^^ (1 + length staged)) (?st1, Publish staged next_id) =
      (snd (commit_batch st batch), Return (fst (commit_batch st batch)))"
    using False assms s by (simp add: publish_steps commit_batch_def)
  moreover have "(commit_step ^^ 2) (st, Stage batch [] staged next_id) = (?st1, Publish staged next_id)"
    by (simp add: numeral_2_eq_2)
  moreover have "(commit_step ^^ (length ?ms + 1)) (st, Check batch) = (st, Stage batch [] staged next_id)"
    using False s stage_steps [of ?ms st batch "[]" "st_current_event_id st"] by (simp add: funpow_swap1)
  ultimately have "(commit_step ^^ ((1 + length staged) + 2 + (length ?ms + 1))) (st, Check batch) =
      (snd (commit_batch st batch), Return (fst (commit_batch st batch)))"
    unfolding funpow_add comp_apply by simp
  moreover have "(1 + length staged) + 2 + (length ?ms + 1) \<le> 2 * length ?ms + 4" using short by simp
  ultimately show ?thesis by blast
qed

text \<open>Before the batch ID is recorded, nothing shared has changed.\<close>

lemma commit_untouched:
  assumes "(commit_step ^^ n) (st, Check batch) = (st', pc)" "may_throw pc"
  shows "st' = st"
  using assms
proof (induction n arbitrary: st' pc)
  case (Suc n)
  obtain st1 pc1 where p: "(commit_step ^^ n) (st, Check batch) = (st1, pc1)" by fastforce
  with Suc.prems(1) have step: "commit_step (st1, pc1) = (st', pc)" by simp
  then have "may_throw pc1 \<and> st' = st1"
    using Suc.prems(2) by (cases "(st1, pc1)" rule: commit_step.cases) (auto split: if_splits)
  with Suc.IH [OF p] show ?case by simp
qed simp

section \<open>A query, access by access\<close>

datatype query =
    Range range_request
  | Latest latest_request
  | Current
  | Events subscribe_request uint32

datatype reply =
    Commit_reply "store_error + batch_commit_outcome"
  | Range_reply "store_error + range_response"
  | Latest_reply "store_error + latest_response option"
  | Current_reply "store_error + int"
  | Events_reply "store_error + metric_event list"
  | Threw

datatype query_pc =
    Range_Begin range_request range_query_plan
  | Range_Check range_request range_query_plan int
  | Range_Find range_request range_query_plan int
  | Latest_Find latest_request
  | Current_Read
  | Events_Scan subscribe_request uint32 nat "stored_metric list"
  | Answer reply

text \<open>What a query does before it takes the shared lock: refuse, or start with the plan it has made.\<close>

fun query_start :: "query \<Rightarrow> reply + query_pc" where
  "query_start (Range request) =
     (case make_range_query_plan request of
        Inl e \<Rightarrow> Inl (Range_reply (Inl e))
      | Inr plan \<Rightarrow> Inr (Range_Begin request plan))"
| "query_start (Latest request) =
     (case validate_query_filters request ''query_latest'' of
        Some e \<Rightarrow> Inl (Latest_reply (Inl e))
      | None \<Rightarrow> Inr (Latest_Find request))"
| "query_start Current = Inr Current_Read"
| "query_start (Events request fetch_limit) =
     (case validate_query_filters request ''query_events_after'' of
        Some e \<Rightarrow> Inl (Events_reply (Inl e))
      | None \<Rightarrow>
          if after_event_id request < 0
          then Inl (Events_reply (Inl (make_error InvalidArgument ''query_events_after'' ''after_event_id'' False)))
          else if fetch_limit = 0 \<or> fetch_limit > maximum_page_size
          then Inl (Events_reply (Inl (make_error InvalidArgument ''query_events_after'' ''fetch_limit'' False)))
          else Inr (Events_Scan request fetch_limit 0 []))"

fun query_step :: "store \<Rightarrow> query_pc \<Rightarrow> query_pc" where
  "query_step st (Range_Begin request plan) =
     Range_Check request plan (case plan_cursor plan of
       Some c \<Rightarrow> snapshot_event_id c | None \<Rightarrow> st_current_event_id st)"
| "query_step st (Range_Check request plan snapshot) =
     (if snapshot > st_current_event_id st
      then Answer (Range_reply (Inl (make_error InvalidArgument ''query_range'' ''page_token'' False)))
      else Range_Find request plan snapshot)"
| "query_step st (Range_Find request plan snapshot) =
     Answer (Range_reply (Inr (case map_of (metric_buffers st) (q_metric_name request) of
       None \<Rightarrow> default_range_response
     | Some buffer \<Rightarrow> build_range_page buffer request plan snapshot)))"
| "query_step st (Latest_Find request) =
     Answer (Latest_reply (Inr (case map_of (metric_buffers st) (q_metric_name request) of
       None \<Rightarrow> None
     | Some buffer \<Rightarrow> first_match request (rev buffer))))"
| "query_step st Current_Read = Answer (Current_reply (Inr (st_current_event_id st)))"
| "query_step st (Events_Scan request fetch_limit i matches) =
     (if i < length (metric_buffers st)
      then Events_Scan request fetch_limit (Suc i) (matches @
        filter (\<lambda>s. s_event_id s > after_event_id request \<and> matches_filters (s_metric s) request)
          (snd (metric_buffers st ! i)))
      else Answer (Events_reply (Inr (map event_of (take (unat fetch_limit) (sort_key s_event_id matches))))))"
| "query_step st (Answer r) = Answer r"

fun answer_of :: "store \<Rightarrow> query \<Rightarrow> reply" where
  "answer_of st (Range request) = Range_reply (query_range st request)"
| "answer_of st (Latest request) = Latest_reply (query_latest st request)"
| "answer_of st Current = Current_reply (current_event_id st)"
| "answer_of st (Events request fetch_limit) = Events_reply (query_events_after st request fetch_limit)"

lemma answer_not_threw [simp]: "answer_of st q \<noteq> Threw"
  by (cases q) simp_all

lemma refused_answer: "query_start q = Inl r \<Longrightarrow> answer_of st q = r"
  by (cases q)
    (auto simp: query_range_def query_latest_def query_events_after_def split: sum.splits option.splits if_splits)

lemma events_steps:
  assumes "i \<le> length (metric_buffers st)"
  shows "(query_step st ^^ i) (Events_Scan request fetch_limit 0 []) =
    Events_Scan request fetch_limit i (concat (map (\<lambda>(name, buffer).
      filter (\<lambda>s. s_event_id s > after_event_id request \<and> matches_filters (s_metric s) request) buffer)
      (take i (metric_buffers st))))"
  using assms
  by (induction i) (simp_all add: take_Suc_conv_app_nth case_prod_beta)

lemma query_steps:
  assumes "query_start q = Inr pc"
  shows "\<exists>n \<le> length (metric_buffers st) + 3. (query_step st ^^ n) pc = Answer (answer_of st q)"
proof (cases q)
  case (Range request)
  then obtain plan where p: "make_range_query_plan request = Inr plan" "pc = Range_Begin request plan"
    using assms by (auto split: sum.splits)
  let ?snap = "case plan_cursor plan of Some c \<Rightarrow> snapshot_event_id c | None \<Rightarrow> st_current_event_id st"
  show ?thesis
  proof (cases "?snap > st_current_event_id st")
    case True
    then have "(query_step st ^^ 2) pc = Answer (answer_of st q)"
      by (simp add: p query_range_def Range numeral_2_eq_2)
    then show ?thesis by (intro exI [of _ 2]) simp
  next
    case False
    then have "(query_step st ^^ 3) pc = Answer (answer_of st q)"
      by (simp add: p query_range_def Range numeral_3_eq_3 split: option.split)
    then show ?thesis by (intro exI [of _ 3]) simp
  qed
next
  case (Latest request)
  then have "(query_step st ^^ 1) pc = Answer (answer_of st q)"
    using assms by (auto simp: query_latest_def split: option.splits)
  then show ?thesis by (intro exI [of _ 1]) simp
next
  case Current
  then have "(query_step st ^^ 1) pc = Answer (answer_of st q)"
    using assms by (auto simp: current_event_id_def)
  then show ?thesis by (intro exI [of _ 1]) simp
next
  case (Events request fetch_limit)
  let ?n = "length (metric_buffers st)"
  have "pc = Events_Scan request fetch_limit 0 []" "answer_of st q =
      Events_reply (Inr (map event_of (take (unat fetch_limit) (sort_key s_event_id (collect_matches st request)))))"
    using assms by (auto simp: Events query_events_after_def split: option.splits if_splits)
  then have "(query_step st ^^ (Suc ?n)) pc = Answer (answer_of st q)"
    by (simp add: events_steps collect_matches_def)
  then show ?thesis by (intro exI [of _ "Suc ?n"]) simp
qed

lemma funpow_fixpoint_unique:
  assumes "(f ^^ m) x = y" "f y = y" "(f ^^ n) x = z" "f z = z"
  shows "y = z"
proof -
  have stay: "(f ^^ k) a = a" if "f a = a" for a k using that by (induction k) simp_all
  have "(f ^^ (n + m)) x = y" unfolding funpow_add comp_apply assms(1) by (rule stay [OF assms(2)])
  moreover have "(f ^^ (m + n)) x = z" unfolding funpow_add comp_apply assms(3) by (rule stay [OF assms(4)])
  ultimately show ?thesis by (simp add: add.commute)
qed

lemma commit_returned:
  assumes "validate_batch batch = None" "(commit_step ^^ n) (st, Check batch) = (st', Return r)"
  shows "commit_batch st batch = (r, st')"
proof -
  obtain k where "(commit_step ^^ k) (st, Check batch) = (snd (commit_batch st batch), Return (fst (commit_batch st batch)))"
    using commit_steps [OF assms(1)] by blast
  from funpow_fixpoint_unique [OF assms(2) _ this] show ?thesis by (cases "commit_batch st batch") simp
qed

lemma query_answered:
  assumes "query_start q = Inr pc" "(query_step st ^^ n) pc = Answer r"
  shows "answer_of st q = r"
proof -
  obtain k where "(query_step st ^^ k) pc = Answer (answer_of st q)" using query_steps [OF assms(1)] by blast
  from funpow_fixpoint_unique [OF assms(2) _ this] show ?thesis by simp
qed

section \<open>Threads and the shared mutex\<close>

datatype call = Commit metric_batch | Query query

datatype thread_pc =
    Idle
  | Wait_Write metric_batch
  | Wait_Read query query_pc
  | Writing metric_batch commit_pc
  | Reading query query_pc

record 't machine =
  shared :: store
  writer :: "'t option"
  readers :: "'t set"
  running :: "'t \<Rightarrow> thread_pc"
  history :: "(call \<times> reply) list"

text \<open>
  A writer gets the mutex when nobody holds it, a reader when no writer does. The lock is released when the operation
  returns or throws, and only then the reply is in the history, in the order of the replies.
\<close>

definition goto :: "'t \<Rightarrow> thread_pc \<Rightarrow> 't machine \<Rightarrow> 't machine" where
  "goto t p m = m\<lparr>running := (running m)(t := p)\<rparr>"

definition reply_to :: "'t \<Rightarrow> call \<Rightarrow> reply \<Rightarrow> 't machine \<Rightarrow> 't machine" where
  "reply_to t c r m = m\<lparr>running := (running m)(t := Idle), history := history m @ [(c, r)]\<rparr>"

inductive store_step :: "'t machine \<Rightarrow> 't machine \<Rightarrow> bool" where
  commit_refused: "running m t = Idle \<Longrightarrow> validate_batch b = Some e \<Longrightarrow>
     store_step m (reply_to t (Commit b) (Commit_reply (Inl e)) m)"
| commit_called: "running m t = Idle \<Longrightarrow> validate_batch b = None \<Longrightarrow> store_step m (goto t (Wait_Write b) m)"
| query_refused: "running m t = Idle \<Longrightarrow> query_start q = Inl r \<Longrightarrow> store_step m (reply_to t (Query q) r m)"
| query_called: "running m t = Idle \<Longrightarrow> query_start q = Inr p \<Longrightarrow> store_step m (goto t (Wait_Read q p) m)"
| early_throw: "running m t = Idle \<Longrightarrow> store_step m (reply_to t c Threw m)"
| lock_exclusive: "running m t = Wait_Write b \<Longrightarrow> writer m = None \<Longrightarrow> readers m = {} \<Longrightarrow>
     store_step m (goto t (Writing b (Check b)) (m\<lparr>writer := Some t\<rparr>))"
| lock_shared: "running m t = Wait_Read q p \<Longrightarrow> writer m = None \<Longrightarrow>
     store_step m (goto t (Reading q p) (m\<lparr>readers := insert t (readers m)\<rparr>))"
| write_access: "running m t = Writing b p \<Longrightarrow> commit_step (shared m, p) = (st', p') \<Longrightarrow>
     store_step m (goto t (Writing b p') (m\<lparr>shared := st'\<rparr>))"
| write_throw: "running m t = Writing b p \<Longrightarrow> may_throw p \<Longrightarrow>
     store_step m (reply_to t (Commit b) Threw (m\<lparr>writer := None\<rparr>))"
| write_return: "running m t = Writing b (Return r) \<Longrightarrow>
     store_step m (reply_to t (Commit b) (Commit_reply r) (m\<lparr>writer := None\<rparr>))"
| read_access: "running m t = Reading q p \<Longrightarrow> store_step m (goto t (Reading q (query_step (shared m) p)) m)"
| read_throw: "running m t = Reading q p \<Longrightarrow>
     store_step m (reply_to t (Query q) Threw (m\<lparr>readers := readers m - {t}\<rparr>))"
| read_return: "running m t = Reading q (Answer r) \<Longrightarrow>
     store_step m (reply_to t (Query q) r (m\<lparr>readers := readers m - {t}\<rparr>))"

definition machine_start :: "nat \<Rightarrow> 't machine" where
  "machine_start capacity =
     \<lparr>shared = new_store capacity, writer = None, readers = {}, running = (\<lambda>_. Idle), history = []\<rparr>"

inductive machine_reachable :: "nat \<Rightarrow> 't machine \<Rightarrow> bool" for capacity :: nat where
  start: "machine_reachable capacity (machine_start capacity)"
| more: "machine_reachable capacity m \<Longrightarrow> store_step m m' \<Longrightarrow> machine_reachable capacity m'"

section \<open>Sequences of whole operations\<close>

text \<open>
  \<open>serial st h\<close> runs the calls of a history one after the other, each as one whole operation, and gives the final store if
  every recorded reply is the operation's result. A call that threw has had no effect.
\<close>

fun perform :: "store \<Rightarrow> call \<Rightarrow> reply \<times> store" where
  "perform st (Commit b) = (case commit_batch st b of (r, st') \<Rightarrow> (Commit_reply r, st'))"
| "perform st (Query q) = (answer_of st q, st)"

fun serial :: "store \<Rightarrow> (call \<times> reply) list \<Rightarrow> store option" where
  "serial st [] = Some st"
| "serial st ((c, r) # h) =
     (if r = Threw then serial st h
      else case perform st c of (r', st') \<Rightarrow> if r' = r then serial st' h else None)"

lemma serial_append:
  "serial st (h @ k) = (case serial st h of None \<Rightarrow> None | Some st' \<Rightarrow> serial st' k)"
  by (induction st h rule: serial.induct) (auto split: prod.split)

text \<open>
  The invariant: \<open>base\<close> is the store after the completed operations. The writer is somewhere in its commit
  of that store, and every reader somewhere in its query of it.
\<close>

definition writes_from :: "store \<Rightarrow> store \<Rightarrow> thread_pc \<Rightarrow> bool" where
  "writes_from base st tp \<longleftrightarrow> (\<exists>b p n. tp = Writing b p \<and> validate_batch b = None \<and>
     (commit_step ^^ n) (base, Check b) = (st, p))"

definition thread_ok :: "store \<Rightarrow> 't machine \<Rightarrow> 't \<Rightarrow> bool" where
  "thread_ok base m t \<longleftrightarrow> (case running m t of
       Idle \<Rightarrow> t \<notin> readers m \<and> writer m \<noteq> Some t
     | Wait_Write b \<Rightarrow> t \<notin> readers m \<and> writer m \<noteq> Some t \<and> validate_batch b = None
     | Wait_Read q p \<Rightarrow> t \<notin> readers m \<and> writer m \<noteq> Some t \<and> query_start q = Inr p
     | Writing b p \<Rightarrow> t \<notin> readers m \<and> writer m = Some t
     | Reading q p \<Rightarrow> t \<in> readers m \<and> writer m \<noteq> Some t \<and>
         (\<exists>p0 n. query_start q = Inr p0 \<and> (query_step base ^^ n) p0 = p))"

definition lock_ok :: "store \<Rightarrow> 't machine \<Rightarrow> bool" where
  "lock_ok base m \<longleftrightarrow> (case writer m of
       None \<Rightarrow> shared m = base
     | Some t \<Rightarrow> readers m = {} \<and> writes_from base (shared m) (running m t))"

definition machine_inv :: "nat \<Rightarrow> 't machine \<Rightarrow> store \<Rightarrow> bool" where
  "machine_inv capacity m base \<longleftrightarrow>
     serial (new_store capacity) (history m) = Some base \<and> lock_ok base m \<and> (\<forall>t. thread_ok base m t)"

text \<open>A step of one thread leaves the condition of every other one alone.\<close>

lemma thread_ok_other:
  assumes "thread_ok base m u" "running m' u = running m u" "base' = base \<or> readers m = {}"
    "u \<in> readers m' \<longleftrightarrow> u \<in> readers m" "writer m' = Some u \<longleftrightarrow> writer m = Some u"
  shows "thread_ok base' m' u"
  using assms by (auto simp: thread_ok_def split: thread_pc.splits)

lemma machine_invI:
  assumes "machine_inv capacity m base" "history m' = history m @ h" "serial base h = Some base'"
    "\<forall>u. u \<noteq> t \<longrightarrow> running m' u = running m u \<and> (u \<in> readers m' \<longleftrightarrow> u \<in> readers m) \<and>
       (writer m' = Some u \<longleftrightarrow> writer m = Some u)"
    "base' = base \<or> readers m = {}" "thread_ok base' m' t" "lock_ok base' m'"
  shows "machine_inv capacity m' base'"
proof -
  have "thread_ok base' m' u" for u
  proof (cases "u = t")
    case False
    with assms(4) have same: "running m' u = running m u" "u \<in> readers m' \<longleftrightarrow> u \<in> readers m"
      "writer m' = Some u \<longleftrightarrow> writer m = Some u" by blast+
    have "thread_ok base m u" using assms(1) by (simp add: machine_inv_def)
    then show ?thesis using same(1) assms(5) same(2,3) by (rule thread_ok_other)
  qed (use assms(6) in simp)
  then show ?thesis using assms(1-3,7) by (simp add: machine_inv_def serial_append)
qed

text \<open>Steps without the exclusive lock, before, during or after a query.\<close>

lemma outside_step:
  assumes "machine_inv capacity m base" "writer m \<noteq> Some t" "serial base h = Some base"
    "m' = m\<lparr>readers := R, running := (running m)(t := p), history := history m @ h\<rparr>"
    "R - {t} = readers m - {t}" "R \<subseteq> readers m \<or> writer m = None" "thread_ok base m' t"
  shows "machine_inv capacity m' base"
proof (rule machine_invI [OF assms(1), where t = t])
  show "lock_ok base m'"
    using assms(1,2,4,6) by (auto simp: machine_inv_def lock_ok_def split: option.splits)
  show "\<forall>u. u \<noteq> t \<longrightarrow> running m' u = running m u \<and> (u \<in> readers m' \<longleftrightarrow> u \<in> readers m) \<and>
       (writer m' = Some u \<longleftrightarrow> writer m = Some u)"
    using assms(5) by (auto simp: assms(4))
qed (use assms in simp_all)

lemma reading_state:
  assumes "machine_inv capacity m base" "running m t = Reading q p"
  shows "writer m = None" "shared m = base" "\<exists>p0 n. query_start q = Inr p0 \<and> (query_step base ^^ n) p0 = p"
proof -
  have t: "t \<in> readers m" and p: "\<exists>p0 n. query_start q = Inr p0 \<and> (query_step base ^^ n) p0 = p"
    using assms by (auto simp: machine_inv_def thread_ok_def dest!: spec [of _ t])
  with assms(1) show "writer m = None" "shared m = base"
    by (auto simp: machine_inv_def lock_ok_def split: option.splits)
  show "\<exists>p0 n. query_start q = Inr p0 \<and> (query_step base ^^ n) p0 = p" by (rule p)
qed

lemma writing_state:
  assumes "machine_inv capacity m base" "running m t = Writing b p"
  shows "writer m = Some t" "readers m = {}" "validate_batch b = None"
    "\<exists>n. (commit_step ^^ n) (base, Check b) = (shared m, p)"
proof -
  show w: "writer m = Some t"
    using assms by (auto simp: machine_inv_def thread_ok_def dest!: spec [of _ t])
  with assms show "readers m = {}" "validate_batch b = None"
    "\<exists>n. (commit_step ^^ n) (base, Check b) = (shared m, p)"
    by (auto simp: machine_inv_def lock_ok_def writes_from_def)
qed

text \<open>Steps of the thread that holds the exclusive lock, up to its release.\<close>

lemma writer_step:
  assumes "machine_inv capacity m base" "running m t = Writing b p"
    "m' = m\<lparr>shared := st', writer := W, running := (running m)(t := q), history := history m @ h\<rparr>"
    "serial base h = Some base'"
    "W = None \<and> q = Idle \<and> st' = base' \<or> W = Some t \<and> h = [] \<and> writes_from base st' q"
  shows "machine_inv capacity m' base'"
proof -
  note w = writing_state [OF assms(1,2)]
  show ?thesis
  proof (rule machine_invI [OF assms(1), where t = t])
    show "thread_ok base' m' t"
      using assms(3-5) w by (auto simp: thread_ok_def writes_from_def)
    show "lock_ok base' m'"
      using assms(3-5) w by (auto simp: lock_ok_def)
    show "\<forall>u. u \<noteq> t \<longrightarrow> running m' u = running m u \<and> (u \<in> readers m' \<longleftrightarrow> u \<in> readers m) \<and>
       (writer m' = Some u \<longleftrightarrow> writer m = Some u)"
      using assms(3,5) w(1) by auto
  qed (use assms w in simp_all)
qed

lemma idle_state:
  assumes "machine_inv capacity m base" "running m t = Idle"
  shows "t \<notin> readers m" "writer m \<noteq> Some t"
  using assms by (auto simp: machine_inv_def thread_ok_def dest!: spec [of _ t])

lemma waiting_state:
  assumes "machine_inv capacity m base"
  shows "running m t = Wait_Write b \<Longrightarrow> t \<notin> readers m \<and> writer m \<noteq> Some t \<and> validate_batch b = None"
    "running m t = Wait_Read q p \<Longrightarrow> t \<notin> readers m \<and> writer m \<noteq> Some t \<and> query_start q = Inr p"
  using assms by (auto simp: machine_inv_def thread_ok_def dest!: spec [of _ t])

lemma serial_one:
  "serial base [(c, Threw)] = Some base"
  "commit_batch base b = (r, base') \<Longrightarrow> serial base [(Commit b, Commit_reply r)] = Some base'"
  "answer_of base q = a \<Longrightarrow> serial base [(Query q, a)] = Some base"
  using answer_not_threw [of base q] by auto

lemma record_same: "m\<lparr>readers := readers m, running := r, history := h\<rparr> = m\<lparr>running := r, history := h\<rparr>"
  "m\<lparr>running := r, history := history m @ []\<rparr> = m\<lparr>running := r\<rparr>"
  by simp_all

lemma idle_step:
  assumes "machine_inv capacity m base" "running m t = Idle" "serial base h = Some base"
    "p = Idle \<or> (\<exists>b. p = Wait_Write b \<and> validate_batch b = None) \<or> (\<exists>q p0. p = Wait_Read q p0 \<and> query_start q = Inr p0)"
  shows "machine_inv capacity (m\<lparr>running := (running m)(t := p), history := history m @ h\<rparr>) base"
proof (rule outside_step [OF assms(1) idle_state(2) [OF assms(1,2)] assms(3) record_same(1) [symmetric]])
  show "thread_ok base (m\<lparr>running := (running m)(t := p), history := history m @ h\<rparr>) t"
    using idle_state [OF assms(1,2)] assms(4) by (auto simp: thread_ok_def)
qed simp_all

lemma release_shared:
  assumes "machine_inv capacity m base" "running m t = Reading q p" "serial base [(Query q, r)] = Some base"
  shows "machine_inv capacity (reply_to t (Query q) r (m\<lparr>readers := readers m - {t}\<rparr>)) base"
proof (rule outside_step [OF assms(1) _ assms(3), where R = "readers m - {t}" and p = Idle and t = t])
  show "writer m \<noteq> Some t" using reading_state(1) [OF assms(1,2)] by simp
  then show "thread_ok base (reply_to t (Query q) r (m\<lparr>readers := readers m - {t}\<rparr>)) t"
    by (simp add: thread_ok_def reply_to_def)
qed (auto simp: reply_to_def)

lemma thread_ok_reading:
  assumes "running m t = Reading q p" "t \<in> readers m" "writer m \<noteq> Some t"
    "query_start q = Inr p0" "(query_step base ^^ n) p0 = p"
  shows "thread_ok base m t"
  using assms by (auto simp: thread_ok_def)

lemma lock_shared_step:
  assumes "machine_inv capacity m base" "running m t = Wait_Read q p" "writer m = None"
  shows "machine_inv capacity (goto t (Reading q p) (m\<lparr>readers := insert t (readers m)\<rparr>)) base"
proof (rule outside_step [OF assms(1), where R = "insert t (readers m)" and p = "Reading q p" and h = "[]" and t = t])
  have "query_start q = Inr p" using waiting_state(2) [OF assms(1,2)] by blast
  then show "thread_ok base (goto t (Reading q p) (m\<lparr>readers := insert t (readers m)\<rparr>)) t"
    by (intro thread_ok_reading [where n = 0 and ?p0.0 = p]) (simp_all add: goto_def assms(3))
qed (use assms(3) in \<open>auto simp: goto_def\<close>)

lemma read_step:
  assumes "machine_inv capacity m base" "running m t = Reading q p"
  shows "machine_inv capacity (goto t (Reading q (query_step (shared m) p)) m) base"
proof (rule outside_step [OF assms(1), where R = "readers m" and p = "Reading q (query_step (shared m) p)" and h = "[]" and t = t])
  note r = reading_state [OF assms]
  obtain p0 n where p0: "query_start q = Inr p0" "(query_step base ^^ n) p0 = p" using r(3) by blast
  then have "(query_step base ^^ Suc n) p0 = query_step (shared m) p" using r(2) by simp
  moreover have "t \<in> readers m" using assms by (auto simp: machine_inv_def thread_ok_def dest!: spec [of _ t])
  ultimately show "thread_ok base (goto t (Reading q (query_step (shared m) p)) m) t"
    using p0(1) by (intro thread_ok_reading [where n = "Suc n" and ?p0.0 = p0]) (simp_all add: goto_def r(1))
  show "writer m \<noteq> Some t" using r(1) by simp
qed (simp_all add: goto_def)

lemma lock_exclusive_step:
  assumes "machine_inv capacity m base" "running m t = Wait_Write b" "writer m = None" "readers m = {}"
  shows "machine_inv capacity (goto t (Writing b (Check b)) (m\<lparr>writer := Some t\<rparr>)) base"
proof (rule machine_invI [OF assms(1), where t = t and h = "[]"])
  have "shared m = base" using assms(1,3) by (simp add: machine_inv_def lock_ok_def)
  moreover have "validate_batch b = None" using waiting_state(1) [OF assms(1,2)] by blast
  moreover have "(commit_step ^^ 0) (base, Check b) = (base, Check b)" by simp
  ultimately have "writes_from base (shared m) (Writing b (Check b))" unfolding writes_from_def by blast
  then show "lock_ok base (goto t (Writing b (Check b)) (m\<lparr>writer := Some t\<rparr>))"
    using assms(4) by (simp add: lock_ok_def goto_def)
  show "thread_ok base (goto t (Writing b (Check b)) (m\<lparr>writer := Some t\<rparr>)) t"
    using assms(4) by (simp add: thread_ok_def goto_def)
qed (use assms(3) in \<open>simp_all add: goto_def\<close>)

lemma write_step:
  assumes "machine_inv capacity m base" "running m t = Writing b p" "commit_step (shared m, p) = (st', p')"
  shows "machine_inv capacity (goto t (Writing b p') (m\<lparr>shared := st'\<rparr>)) base"
proof (rule writer_step [OF assms(1,2), where h = "[]" and W = "Some t" and q = "Writing b p'"])
  note w = writing_state [OF assms(1,2)]
  then obtain n where "(commit_step ^^ n) (base, Check b) = (shared m, p)" by blast
  then have "(commit_step ^^ Suc n) (base, Check b) = (st', p')" using assms(3) by simp
  with w(3) show "Some t = None \<and> Writing b p' = Idle \<and> st' = base \<or> Some t = Some t \<and> [] = [] \<and> writes_from base st' (Writing b p')"
    unfolding writes_from_def by blast
  show "goto t (Writing b p') (m\<lparr>shared := st'\<rparr>) =
      m\<lparr>shared := st', writer := Some t, running := (running m)(t := Writing b p'), history := history m @ []\<rparr>"
    using w(1) by (simp add: goto_def)
qed simp

lemma release_exclusive:
  assumes "machine_inv capacity m base" "running m t = Writing b p" "serial base [(Commit b, r)] = Some (shared m)"
  shows "machine_inv capacity (reply_to t (Commit b) r (m\<lparr>writer := None\<rparr>)) (shared m)"
  by (rule writer_step [OF assms(1,2), where h = "[(Commit b, r)]" and W = None and q = Idle and st' = "shared m"])
    (use assms(3) in \<open>simp_all add: reply_to_def\<close>)

lemma store_step_inv:
  assumes "store_step m m'" "machine_inv capacity m base"
  shows "\<exists>base'. machine_inv capacity m' base'"
  using assms(1)
proof cases
  case (commit_refused t b e)
  then have "commit_batch base b = (Inl e, base)" by (simp add: commit_batch_def)
  from idle_step [OF assms(2) commit_refused(2) serial_one(2) [OF this], of Idle] show ?thesis
    unfolding commit_refused(1) reply_to_def by blast
next
  case (commit_called t b)
  from idle_step [OF assms(2) commit_called(2) serial.simps(1), of "Wait_Write b"] commit_called(3) show ?thesis
    unfolding commit_called(1) goto_def record_same(2) by blast
next
  case (query_refused t q r)
  from idle_step [OF assms(2) query_refused(2) serial_one(3) [OF refused_answer [OF query_refused(3)]], of Idle]
  show ?thesis unfolding query_refused(1) reply_to_def by blast
next
  case (query_called t q p)
  from idle_step [OF assms(2) query_called(2) serial.simps(1), of "Wait_Read q p"] query_called(3) show ?thesis
    unfolding query_called(1) goto_def record_same(2) by blast
next
  case (early_throw t c)
  from idle_step [OF assms(2) early_throw(2) serial_one(1), of Idle] show ?thesis
    unfolding early_throw(1) reply_to_def by blast
next
  case (lock_exclusive t b)
  from lock_exclusive_step [OF assms(2) lock_exclusive(2-4)] show ?thesis unfolding lock_exclusive(1) by blast
next
  case (lock_shared t q p)
  from lock_shared_step [OF assms(2) lock_shared(2,3)] show ?thesis unfolding lock_shared(1) by blast
next
  case (write_access t b p st' p')
  from write_step [OF assms(2) write_access(2,3)] show ?thesis unfolding write_access(1) by blast
next
  case (write_throw t b p)
  note w = writing_state [OF assms(2) write_throw(2)]
  then have "shared m = base" using commit_untouched write_throw(3) by blast
  then have "serial base [(Commit b, Threw)] = Some (shared m)" by simp
  from release_exclusive [OF assms(2) write_throw(2) this] show ?thesis unfolding write_throw(1) by blast
next
  case (write_return t b r)
  note w = writing_state [OF assms(2) write_return(2)]
  then have "commit_batch base b = (r, shared m)" using commit_returned by blast
  from release_exclusive [OF assms(2) write_return(2) serial_one(2) [OF this]] show ?thesis
    unfolding write_return(1) by blast
next
  case (read_access t q p)
  from read_step [OF assms(2) read_access(2)] show ?thesis unfolding read_access(1) by blast
next
  case (read_throw t q p)
  from release_shared [OF assms(2) read_throw(2) serial_one(1)] show ?thesis unfolding read_throw(1) by blast
next
  case (read_return t q r)
  obtain p0 n where "query_start q = Inr p0" "(query_step base ^^ n) p0 = Answer r"
    using reading_state(3) [OF assms(2) read_return(2)] by blast
  from release_shared [OF assms(2) read_return(2) serial_one(3) [OF query_answered [OF this]]] show ?thesis
    unfolding read_return(1) by blast
qed

lemma machine_start_inv: "machine_inv capacity (machine_start capacity) (new_store capacity)"
  by (simp add: machine_inv_def machine_start_def lock_ok_def thread_ok_def)

lemma machine_reachable_inv: "machine_reachable capacity m \<Longrightarrow> \<exists>base. machine_inv capacity m base"
  by (induction rule: machine_reachable.induct) (use machine_start_inv store_step_inv in blast)+

text \<open>What the completed operations leave is the result of a sequence of commits.\<close>

lemma serial_commits:
  "serial st h = Some base \<Longrightarrow> \<exists>bs outs. commit_all commit_batch bs st = (outs, base)"
proof (induction h arbitrary: base rule: rev_induct)
  case Nil
  then have "commit_all commit_batch [] st = ([], base)" by simp
  then show ?case by blast
next
  case (snoc e h)
  obtain c r where e: "e = (c, r)" by fastforce
  obtain st1 where h: "serial st h = Some st1" and last: "serial st1 [(c, r)] = Some base"
    using snoc.prems by (auto simp: serial_append e split: option.splits)
  obtain bs outs where b: "commit_all commit_batch bs st = (outs, st1)" using snoc.IH [OF h] by blast
  show ?case
  proof (cases "r = Threw \<or> (\<exists>q. c = Query q)")
    case True
    then have "base = st1" using last by (auto split: if_splits)
    with b show ?thesis by blast
  next
    case False
    then obtain batch where "c = Commit batch" by (cases c) auto
    then obtain r' where "commit_batch st1 batch = (r', base)"
      using last False by (auto split: prod.splits if_splits)
    from commit_all_snoc [OF b this] show ?thesis by blast
  qed
qed

section \<open>Properties\<close>

text \<open>
  C9: The store is linearizable. In every state that any number of threads can reach by interleaving the individual accesses of
  their commits and queries under the shared mutex, with exceptions thrown inside either, the replies
  given so far are those of the same calls run one after the other in the order of the replies, where the calls that threw have
  had no effect. The shared state is exactly what these calls leave (which is what some sequence of commits
  on a new store leaves) whenever nobody writes, all the time a query is reading, and in a commit until the batch
  ID is recorded; and a writer excludes every other thread.
\<close>

theorem store_linearizable:
  assumes "machine_reachable capacity m"
  shows "\<exists>base bs outs. serial (new_store capacity) (history m) = Some base \<and>
    commit_all commit_batch bs (new_store capacity) = (outs, base) \<and>
    (writer m = None \<longrightarrow> shared m = base) \<and>
    (\<forall>t q p. running m t = Reading q p \<longrightarrow> shared m = base \<and> writer m = None) \<and>
    (\<forall>t b p. running m t = Writing b p \<longrightarrow> writer m = Some t \<and> readers m = {} \<and> (may_throw p \<longrightarrow> shared m = base))"
proof -
  obtain base where inv: "machine_inv capacity m base" using machine_reachable_inv [OF assms] by blast
  then have s: "serial (new_store capacity) (history m) = Some base" and free: "writer m = None \<longrightarrow> shared m = base"
    by (simp_all add: machine_inv_def lock_ok_def split: option.splits)
  from serial_commits [OF s] obtain bs outs where c: "commit_all commit_batch bs (new_store capacity) = (outs, base)" by blast
  have "shared m = base \<and> writer m = None" if "running m t = Reading q p" for t q p
    using reading_state [OF inv that] by blast
  moreover have "writer m = Some t \<and> readers m = {} \<and> (may_throw p \<longrightarrow> shared m = base)"
    if "running m t = Writing b p" for t b p
    using writing_state [OF inv that] commit_untouched by blast
  ultimately show ?thesis
    by (intro exI conjI allI impI) (use s free c in simp_all)
qed

lemma more_eq: "machine_reachable capacity m \<Longrightarrow> store_step m m' \<Longrightarrow> m' = m'' \<Longrightarrow> machine_reachable capacity m''"
  using more by blast

lemma write_run:
  assumes "machine_reachable capacity m" "running m t = Writing b p" "(commit_step ^^ n) (shared m, p) = (st', p')"
  shows "machine_reachable capacity (m\<lparr>shared := st', running := (running m)(t := Writing b p')\<rparr>)"
  using assms(3)
proof (induction n arbitrary: st' p')
  case 0
  then have "st' = shared m" "(running m)(t := Writing b p') = running m" using assms(2) by auto
  with assms(1) show ?case by simp
next
  case (Suc n)
  obtain st1 p1 where p: "(commit_step ^^ n) (shared m, p) = (st1, p1)" by fastforce
  let ?m = "m\<lparr>shared := st1, running := (running m)(t := Writing b p1)\<rparr>"
  have "store_step ?m (goto t (Writing b p') (?m\<lparr>shared := st'\<rparr>))"
    using Suc.prems p by (intro write_access) simp_all
  then show ?case by (rule more_eq [OF Suc.IH [OF p]]) (auto simp: goto_def fun_eq_iff)
qed

text \<open>Thread 1 commits a batch while thread 2 waits to read the event ID, and reads it afterwards.\<close>

definition example_call :: metric_batch where
  "example_call = example_batch ''b1'' [example_metric ''cpu'' 3 20]"

definition two_threads :: "store \<Rightarrow> nat option \<Rightarrow> nat set \<Rightarrow> thread_pc \<Rightarrow> thread_pc \<Rightarrow> (call \<times> reply) list \<Rightarrow> nat machine" where
  "two_threads st w R a b h =
     \<lparr>shared = st, writer = w, readers = R, running = (\<lambda>_. Idle)(1 := a, 2 := b), history = h\<rparr>"

lemmas two_defs = two_threads_def goto_def reply_to_def fun_eq_iff

lemma example_machine:
  "\<exists>m :: nat machine. machine_reachable 5 m \<and>
     history m = [(Commit example_call, Commit_reply (Inr Committed)), (Query Current, Current_reply (Inr 1))]"
proof -
  let ?b = example_call and ?st = "new_store 5"
  let ?st' = "snd (commit_batch ?st ?b)"
  let ?h = "[(Commit ?b, Commit_reply (Inr Committed))]"
    and ?locked = "two_threads ?st (Some 1) {} (Writing ?b (Check ?b)) (Wait_Read Current Current_Read) []"
  have v: "validate_batch ?b = None" and c: "fst (commit_batch ?st ?b) = Inr Committed"
    and one: "st_current_event_id ?st' = 1"
    by (simp_all add: example_call_def store_eval example_defs int64_max_def)
  obtain n where n: "(commit_step ^^ n) (?st, Check ?b) = (?st', Return (Inr Committed))"
    using commit_steps [OF v, of ?st] c by metis
  have "machine_reachable 5 (two_threads ?st None {} Idle Idle [])"
  proof -
    have "(machine_start 5 :: nat machine) = two_threads ?st None {} Idle Idle []"
      by (auto simp: two_threads_def machine_start_def fun_eq_iff)
    moreover have "machine_reachable 5 (machine_start 5 :: nat machine)" by (rule start)
    ultimately show ?thesis by simp
  qed
  then have "machine_reachable 5 (two_threads ?st None {} (Wait_Write ?b) Idle [])"
    by (rule more_eq [OF _ commit_called [where t = 1 and b = ?b]]) (auto simp: two_defs v)
  then have "machine_reachable 5 (two_threads ?st (Some 1) {} (Writing ?b (Check ?b)) Idle [])"
    by (rule more_eq [OF _ lock_exclusive [where t = 1 and b = ?b]]) (auto simp: two_defs)
  then have "machine_reachable 5 ?locked"
    by (rule more_eq [OF _ query_called [where t = 2 and q = Current and p = Current_Read]]) (auto simp: two_defs)
  then have "machine_reachable 5 (?locked
      \<lparr>shared := ?st', running := (running ?locked)
        (1 := Writing ?b (Return (Inr Committed)))\<rparr>)"
    by (rule write_run [where n = n and p = "Check ?b"]) (simp_all add: two_threads_def n)
  also have "?locked
      \<lparr>shared := ?st', running := (running ?locked)
        (1 := Writing ?b (Return (Inr Committed)))\<rparr> =
      two_threads ?st' (Some 1) {} (Writing ?b (Return (Inr Committed))) (Wait_Read Current Current_Read) []"
    by (auto simp: two_defs)
  finally have "machine_reachable 5 (two_threads ?st' (Some 1) {} (Writing ?b (Return (Inr Committed))) (Wait_Read Current Current_Read) [])" .
  then have "machine_reachable 5 (two_threads ?st' None {} Idle (Wait_Read Current Current_Read) ?h)"
    by (rule more_eq [OF _ write_return [where t = 1 and b = ?b]]) (auto simp: two_defs)
  then have "machine_reachable 5 (two_threads ?st' None {2} Idle (Reading Current Current_Read) ?h)"
    by (rule more_eq [OF _ lock_shared [where t = 2]]) (auto simp: two_defs)
  then have "machine_reachable 5 (two_threads ?st' None {2} Idle (Reading Current (Answer (Current_reply (Inr 1)))) ?h)"
    by (rule more_eq [OF _ read_access [where t = 2]]) (auto simp: two_defs one)
  then have "machine_reachable 5 (two_threads ?st' None {} Idle Idle (?h @ [(Query Current, Current_reply (Inr 1))]))"
    by (rule more_eq [OF _ read_return [where t = 2]]) (auto simp: two_defs)
  then show ?thesis by (intro exI conjI, assumption) (simp add: two_threads_def)
qed

theorem store_linearizable_witness:
  "\<exists>m :: nat machine. machine_reachable 5 m \<and>
     history m = [(Commit example_call, Commit_reply (Inr Committed)), (Query Current, Current_reply (Inr 1))] \<and>
     (\<exists>base bs outs. serial (new_store 5) (history m) = Some base \<and>
        commit_all commit_batch bs (new_store 5) = (outs, base))"
proof -
  from example_machine obtain m :: "nat machine" where m: "machine_reachable 5 m"
    "history m = [(Commit example_call, Commit_reply (Inr Committed)), (Query Current, Current_reply (Inr 1))]" by blast
  from store_linearizable [OF m(1)] m show ?thesis by blast
qed

text \<open>
  C13: A commit is all or nothing, and it ends. The accesses of a valid commit, one after the other, take at
  most twice as many steps as the batch has metrics, plus four, and give exactly the result and the store of
  the whole operation; and at every point at which an exception can be thrown none of them has changed the
  store yet, so a commit that throws leaves it as it was, and the batch can be delivered again.
\<close>

theorem commit_all_or_nothing:
  assumes "validate_batch batch = None"
  shows "(\<exists>n \<le> 2 * length (b_metrics batch) + 4.
      (commit_step ^^ n) (st, Check batch) = (snd (commit_batch st batch), Return (fst (commit_batch st batch)))) \<and>
    (\<forall>n st' pc. (commit_step ^^ n) (st, Check batch) = (st', pc) \<longrightarrow> may_throw pc \<longrightarrow> st' = st)"
  using commit_steps [OF assms] commit_untouched by blast

theorem commit_all_or_nothing_witness:
  "\<exists>n \<le> 6. (commit_step ^^ n) (new_store 5, Check example_call) =
     (snd (commit_batch (new_store 5) example_call), Return (Inr Committed))"
proof -
  have v: "validate_batch example_call = None" and c: "fst (commit_batch (new_store 5) example_call) = Inr Committed"
    and l: "length (b_metrics example_call) = 1"
    by (simp_all add: example_call_def store_eval example_defs int64_max_def)
  from commit_all_or_nothing [OF v, of "new_store 5"] show ?thesis unfolding c l by simp
qed

end
