(* ===== verification/Monitor.thy ===== *)
theory Monitor
  imports Prelude
begin

text \<open>
  An object whose operations run under one mutex: threads that wait for it, the one that holds it and is somewhere in
  its operation, exceptions that leave an operation half way. The locale states what an object must
  promise about one undisturbed operation; from it follows what any interleaving of any number of threads shows.
\<close>

section \<open>Threads around one mutex\<close>

record ('t, 's, 'p, 'o, 'r) monitor =
  guarded :: 's
  owner :: "('t \<times> 'o \<times> 'p) option"
  waiting_for :: "'t \<Rightarrow> 'o option"
  completed :: "('o \<times> 'r option) list"

text \<open>
  \<open>enter\<close> answers at once or gives the first point inside the critical section, \<open>access\<close> makes one access,
  \<open>reply_of\<close> tells the points of return, \<open>may_abort\<close> the points at which an exception can be thrown. A completed
  operation is recorded with its reply, or with \<open>None\<close> if it threw.
\<close>

inductive monitor_step :: "('s \<times> 'p \<Rightarrow> 's \<times> 'p) \<Rightarrow> ('o \<Rightarrow> 'r + 'p) \<Rightarrow> ('p \<Rightarrow> 'r option) \<Rightarrow> ('p \<Rightarrow> bool) \<Rightarrow>
    ('t, 's, 'p, 'o, 'r) monitor \<Rightarrow> ('t, 's, 'p, 'o, 'r) monitor \<Rightarrow> bool"
  for access enter reply_of may_abort where
  refused: "waiting_for m t = None \<Longrightarrow> \<forall>x. owner m \<noteq> Some (t, x) \<Longrightarrow> enter op = Inl r \<Longrightarrow>
     monitor_step access enter reply_of may_abort m (m\<lparr>completed := completed m @ [(op, Some r)]\<rparr>)"
| called: "waiting_for m t = None \<Longrightarrow> \<forall>x. owner m \<noteq> Some (t, x) \<Longrightarrow> enter op = Inr p \<Longrightarrow>
     monitor_step access enter reply_of may_abort m (m\<lparr>waiting_for := (waiting_for m)(t := Some op)\<rparr>)"
| locked: "waiting_for m t = Some op \<Longrightarrow> owner m = None \<Longrightarrow> enter op = Inr p \<Longrightarrow>
     monitor_step access enter reply_of may_abort m
       (m\<lparr>owner := Some (t, op, p), waiting_for := (waiting_for m)(t := None)\<rparr>)"
| accessed: "owner m = Some (t, op, p) \<Longrightarrow> reply_of p = None \<Longrightarrow> access (guarded m, p) = (s, p') \<Longrightarrow>
     monitor_step access enter reply_of may_abort m (m\<lparr>guarded := s, owner := Some (t, op, p')\<rparr>)"
| threw: "owner m = Some (t, op, p) \<Longrightarrow> may_abort p \<Longrightarrow>
     monitor_step access enter reply_of may_abort m (m\<lparr>owner := None, completed := completed m @ [(op, None)]\<rparr>)"
| returned: "owner m = Some (t, op, p) \<Longrightarrow> reply_of p = Some r \<Longrightarrow>
     monitor_step access enter reply_of may_abort m (m\<lparr>owner := None, completed := completed m @ [(op, Some r)]\<rparr>)"

definition monitor_start :: "'s \<Rightarrow> ('t, 's, 'p, 'o, 'r) monitor" where
  "monitor_start s = \<lparr>guarded = s, owner = None, waiting_for = (\<lambda>_. None), completed = []\<rparr>"

text \<open>A record of completed operations, run one after the other as whole operations.\<close>

fun serial_calls :: "('s \<Rightarrow> 'o \<Rightarrow> 'r \<times> 's) \<Rightarrow> ('s \<Rightarrow> 'o \<Rightarrow> 's) \<Rightarrow> 's \<Rightarrow> ('o \<times> 'r option) list \<Rightarrow> 's option" where
  "serial_calls perform aborted s [] = Some s"
| "serial_calls perform aborted s ((op, None) # h) = serial_calls perform aborted (aborted s op) h"
| "serial_calls perform aborted s ((op, Some r) # h) =
     (case perform s op of (r', s') \<Rightarrow> if r' = r then serial_calls perform aborted s' h else None)"

lemma serial_calls_snoc:
  assumes "serial_calls perform aborted s h = Some s1"
  shows "serial_calls perform aborted s (h @ [(op, None)]) = Some (aborted s1 op)"
    "perform s1 op = (r, s2) \<Longrightarrow> serial_calls perform aborted s (h @ [(op, Some r)]) = Some s2"
  using assms by (induction perform aborted s h rule: serial_calls.induct) (auto split: prod.splits if_splits)

section \<open>The contract of a guarded object\<close>

locale guarded_object =
  fixes access :: "'s \<times> 'p \<Rightarrow> 's \<times> 'p" and enter :: "'o \<Rightarrow> 'r + 'p" and reply_of :: "'p \<Rightarrow> 'r option"
    and may_abort :: "'p \<Rightarrow> bool" and perform :: "'s \<Rightarrow> 'o \<Rightarrow> 'r \<times> 's" and aborted :: "'s \<Rightarrow> 'o \<Rightarrow> 's"
    and remaining :: "'s \<times> 'p \<Rightarrow> nat"
  assumes whole_refused: "enter op = Inl r \<Longrightarrow> perform s op = (r, s)"
    and whole_returned: "enter op = Inr p \<Longrightarrow> (access ^^ n) (s, p) = (s', p') \<Longrightarrow> reply_of p' = Some r \<Longrightarrow> perform s op = (r, s')"
    and whole_aborted: "enter op = Inr p \<Longrightarrow> (access ^^ n) (s, p) = (s', p') \<Longrightarrow> may_abort p' \<Longrightarrow> s' = aborted s op"
    and access_stops: "reply_of p = Some r \<Longrightarrow> access (s, p) = (s, p)"
    and access_decreases: "reply_of p = None \<Longrightarrow> remaining (access (s, p)) < remaining (s, p)"
begin

lemma access_ends: "\<exists>n. reply_of (snd ((access ^^ n) x)) \<noteq> None"
proof (induction "remaining x" arbitrary: x rule: less_induct)
  case less
  obtain s p where x: "x = (s, p)" by fastforce
  show ?case
  proof (cases "reply_of p")
    case (Some r)
    then show ?thesis by (intro exI [of _ 0]) (simp add: x)
  next
    case None
    from less [OF access_decreases [OF None, of s, folded x]] obtain n where
      "reply_of (snd ((access ^^ n) (access x))) \<noteq> None" by blast
    then have "reply_of (snd ((access ^^ Suc n) x)) \<noteq> None" by (simp add: funpow_swap1)
    then show ?thesis by blast
  qed
qed

text \<open>\<open>base\<close> is the state after the completed operations; the owner is somewhere in its operation on it.\<close>

definition serves :: "'s \<Rightarrow> ('t, 's, 'p, 'o, 'r) monitor \<Rightarrow> 's \<Rightarrow> bool" where
  "serves s0 m base \<longleftrightarrow> serial_calls perform aborted s0 (completed m) = Some base \<and>
     (owner m = None \<longrightarrow> guarded m = base) \<and>
     (\<forall>t op p. owner m = Some (t, op, p) \<longrightarrow> (\<exists>p0 n. enter op = Inr p0 \<and> (access ^^ n) (base, p0) = (guarded m, p)))"

lemma serves_owner:
  "serves s0 m base \<Longrightarrow> owner m = Some (t, op, p) \<Longrightarrow> \<exists>p0 n. enter op = Inr p0 \<and> (access ^^ n) (base, p0) = (guarded m, p)"
  by (simp add: serves_def)

lemma serves_same:
  "serves s0 m base \<Longrightarrow> serial_calls perform aborted s0 (completed m') = Some base \<Longrightarrow> owner m' = owner m \<Longrightarrow>
     guarded m' = guarded m \<Longrightarrow> serves s0 m' base"
  by (simp add: serves_def)

lemma serves_step:
  assumes "monitor_step access enter reply_of may_abort m m'" "serves s0 m base"
  shows "\<exists>base'. serves s0 m' base'"
proof -
  have s: "serial_calls perform aborted s0 (completed m) = Some base" using assms(2) by (simp add: serves_def)
  from assms(1) show ?thesis
  proof cases
    case (refused t op r)
    from serial_calls_snoc(2) [OF s whole_refused [OF refused(4)]]
    have "serves s0 m' base" by (intro serves_same [OF assms(2)]) (simp_all add: refused(1))
    then show ?thesis by blast
  next
    case (called t op p)
    have "serves s0 m' base" by (rule serves_same [OF assms(2)]) (simp_all add: called(1) s)
    then show ?thesis by blast
  next
    case (locked t op p)
    moreover have "guarded m = base" using assms(2) locked(3) by (simp add: serves_def)
    moreover have "\<exists>n. (access ^^ n) (base, p) = (base, p)" by (rule exI [of _ 0]) simp
    ultimately have "serves s0 m' base" using s unfolding serves_def by auto
    then show ?thesis by blast
  next
    case (accessed t op p s p')
    obtain p0 n where p0: "enter op = Inr p0" "(access ^^ n) (base, p0) = (guarded m, p)"
      using serves_owner [OF assms(2) accessed(2)] by blast
    then have "(access ^^ Suc n) (base, p0) = (s, p')" using accessed(4) by simp
    then have "\<exists>n. (access ^^ n) (base, p0) = (s, p')" by (rule exI)
    with p0(1) s have "serves s0 m' base" unfolding accessed(1) serves_def by simp
    then show ?thesis by blast
  next
    case (threw t op p)
    from serves_owner [OF assms(2) threw(2)] obtain p0 n where
      "enter op = Inr p0" "(access ^^ n) (base, p0) = (guarded m, p)" by blast
    from whole_aborted [OF this threw(3)] have "serves s0 m' (aborted base op)"
      using serial_calls_snoc(1) [OF s] unfolding threw(1) serves_def by simp
    then show ?thesis by blast
  next
    case (returned t op p r)
    from serves_owner [OF assms(2) returned(2)] obtain p0 n where
      "enter op = Inr p0" "(access ^^ n) (base, p0) = (guarded m, p)" by blast
    from serial_calls_snoc(2) [OF s whole_returned [OF this returned(3)]]
    have "serves s0 m' (guarded m)" unfolding returned(1) serves_def by simp
    then show ?thesis by blast
  qed
qed

lemma reachable_serves:
  assumes "(monitor_step access enter reply_of may_abort)\<^sup>*\<^sup>* (monitor_start s0) m"
  shows "\<exists>base. serves s0 m base"
  using assms
proof (induction rule: rtranclp_induct)
  case base
  have "serves s0 (monitor_start s0) s0" by (simp add: serves_def monitor_start_def)
  then show ?case by blast
next
  case (step m m')
  then show ?case using serves_step by blast
qed

text \<open>A free mutex goes to whoever calls.\<close>

lemma call_starts:
  assumes "owner m = None" "waiting_for m t = None" "enter op = Inr p"
  shows "(monitor_step access enter reply_of may_abort)\<^sup>*\<^sup>* m (m\<lparr>owner := Some (t, op, p)\<rparr>)"
proof -
  let ?m = "m\<lparr>waiting_for := (waiting_for m)(t := Some op)\<rparr>"
  have "monitor_step access enter reply_of may_abort m ?m" by (rule called) (simp_all add: assms)
  moreover have "monitor_step access enter reply_of may_abort ?m
      (?m\<lparr>owner := Some (t, op, p), waiting_for := (waiting_for ?m)(t := None)\<rparr>)"
    by (rule locked) (simp_all add: assms)
  moreover have "(waiting_for m)(t := None) = waiting_for m" using assms(2) by (simp add: fun_upd_idem)
  ultimately show ?thesis by (simp add: rtranclp.rtrancl_into_rtrancl)
qed

text \<open>The owner alone can always finish, and gives the mutex back.\<close>

lemma owner_advances:
  assumes "owner m = Some (t, op, p)" "(access ^^ n) (guarded m, p) = (s, p')"
  shows "(monitor_step access enter reply_of may_abort)\<^sup>*\<^sup>* m (m\<lparr>guarded := s, owner := Some (t, op, p')\<rparr>)"
  using assms(2)
proof (induction n arbitrary: s p')
  case 0
  then have "m\<lparr>guarded := s, owner := Some (t, op, p')\<rparr> = m" using assms(1) by auto
  then show ?case by simp
next
  case (Suc n)
  obtain s1 p1 where n: "(access ^^ n) (guarded m, p) = (s1, p1)" by fastforce
  let ?m = "m\<lparr>guarded := s1, owner := Some (t, op, p1)\<rparr>"
  have last: "access (s1, p1) = (s, p')" using Suc.prems n by simp
  show ?case
  proof (cases "reply_of p1")
    case None
    have "monitor_step access enter reply_of may_abort ?m (?m\<lparr>guarded := s, owner := Some (t, op, p')\<rparr>)"
      by (rule monitor_step.accessed [where p = p1]) (use last None in simp_all)
    then have "monitor_step access enter reply_of may_abort ?m (m\<lparr>guarded := s, owner := Some (t, op, p')\<rparr>)" by simp
    with Suc.IH [OF n] show ?thesis by (rule rtranclp.rtrancl_into_rtrancl)
  next
    case (Some r)
    with access_stops [OF Some] last Suc.IH [OF n] show ?thesis by simp
  qed
qed

text \<open>Nobody else can interfere: every step leaves the owner and its object alone, or is one of its own, and brings it closer to the end.\<close>

lemma owner_progress:
  assumes "monitor_step access enter reply_of may_abort m m'" "owner m = Some (t, op, p)"
  shows "owner m' = None \<or> owner m' = owner m \<and> guarded m' = guarded m \<or>
    (\<exists>p'. owner m' = Some (t, op, p') \<and> remaining (guarded m', p') < remaining (guarded m, p))"
  using assms
proof cases
  case (accessed t op p s p')
  then show ?thesis using access_decreases [OF accessed(3), of "guarded m"] assms(2) by simp
qed simp_all

lemma owner_finishes:
  assumes "serves s0 m base" "owner m = Some (t, op, p)"
  shows "\<exists>m'. (monitor_step access enter reply_of may_abort)\<^sup>*\<^sup>* m m' \<and> owner m' = None \<and> waiting_for m' = waiting_for m \<and>
    guarded m' = snd (perform base op) \<and> completed m' = completed m @ [(op, Some (fst (perform base op)))]"
proof -
  obtain p0 k where p0: "enter op = Inr p0" "(access ^^ k) (base, p0) = (guarded m, p)"
    using serves_owner [OF assms] by blast
  obtain n r where n: "reply_of (snd ((access ^^ n) (guarded m, p))) = Some r" using access_ends [of "(guarded m, p)"] by blast
  obtain s' p' where e: "(access ^^ n) (guarded m, p) = (s', p')" by fastforce
  then have r: "reply_of p' = Some r" using n by simp
  have "(access ^^ (n + k)) (base, p0) = (s', p')" unfolding funpow_add comp_apply p0(2) by (rule e)
  from whole_returned [OF p0(1) this r] have whole: "perform base op = (r, s')" .
  let ?m = "m\<lparr>guarded := s', owner := Some (t, op, p')\<rparr>"
  have "monitor_step access enter reply_of may_abort ?m (?m\<lparr>owner := None, completed := completed ?m @ [(op, Some r)]\<rparr>)"
    by (rule monitor_step.returned [where t = t and p = p']) (simp_all add: r)
  with owner_advances [OF assms(2) e] have "(monitor_step access enter reply_of may_abort)\<^sup>*\<^sup>* m
      (?m\<lparr>owner := None, completed := completed ?m @ [(op, Some r)]\<rparr>)" by (rule rtranclp.rtrancl_into_rtrancl)
  then show ?thesis by (intro exI conjI, assumption) (simp_all add: whole)
qed

end

end
