(* ===== verification/Queue_Concurrency.thy ===== *)
theory Queue_Concurrency
  imports Monitor Pending_Batch_Queue
begin

text \<open>
  The pending queue under several threads, at the grain of its individual accesses: its operations hold the mutex, while the
  counter of dropped batches is an atomic that is read without it, in the middle of an \<open>enqueue\<close>, too. Copying a
  batch and growing the deque can run out of memory, so \<open>enqueue\<close> can throw after it has made room, and
  \<open>mark_next_in_flight\<close> after it has set the flag.
\<close>

section \<open>The operations, access by access\<close>

datatype queue_op = Enqueue metric_batch | Mark_next | Acknowledge string | Reset | Size

datatype queue_reply =
    Enqueue_reply enqueue_result
  | Mark_reply "metric_batch option"
  | Acknowledge_reply bool
  | Reset_reply
  | Size_reply nat

datatype queue_pc =
    Find_duplicate metric_batch
  | Check_capacity metric_batch
  | Count_rejected
  | Erase_oldest metric_batch nat
  | Count_dropped metric_batch
  | Push_back metric_batch enqueue_result
  | Find_pending
  | Set_flag nat
  | Copy_batch nat
  | Find_acknowledged string
  | Erase_acknowledged nat
  | Clear_flag nat
  | Read_size
  | Done queue_reply

fun queue_enter :: "queue_op \<Rightarrow> queue_reply + queue_pc" where
  "queue_enter (Enqueue batch) =
     (if b_client_id batch = [] \<or> b_batch_id batch = [] \<or> b_metrics batch = []
      then Inl (Enqueue_reply InvalidBatch) else Inr (Find_duplicate batch))"
| "queue_enter Mark_next = Inr Find_pending"
| "queue_enter (Acknowledge batch_id) = Inr (Find_acknowledged batch_id)"
| "queue_enter Reset = Inr (Clear_flag 0)"
| "queue_enter Size = Inr Read_size"

fun queue_access :: "batch_queue \<times> queue_pc \<Rightarrow> batch_queue \<times> queue_pc" where
  "queue_access (q, Find_duplicate batch) =
     (case find_if (\<lambda>e. entry_id e = b_batch_id batch) (q_batches q) of
        Some _ \<Rightarrow> (q, Done (Enqueue_reply DuplicateBatch))
      | None \<Rightarrow> (q, Check_capacity batch))"
| "queue_access (q, Check_capacity batch) =
     (if length (q_batches q) = q_capacity q then
        (case find_if (\<lambda>e. \<not> in_flight e) (q_batches q) of
           None \<Rightarrow> (q, Count_rejected)
         | Some oldest \<Rightarrow> (q, Erase_oldest batch oldest))
      else (q, Push_back batch Enqueued))"
| "queue_access (q, Count_rejected) =
     (q\<lparr>q_dropped := q_dropped q + 1\<rparr>, Done (Enqueue_reply RejectedAllInFlight))"
| "queue_access (q, Erase_oldest batch oldest) =
     (q\<lparr>q_batches := erase_at oldest (q_batches q)\<rparr>, Count_dropped batch)"
| "queue_access (q, Count_dropped batch) =
     (q\<lparr>q_dropped := q_dropped q + 1\<rparr>, Push_back batch DroppedOldest)"
| "queue_access (q, Push_back batch result) =
     (q\<lparr>q_batches := q_batches q @ [\<lparr>pb_batch = batch, in_flight = False\<rparr>]\<rparr>, Done (Enqueue_reply result))"
| "queue_access (q, Find_pending) =
     (case find_if (\<lambda>e. \<not> in_flight e) (q_batches q) of
        None \<Rightarrow> (q, Done (Mark_reply None))
      | Some i \<Rightarrow> (q, Set_flag i))"
| "queue_access (q, Set_flag i) =
     (q\<lparr>q_batches := (q_batches q)[i := (q_batches q ! i)\<lparr>in_flight := True\<rparr>]\<rparr>, Copy_batch i)"
| "queue_access (q, Copy_batch i) = (q, Done (Mark_reply (Some (pb_batch (q_batches q ! i)))))"
| "queue_access (q, Find_acknowledged batch_id) =
     (case find_if (\<lambda>e. entry_id e = batch_id) (q_batches q) of
        None \<Rightarrow> (q, Done (Acknowledge_reply False))
      | Some i \<Rightarrow> (q, Erase_acknowledged i))"
| "queue_access (q, Erase_acknowledged i) =
     (q\<lparr>q_batches := erase_at i (q_batches q)\<rparr>, Done (Acknowledge_reply True))"
| "queue_access (q, Clear_flag i) =
     (if i < length (q_batches q)
      then (q\<lparr>q_batches := (q_batches q)[i := (q_batches q ! i)\<lparr>in_flight := False\<rparr>]\<rparr>, Clear_flag (Suc i))
      else (q, Done Reset_reply))"
| "queue_access (q, Read_size) = (q, Done (Size_reply (queue_size q)))"
| "queue_access (q, Done r) = (q, Done r)"

fun queue_reply_of :: "queue_pc \<Rightarrow> queue_reply option" where
  "queue_reply_of (Done r) = Some r"
| "queue_reply_of _ = None"

fun queue_may_throw :: "queue_pc \<Rightarrow> bool" where
  "queue_may_throw (Push_back batch result) = True"
| "queue_may_throw (Copy_batch i) = True"
| "queue_may_throw _ = False"

section \<open>Whole operations\<close>

fun queue_perform :: "batch_queue \<Rightarrow> queue_op \<Rightarrow> queue_reply \<times> batch_queue" where
  "queue_perform q (Enqueue batch) = (case enqueue q batch of (r, q') \<Rightarrow> (Enqueue_reply r, q'))"
| "queue_perform q Mark_next = (case mark_next_in_flight q of (r, q') \<Rightarrow> (Mark_reply r, q'))"
| "queue_perform q (Acknowledge batch_id) = (case acknowledge q batch_id of (r, q') \<Rightarrow> (Acknowledge_reply r, q'))"
| "queue_perform q Reset = (Reset_reply, reset_in_flight q)"
| "queue_perform q Size = (Size_reply (queue_size q), q)"

text \<open>
  What an operation leaves that throws: a full queue has lost its oldest pending batch, or the next batch is flagged. Nothing else
  throws after its first change.
\<close>

fun queue_aborted :: "batch_queue \<Rightarrow> queue_op \<Rightarrow> batch_queue" where
  "queue_aborted q (Enqueue batch) =
     (if length (q_batches q) = q_capacity q then
        (case find_if (\<lambda>e. \<not> in_flight e) (q_batches q) of
           None \<Rightarrow> q
         | Some oldest \<Rightarrow> q\<lparr>q_batches := erase_at oldest (q_batches q), q_dropped := q_dropped q + 1\<rparr>)
      else q)"
| "queue_aborted q Mark_next = snd (mark_next_in_flight q)"
| "queue_aborted q _ = q"

text \<open>Where an operation started on \<open>q0\<close> can be, and what it has done by then.\<close>

fun queue_at :: "batch_queue \<Rightarrow> queue_op \<Rightarrow> batch_queue \<times> queue_pc \<Rightarrow> bool" where
  "queue_at q0 op (q, Done r) \<longleftrightarrow> queue_perform q0 op = (r, q)"
| "queue_at q0 (Enqueue b) (q, p) \<longleftrightarrow> admissible b \<and>
     (p \<noteq> Find_duplicate b \<longrightarrow> find_if (\<lambda>e. entry_id e = b_batch_id b) (q_batches q0) = None) \<and>
     (case p of
        Find_duplicate b' \<Rightarrow> b' = b \<and> q = q0
      | Check_capacity b' \<Rightarrow> b' = b \<and> q = q0
      | Count_rejected \<Rightarrow> q = q0 \<and> length (q_batches q0) = q_capacity q0 \<and> find_if (\<lambda>e. \<not> in_flight e) (q_batches q0) = None
      | Erase_oldest b' i \<Rightarrow> b' = b \<and> q = q0 \<and> length (q_batches q0) = q_capacity q0 \<and>
          find_if (\<lambda>e. \<not> in_flight e) (q_batches q0) = Some i
      | Count_dropped b' \<Rightarrow> b' = b \<and> length (q_batches q0) = q_capacity q0 \<and>
          (\<exists>i. find_if (\<lambda>e. \<not> in_flight e) (q_batches q0) = Some i \<and> q = q0\<lparr>q_batches := erase_at i (q_batches q0)\<rparr>)
      | Push_back b' r \<Rightarrow> b' = b \<and> q = queue_aborted q0 (Enqueue b) \<and>
          (if length (q_batches q0) = q_capacity q0
           then r = DroppedOldest \<and> find_if (\<lambda>e. \<not> in_flight e) (q_batches q0) \<noteq> None else r = Enqueued)
      | _ \<Rightarrow> False)"
| "queue_at q0 Mark_next (q, p) \<longleftrightarrow>
     (case p of
        Find_pending \<Rightarrow> q = q0
      | Set_flag i \<Rightarrow> q = q0 \<and> find_if (\<lambda>e. \<not> in_flight e) (q_batches q0) = Some i
      | Copy_batch i \<Rightarrow> q = snd (mark_next_in_flight q0) \<and> find_if (\<lambda>e. \<not> in_flight e) (q_batches q0) = Some i
      | _ \<Rightarrow> False)"
| "queue_at q0 (Acknowledge k) (q, p) \<longleftrightarrow> q = q0 \<and>
     (case p of
        Find_acknowledged k' \<Rightarrow> k' = k
      | Erase_acknowledged i \<Rightarrow> find_if (\<lambda>e. entry_id e = k) (q_batches q0) = Some i
      | _ \<Rightarrow> False)"
| "queue_at q0 Reset (q, p) \<longleftrightarrow>
     (\<exists>i \<le> length (q_batches q0). p = Clear_flag i \<and>
        q = q0\<lparr>q_batches := map (\<lambda>e. e\<lparr>in_flight := False\<rparr>) (take i (q_batches q0)) @ drop i (q_batches q0)\<rparr>)"
| "queue_at q0 Size (q, p) \<longleftrightarrow> q = q0 \<and> p = Read_size"

lemma queue_at_start: "queue_enter op = Inr p \<Longrightarrow> queue_at q op (q, p)"
  by (cases op) (auto simp: admissible_def split: if_splits)

lemma clear_next:
  assumes "i < length xs"
  shows "(map f (take i xs) @ drop i xs)[i := f ((map f (take i xs) @ drop i xs) ! i)] =
    map f (take (Suc i) xs) @ drop (Suc i) xs"
  using assms by (simp add: nth_append list_update_append take_Suc_conv_app_nth Cons_nth_drop_Suc [symmetric])

lemma queue_at_step:
  assumes "queue_at q0 op (q, p)"
  shows "queue_at q0 op (queue_access (q, p))"
proof (cases op)
  case (Enqueue b)
  then show ?thesis using assms
    by (cases p) (auto simp del: find_if_None simp: enqueue_def admissible_def Let_def split: option.splits if_splits)
next
  case Mark_next
  then show ?thesis using assms find_if_SomeD [of "\<lambda>e. \<not> in_flight e" "q_batches q0"]
    by (cases p) (auto simp del: find_if_None simp: mark_next_in_flight_def split: option.splits)
next
  case (Acknowledge k)
  then show ?thesis using assms
    by (cases p) (auto simp del: find_if_None simp: acknowledge_def split: option.splits)
next
  case Reset
  then show ?thesis using assms by (cases p) (auto simp: reset_in_flight_def clear_next)
next
  case Size
  then show ?thesis using assms by (cases p) auto
qed

text \<open>Every operation ends: the number of accesses it has left.\<close>

fun accesses_left :: "batch_queue \<times> queue_pc \<Rightarrow> nat" where
  "accesses_left (q, Find_duplicate b) = 6"
| "accesses_left (q, Check_capacity b) = 5"
| "accesses_left (q, Erase_oldest b i) = 4"
| "accesses_left (q, Count_dropped b) = 3"
| "accesses_left (q, Push_back b r) = 2"
| "accesses_left (q, Find_pending) = 3"
| "accesses_left (q, Set_flag i) = 2"
| "accesses_left (q, Find_acknowledged k) = 2"
| "accesses_left (q, Clear_flag i) = 1 + (length (q_batches q) - i)"
| "accesses_left (q, Done r) = 0"
| "accesses_left (q, p) = 1"

lemma access_progress: "queue_reply_of p = None \<Longrightarrow> accesses_left (queue_access (q, p)) < accesses_left (q, p)"
  by (cases p) (auto split: option.split)

lemma accesses_left_bound: "accesses_left (q, p) \<le> 6 + queue_size q"
  by (cases p) (simp_all add: queue_size_def)

lemma queue_at_steps:
  assumes "queue_enter op = Inr p0" "(queue_access ^^ n) (q0, p0) = (q, p)"
  shows "queue_at q0 op (q, p)"
  using assms(2)
proof (induction n arbitrary: q p)
  case 0
  then show ?case using queue_at_start [OF assms(1), of q0] by simp
next
  case (Suc n)
  obtain q1 p1 where n: "(queue_access ^^ n) (q0, p0) = (q1, p1)" by fastforce
  with Suc.prems have "queue_access (q1, p1) = (q, p)" by simp
  then show ?case using queue_at_step [OF Suc.IH [OF n]] by simp
qed

interpretation shared_queue: guarded_object queue_access queue_enter queue_reply_of queue_may_throw queue_perform queue_aborted
  accesses_left
proof
  fix op r q assume "queue_enter op = Inl r"
  then show "queue_perform q op = (r, q)" by (cases op) (auto simp: enqueue_def split: if_splits)
next
  fix op p n q q' p' r
  assume "queue_enter op = Inr p" "(queue_access ^^ n) (q, p) = (q', p')" "queue_reply_of p' = Some r"
  moreover from this(3) have "p' = Done r" by (cases p') simp_all
  ultimately show "queue_perform q op = (r, q')" using queue_at_steps by fastforce
next
  fix op p n q q' p'
  assume "queue_enter op = Inr p" "(queue_access ^^ n) (q, p) = (q', p')" and throw: "queue_may_throw p'"
  from queue_at_steps [OF this(1,2)] throw show "q' = queue_aborted q op"
    by (cases op; cases p') auto
next
  fix p r q assume "queue_reply_of p = Some r"
  then show "queue_access (q, p) = (q, p)" by (cases p) simp_all
next
  fix p q assume "queue_reply_of p = None"
  then show "accesses_left (queue_access (q, p)) < accesses_left (q, p)" by (rule access_progress)
qed

lemma queue_at_counter:
  "queue_at q0 op (q, p) \<Longrightarrow> q_dropped q = q_dropped q0 \<or> q_dropped q = q_dropped q0 + 1 \<and> (\<exists>b. op = Enqueue b)"
  by (cases op; cases p)
    (auto simp: enqueue_def mark_next_in_flight_def acknowledge_def reset_in_flight_def Let_def
      split: option.splits if_splits prod.splits)

section \<open>Interrupted operations\<close>

lemma aborted_enqueue:
  assumes "queue_inv q"
  shows "queue_inv (queue_aborted q (Enqueue b)) \<and> outstanding (queue_aborted q (Enqueue b)) = outstanding q \<and>
    (queue_aborted q (Enqueue b) = q \<or>
     queue_size q = q_capacity q \<and> (\<exists>w. waiting q = w # waiting (queue_aborted q (Enqueue b))) \<and>
     q_dropped (queue_aborted q (Enqueue b)) = q_dropped q + 1)"
proof -
  from assms obtain out wait where q: "q_batches q = entries out wait"
    and inv: "0 < q_capacity q" "length out + length wait \<le> q_capacity q"
      "distinct (map b_batch_id (out @ wait))" "\<forall>b \<in> set out \<union> set wait. admissible b"
    by (rule queue_invE)
  have e: "queue_aborted q (Enqueue b) =
      (if length out + length wait = q_capacity q \<and> wait \<noteq> []
       then q\<lparr>q_batches := entries out (tl wait), q_dropped := q_dropped q + 1\<rparr> else q)"
    using q by (simp add: find_waiting erase_oldest)
  show ?thesis
  proof (cases "length out + length wait = q_capacity q \<and> wait \<noteq> []")
    case True
    then obtain w ws where w: "wait = w # ws" by (cases wait) auto
    have "queue_inv (q\<lparr>q_batches := entries out ws, q_dropped := q_dropped q + 1\<rparr>)"
      by (rule queue_invI [of _ out ws]) (use inv True w in auto)
    with True w show ?thesis unfolding e using q by (simp add: queue_size_def)
  next
    case False
    then have "queue_aborted q (Enqueue b) = q" unfolding e by (rule if_not_P)
    with assms show ?thesis by metis
  qed
qed

lemma reset_after_mark:
  assumes "queue_inv q"
  shows "reset_in_flight (snd (mark_next_in_flight q)) = reset_in_flight q"
proof -
  from assms obtain out wait where q: "q_batches q = entries out wait" by (rule queue_invE)
  then show ?thesis
    by (cases wait) (simp_all add: mark_next_in_flight_def reset_in_flight_def find_waiting flag_oldest entries_reset)
qed

lemma perform_inv: "queue_inv q \<Longrightarrow> queue_inv (snd (queue_perform q op)) \<and> queue_inv (queue_aborted q op)"
  using aborted_enqueue [of q] enqueue_refines(1) [of q] mark_refines(1) [of q] acknowledge_refines(1) [of q]
    reset_refines(1) [of q]
  by (cases op) (simp_all add: case_prod_beta del: queue_aborted.simps(1))

lemma serial_queue_inv:
  "serial_calls queue_perform queue_aborted q h = Some q' \<Longrightarrow> queue_inv q \<Longrightarrow> queue_inv q'"
proof (induction h arbitrary: q)
  case (Cons e h)
  obtain op r where e: "e = (op, r)" by fastforce
  note inv = perform_inv [OF Cons.prems(2), of op]
  show ?case
  proof (cases r)
    case None
    then show ?thesis using Cons inv by (simp add: e)
  next
    case (Some v)
    then have "serial_calls queue_perform queue_aborted (snd (queue_perform q op)) h = Some q'"
      using Cons.prems(1) by (auto simp: e split: prod.splits if_splits)
    then show ?thesis using Cons.IH inv by blast
  qed
qed simp

section \<open>Properties\<close>

type_synonym 't queue_machine = "('t, batch_queue, queue_pc, queue_op, queue_reply) monitor"

abbreviation queue_turn :: "'t queue_machine \<Rightarrow> 't queue_machine \<Rightarrow> bool" where
  "queue_turn \<equiv> monitor_step queue_access queue_enter queue_reply_of queue_may_throw"

abbreviation queue_steps :: "'t queue_machine \<Rightarrow> 't queue_machine \<Rightarrow> bool" where
  "queue_steps \<equiv> queue_turn\<^sup>*\<^sup>*"

text \<open>
  C12: The queue is linearizable, its free counter is almost exact, and nobody is locked out. In every state that any number of
  threads can reach by interleaving their accesses under the mutex, the replies given so far are those of the
  same operations run one after the other, where an operation that threw counts with its partial effect (an \<open>enqueue\<close> may have
  dropped the oldest batch of a full queue, a \<open>mark_next_in_flight\<close> has set the flag), and a free mutex guards exactly
  the queue these leave. The counter of dropped batches, read at any moment without the mutex, shows the
  count these leave, or one more while an \<open>enqueue\<close> is in progress. Whoever holds the mutex can finish alone, with
  the reply and the queue of the whole operation, and releases it; and whatever happens, no step of another thread touches its
  operation, and each step of its own releases the mutex or decreases the number of accesses it has left, which is at most
  six plus the length of the queue.
\<close>

theorem queue_linearizable:
  fixes m :: "'t queue_machine"
  assumes "queue_steps (monitor_start (new_queue capacity)) m"
  shows "\<exists>base. serial_calls queue_perform queue_aborted (new_queue capacity) (completed m) = Some base \<and> queue_inv base \<and>
    (owner m = None \<longrightarrow> guarded m = base) \<and>
    (dropped_batches (guarded m) = dropped_batches base \<or>
     dropped_batches (guarded m) = dropped_batches base + 1 \<and> (\<exists>t b p. owner m = Some (t, Enqueue b, p))) \<and>
    (\<forall>t op p. owner m = Some (t, op, p) \<longrightarrow>
       (\<exists>m'. queue_steps m m' \<and> owner m' = None \<and> guarded m' = snd (queue_perform base op) \<and>
          completed m' = completed m @ [(op, Some (fst (queue_perform base op)))]) \<and>
       accesses_left (guarded m, p) \<le> 6 + queue_size (guarded m) \<and>
       (\<forall>m'. queue_turn m m' \<longrightarrow> owner m' = None \<or> owner m' = owner m \<and> guarded m' = guarded m \<or>
          (\<exists>p'. owner m' = Some (t, op, p') \<and> accesses_left (guarded m', p') < accesses_left (guarded m, p))))"
proof -
  from shared_queue.reachable_serves [OF assms] obtain base where
    serves: "shared_queue.serves (new_queue capacity) m base" by blast
  then have s: "serial_calls queue_perform queue_aborted (new_queue capacity) (completed m) = Some base"
    and free: "owner m = None \<longrightarrow> guarded m = base" by (simp_all add: shared_queue.serves_def)
  have "dropped_batches (guarded m) = dropped_batches base \<or>
     dropped_batches (guarded m) = dropped_batches base + 1 \<and> (\<exists>t b p. owner m = Some (t, Enqueue b, p))"
  proof (cases "owner m")
    case (Some x)
    obtain t op p where x: "x = (t, op, p)" by (cases x)
    with shared_queue.serves_owner [OF serves] Some queue_at_steps have "queue_at base op (guarded m, p)" by blast
    from queue_at_counter [OF this] Some x show ?thesis by (auto simp: dropped_batches_def)
  qed (use free in simp)
  moreover have "(\<exists>m'. queue_steps m m' \<and> owner m' = None \<and> guarded m' = snd (queue_perform base op) \<and>
        completed m' = completed m @ [(op, Some (fst (queue_perform base op)))]) \<and>
      accesses_left (guarded m, p) \<le> 6 + queue_size (guarded m) \<and>
      (\<forall>m'. queue_turn m m' \<longrightarrow> owner m' = None \<or> owner m' = owner m \<and> guarded m' = guarded m \<or>
         (\<exists>p'. owner m' = Some (t, op, p') \<and> accesses_left (guarded m', p') < accesses_left (guarded m, p)))"
    if "owner m = Some (t, op, p)" for t op p
    using shared_queue.owner_finishes [OF serves that] shared_queue.owner_progress [OF _ that] accesses_left_bound by blast
  ultimately show ?thesis using s free serial_queue_inv [OF s new_queue_inv] by (intro exI [of _ base] conjI) simp_all
qed

definition full_batch :: "string \<Rightarrow> metric_batch" where
  "full_batch k = example_batch k [example_metric ''cpu'' 3 20]"

lemma full_enter: "k \<noteq> [] \<Longrightarrow> queue_enter (Enqueue (full_batch k)) = Inr (Find_duplicate (full_batch k))"
  by (simp add: full_batch_def example_defs)

text \<open>A queue of capacity one: thread 2 has dropped the first batch and not yet pushed its own; the counter already shows it.\<close>

theorem queue_linearizable_witness:
  "\<exists>m :: nat queue_machine. queue_steps (monitor_start (new_queue 1)) m \<and> dropped_batches (guarded m) = 1 \<and>
     owner m = Some (2, Enqueue (full_batch ''b2''), Push_back (full_batch ''b2'') DroppedOldest) \<and>
     completed m = [(Enqueue (full_batch ''b1''), Some (Enqueue_reply Enqueued))] \<and>
     (\<exists>m'. queue_steps m m' \<and> owner m' = None \<and> queue_size (guarded m') = 1)"
proof -
  let ?b1 = "full_batch ''b1''" and ?b2 = "full_batch ''b2''"
  let ?q1 = "\<lparr>q_capacity = 1, q_batches = [\<lparr>pb_batch = ?b1, in_flight = False\<rparr>], q_dropped = 0\<rparr>"
  let ?q2 = "\<lparr>q_capacity = 1, q_batches = [], q_dropped = 1\<rparr>"
  let ?h = "[(Enqueue ?b1, Some (Enqueue_reply Enqueued))]"
  let ?m0 = "monitor_start (new_queue 1) :: nat queue_machine"
  have acc1: "(queue_access ^^ 3) (new_queue 1, Find_duplicate ?b1) = (?q1, Done (Enqueue_reply Enqueued))"
    by (simp add: numeral_3_eq_3 new_queue_def)
  have acc2: "(queue_access ^^ 4) (?q1, Find_duplicate ?b2) = (?q2, Push_back ?b2 DroppedOldest)"
    by (simp add: numeral_eq_Suc full_batch_def example_defs)
  let ?m1 = "?m0\<lparr>owner := Some (1, Enqueue ?b1, Find_duplicate ?b1)\<rparr>"
  let ?m2 = "?m1\<lparr>guarded := ?q1, owner := Some (1, Enqueue ?b1, Done (Enqueue_reply Enqueued))\<rparr>"
  let ?m3 = "?m2\<lparr>owner := None, completed := completed ?m2 @ ?h\<rparr>"
  let ?m4 = "?m3\<lparr>owner := Some (2, Enqueue ?b2, Find_duplicate ?b2)\<rparr>"
  let ?m5 = "?m4\<lparr>guarded := ?q2, owner := Some (2, Enqueue ?b2, Push_back ?b2 DroppedOldest)\<rparr>"
  have "queue_steps ?m0 ?m1"
    by (rule shared_queue.call_starts) (simp_all add: monitor_start_def full_enter del: queue_enter.simps)
  moreover have "queue_steps ?m1 ?m2"
    by (rule shared_queue.owner_advances [where n = 3]) (use acc1 in \<open>simp_all add: monitor_start_def\<close>)
  moreover have "queue_steps ?m2 ?m3"
    by (rule r_into_rtranclp, rule returned [where t = 1 and p = "Done (Enqueue_reply Enqueued)"]) simp_all
  moreover have "queue_steps ?m3 ?m4"
    by (rule shared_queue.call_starts) (simp_all add: monitor_start_def full_enter del: queue_enter.simps)
  moreover have "queue_steps ?m4 ?m5"
    by (rule shared_queue.owner_advances [where n = 4]) (use acc2 in simp_all)
  ultimately have run: "queue_steps ?m0 ?m5" by (rule rtranclp_trans [OF rtranclp_trans [OF rtranclp_trans [OF rtranclp_trans]]])
  from queue_linearizable [OF run] obtain base where
    "serial_calls queue_perform queue_aborted (new_queue 1) (completed ?m5) = Some base"
    "\<exists>m'. queue_steps ?m5 m' \<and> owner m' = None \<and> guarded m' = snd (queue_perform base (Enqueue ?b2))" by auto
  then have "\<exists>m'. queue_steps ?m5 m' \<and> owner m' = None \<and> queue_size (guarded m') = 1"
    by (auto simp: monitor_start_def queue_eval full_batch_def example_defs queue_size_def)
  with run show ?thesis by (intro exI [of _ ?m5]) (simp add: monitor_start_def dropped_batches_def)
qed

text \<open>
  C35: What an exception leaves behind. Whenever an operation of the queue throws inside its critical section, only
  \<open>enqueue\<close> and \<open>mark_next_in_flight\<close> can be the ones, and the queue is still consistent: no batch in flight is lost, an \<open>enqueue\<close> has
  changed nothing or has dropped the oldest waiting batch of a full queue and counted it, and a
  \<open>mark_next_in_flight\<close> has done no more than what the next reset undoes.
\<close>

theorem queue_exceptions:
  assumes "queue_inv q" "queue_enter op = Inr p0" "(queue_access ^^ n) (q, p0) = (q', p)" "queue_may_throw p"
  shows "queue_inv q' \<and>
    (case op of
       Enqueue b \<Rightarrow> outstanding q' = outstanding q \<and>
         (q' = q \<or> queue_size q = q_capacity q \<and> (\<exists>w. waiting q = w # waiting q') \<and>
            dropped_batches q' = dropped_batches q + 1)
     | Mark_next \<Rightarrow> reset_in_flight q' = reset_in_flight q
     | _ \<Rightarrow> False)"
proof -
  have e: "q' = queue_aborted q op" by (rule shared_queue.whole_aborted [OF assms(2-4)])
  have "queue_inv q'" unfolding e using perform_inv [OF assms(1)] by blast
  moreover have "(\<exists>b. op = Enqueue b) \<or> op = Mark_next"
    using queue_at_steps [OF assms(2,3)] assms(4) by (cases op; cases p) auto
  ultimately show ?thesis
    using aborted_enqueue [OF assms(1)] reset_after_mark [OF assms(1)] unfolding e
    by (auto simp: dropped_batches_def simp del: queue_aborted.simps(1))
qed

theorem queue_exceptions_witness:
  "\<exists>q' p. (queue_access ^^ 4) (\<lparr>q_capacity = 1, q_batches = entries [] [full_batch ''b1''], q_dropped = 0\<rparr>,
       Find_duplicate (full_batch ''b2'')) = (q', p) \<and> queue_may_throw p \<and> waiting q' = [] \<and> dropped_batches q' = 1"
proof -
  let ?q = "\<lparr>q_capacity = 1, q_batches = entries [] [full_batch ''b1''], q_dropped = 0\<rparr>" and ?b2 = "full_batch ''b2''"
  have inv: "queue_inv ?q"
    by (rule queue_invI [of _ "[]" "[full_batch ''b1'']"]) (simp_all add: full_batch_def admissible_def example_defs)
  have enter: "queue_enter (Enqueue ?b2) = Inr (Find_duplicate ?b2)" by (simp add: full_batch_def example_defs)
  have run: "(queue_access ^^ 4) (?q, Find_duplicate ?b2) = (?q\<lparr>q_batches := [], q_dropped := 1\<rparr>, Push_back ?b2 DroppedOldest)"
    by (simp add: numeral_eq_Suc entries_def full_batch_def example_defs)
  have "queue_may_throw (Push_back ?b2 DroppedOldest)" by simp
  from queue_exceptions [OF inv enter run this] run show ?thesis by (auto simp: waiting_def entries_def dropped_batches_def)
qed

end
