(* ===== verification/Builder_Concurrency.thy ===== *)
theory Builder_Concurrency
  imports Batch_Builder
begin

text \<open>
  The batch builder under several threads. It has no mutex: a build checks its arguments, takes a number from the atomic
  counter with one \<open>fetch_add\<close>, and writes the ID and the batch from what only it can see. A thread can be stopped by an exception on
  either side of the \<open>fetch_add\<close>; then a number is lost. Every batch returned is nevertheless the result of a whole
  build, at the moment of its \<open>fetch_add\<close>.
\<close>

section \<open>Threads around the atomic counter\<close>

datatype build_pc = Not_building | Checked "metric list" | Numbered "metric list" uint64

text \<open>\<open>bm_taken\<close> counts the numbers taken so far, \<open>bm_returned\<close> the batches in the order of the returns.\<close>

record 't builder_machine =
  bm_builder :: batch_builder
  bm_doing :: "'t \<Rightarrow> build_pc"
  bm_taken :: nat
  bm_returned :: "metric_batch list"

definition build_error :: "batch_builder \<Rightarrow> metric list \<Rightarrow> batch_build_error option" where
  "build_error b metrics =
     (if bb_client_id b = [] then Some EmptyClientId
      else if metrics = [] then Some EmptyMetrics
      else if \<exists>m \<in> set metrics. m_name m = [] \<or> \<not> isfinite (m_value m) then Some InvalidMetric
      else None)"

definition finish_build :: "batch_builder \<Rightarrow> metric list \<Rightarrow> uint64 \<Rightarrow> metric_batch" where
  "finish_build b metrics sequence =
     \<lparr>b_client_id = bb_client_id b, b_metrics = metrics,
      b_batch_id = bb_client_id b @ ''-'' @ hex16_string (bb_session_nonce b) @ ''-'' @ dec_string (unat sequence)\<rparr>"

inductive builder_step :: "'t builder_machine \<Rightarrow> 't builder_machine \<Rightarrow> bool" where
  build_checked: "bm_doing m t = Not_building \<Longrightarrow> build_error (bm_builder m) metrics = None \<Longrightarrow>
     builder_step m (m\<lparr>bm_doing := (bm_doing m)(t := Checked metrics)\<rparr>)"
| build_numbered: "bm_doing m t = Checked metrics \<Longrightarrow> sequence = bb_next_sequence (bm_builder m) \<Longrightarrow>
     builder_step m (m\<lparr>bm_builder := (bm_builder m)\<lparr>bb_next_sequence := sequence + 1\<rparr>,
       bm_doing := (bm_doing m)(t := Numbered metrics sequence), bm_taken := Suc (bm_taken m)\<rparr>)"
| build_returned: "bm_doing m t = Numbered metrics sequence \<Longrightarrow>
     builder_step m (m\<lparr>bm_doing := (bm_doing m)(t := Not_building),
       bm_returned := bm_returned m @ [finish_build (bm_builder m) metrics sequence]\<rparr>)"
| build_stopped: "builder_step m (m\<lparr>bm_doing := (bm_doing m)(t := Not_building)\<rparr>)"

definition builder_start :: "batch_builder \<Rightarrow> 't builder_machine" where
  "builder_start b = \<lparr>bm_builder = b, bm_doing = (\<lambda>_. Not_building), bm_taken = 0, bm_returned = []\<rparr>"

section \<open>Every batch is a whole build\<close>

text \<open>The builder when the number \<open>k\<close> was taken.\<close>

definition builder_at :: "batch_builder \<Rightarrow> nat \<Rightarrow> batch_builder" where
  "builder_at b k = b\<lparr>bb_next_sequence := bb_next_sequence b + of_nat k\<rparr>"

lemma builder_at_parts [simp]:
  "bb_client_id (builder_at b k) = bb_client_id b" "bb_session_nonce (builder_at b k) = bb_session_nonce b"
  "bb_next_sequence (builder_at b k) = bb_next_sequence b + of_nat k"
  by (simp_all add: builder_at_def)

lemma finish_build_at [simp]: "finish_build (builder_at b k) = finish_build b"
  by (rule ext)+ (simp add: finish_build_def)

lemma whole_build:
  "build_error b metrics = None \<Longrightarrow>
     build (builder_at b k) metrics = (Inr (finish_build b metrics (bb_next_sequence b + of_nat k)), builder_at b (Suc k))"
  by (auto simp: build_error_def build_def next_batch_id_def finish_build_def builder_at_def add_ac split: if_splits)

text \<open>
  The invariant: \<open>ks\<close> are the numbers of the returned batches, \<open>kt t\<close> the number a thread has taken for the build it is in.
\<close>

definition builder_inv :: "batch_builder \<Rightarrow> 't builder_machine \<Rightarrow> nat list \<Rightarrow> ('t \<Rightarrow> nat) \<Rightarrow> bool" where
  "builder_inv b m ks kt \<longleftrightarrow>
     bm_builder m = builder_at b (bm_taken m) \<and>
     distinct ks \<and> set ks \<subseteq> {..<bm_taken m} \<and>
     list_all2 (\<lambda>batch k. build (builder_at b k) (b_metrics batch) = (Inr batch, builder_at b (Suc k))) (bm_returned m) ks \<and>
     (\<forall>t metrics. bm_doing m t = Checked metrics \<longrightarrow> build_error b metrics = None) \<and>
     (\<forall>t metrics s. bm_doing m t = Numbered metrics s \<longrightarrow> build_error b metrics = None \<and> s = bb_next_sequence b + of_nat (kt t) \<and>
        kt t < bm_taken m \<and> kt t \<notin> set ks) \<and>
     (\<forall>t u mt mu st su. bm_doing m t = Numbered mt st \<longrightarrow> bm_doing m u = Numbered mu su \<longrightarrow> kt t = kt u \<longrightarrow> t = u)"

lemma build_error_at [simp]: "build_error (builder_at b k) metrics = build_error b metrics"
  by (simp add: build_error_def)

lemma builder_invD:
  assumes "builder_inv b m ks kt"
  shows "bm_builder m = builder_at b (bm_taken m)" "distinct ks" "set ks \<subseteq> {..<bm_taken m}"
    "list_all2 (\<lambda>batch k. build (builder_at b k) (b_metrics batch) = (Inr batch, builder_at b (Suc k))) (bm_returned m) ks"
    "bm_doing m t = Checked ms \<Longrightarrow> build_error b ms = None"
    "bm_doing m t = Numbered ms s \<Longrightarrow> build_error b ms = None \<and> s = bb_next_sequence b + of_nat (kt t) \<and> kt t < bm_taken m \<and> kt t \<notin> set ks"
    "bm_doing m t = Numbered ms s \<Longrightarrow> bm_doing m u = Numbered mu su \<Longrightarrow> kt t = kt u \<Longrightarrow> t = u"
  using assms unfolding builder_inv_def by blast+

lemma builder_invI:
  assumes "bm_builder m = builder_at b (bm_taken m)" "distinct ks" "set ks \<subseteq> {..<bm_taken m}"
    "list_all2 (\<lambda>batch k. build (builder_at b k) (b_metrics batch) = (Inr batch, builder_at b (Suc k))) (bm_returned m) ks"
    "\<And>t ms. bm_doing m t = Checked ms \<Longrightarrow> build_error b ms = None"
    "\<And>t ms s. bm_doing m t = Numbered ms s \<Longrightarrow>
       build_error b ms = None \<and> s = bb_next_sequence b + of_nat (kt t) \<and> kt t < bm_taken m \<and> kt t \<notin> set ks"
    "\<And>t u ms s mu su. bm_doing m t = Numbered ms s \<Longrightarrow> bm_doing m u = Numbered mu su \<Longrightarrow> kt t = kt u \<Longrightarrow> t = u"
  shows "builder_inv b m ks kt"
  unfolding builder_inv_def by (intro conjI allI impI) (use assms in blast)+

lemma numbered_inv:
  assumes inv: "builder_inv b m ks kt" and t: "bm_doing m t = Checked metrics" and s: "s = bb_next_sequence (bm_builder m)"
  shows "builder_inv b (m\<lparr>bm_builder := (bm_builder m)\<lparr>bb_next_sequence := s + 1\<rparr>,
       bm_doing := (bm_doing m)(t := Numbered metrics s), bm_taken := Suc (bm_taken m)\<rparr>) ks (kt(t := bm_taken m))"
proof -
  note i = builder_invD [OF inv]
  let ?d = "(bm_doing m)(t := Numbered metrics s)" and ?kt = "kt(t := bm_taken m)"
  have s': "s = bb_next_sequence b + of_nat (bm_taken m)" using s i(1) by simp
  have adv: "(bm_builder m)\<lparr>bb_next_sequence := s + 1\<rparr> = builder_at b (Suc (bm_taken m))"
    unfolding i(1) s' by (simp add: builder_at_def add_ac)
  have ks: "bm_taken m \<notin> set ks" using i(3) by auto
  have num: "build_error b ms = None \<and> su = bb_next_sequence b + of_nat (?kt u) \<and> ?kt u < Suc (bm_taken m) \<and> ?kt u \<notin> set ks"
    if "?d u = Numbered ms su" for u ms su
  proof (cases "u = t")
    case True
    with that i(5) [OF t] ks s' show ?thesis by auto
  next
    case False
    with that i(6) [of u ms su] show ?thesis by auto
  qed
  have inj: "u = v" if "?d u = Numbered mu su" "?d v = Numbered mv sv" "?kt u = ?kt v" for u v mu mv su sv
  proof (rule ccontr)
    assume "u \<noteq> v"
    then consider "u = t" "v \<noteq> t" | "u \<noteq> t" "v = t" | "u \<noteq> t" "v \<noteq> t" by blast
    then show False
    proof cases
      case 1
      with that(2,3) i(6) [of v mv sv] show False by simp
    next
      case 2
      with that(1,3) i(6) [of u mu su] show False by simp
    next
      case 3
      with that i(7) [of u mu su v mv sv] \<open>u \<noteq> v\<close> show False by simp
    qed
  qed
  have chk: "build_error b ms = None" if "?d u = Checked ms" for u ms
    using that i(5) [of u ms] by (simp split: if_splits)
  let ?m = "m\<lparr>bm_builder := (bm_builder m)\<lparr>bb_next_sequence := s + 1\<rparr>, bm_doing := ?d, bm_taken := Suc (bm_taken m)\<rparr>"
  have d: "bm_doing ?m = ?d" and n: "bm_taken ?m = Suc (bm_taken m)" by simp_all
  show ?thesis
  proof (rule builder_invI; (unfold d n)?)
    show "bm_builder ?m = builder_at b (Suc (bm_taken m))" using adv by simp
    show "list_all2 (\<lambda>batch k. build (builder_at b k) (b_metrics batch) = (Inr batch, builder_at b (Suc k))) (bm_returned ?m) ks"
      using i(4) by simp
    show "set ks \<subseteq> {..<Suc (bm_taken m)}" using i(3) by auto
  qed (fact i(2) chk num inj)+
qed

lemma returned_inv:
  assumes inv: "builder_inv b m ks kt" and t: "bm_doing m t = Numbered metrics s"
  shows "builder_inv b (m\<lparr>bm_doing := (bm_doing m)(t := Not_building),
       bm_returned := bm_returned m @ [finish_build (bm_builder m) metrics s]\<rparr>) (ks @ [kt t]) kt"
proof -
  note i = builder_invD [OF inv]
  have k: "build_error b metrics = None" "s = bb_next_sequence b + of_nat (kt t)" "kt t < bm_taken m" "kt t \<notin> set ks"
    using i(6) [OF t] by blast+
  have "b_metrics (finish_build b metrics s) = metrics" by (simp add: finish_build_def)
  then have "list_all2 (\<lambda>batch k. build (builder_at b k) (b_metrics batch) = (Inr batch, builder_at b (Suc k)))
      (bm_returned m @ [finish_build (bm_builder m) metrics s]) (ks @ [kt t])"
    using i(4) whole_build [OF k(1), of "kt t"] by (simp add: i(1) k(2) list_all2_appendI)
  moreover have "kt u \<noteq> kt t" if "u \<noteq> t" "bm_doing m u = Numbered mu su" for u mu su
    using that i(7) [OF that(2) t] by blast
  ultimately show ?thesis
    unfolding builder_inv_def using i(1-3,5-7) k(3,4) by simp blast
qed

lemma builder_step_inv:
  assumes "builder_step m m'" "builder_inv b m ks kt"
  shows "\<exists>ks' kt'. builder_inv b m' ks' kt'"
  using assms(1)
proof cases
  case (build_checked t metrics)
  then have "builder_inv b m' ks kt" using assms(2) by (auto simp: builder_inv_def)
  then show ?thesis by blast
next
  case (build_numbered t metrics s)
  from numbered_inv [OF assms(2) build_numbered(2,3)] show ?thesis unfolding build_numbered(1) by blast
next
  case (build_returned t metrics s)
  from returned_inv [OF assms(2) build_returned(2)] show ?thesis unfolding build_returned(1) by blast
next
  case (build_stopped t)
  then have "builder_inv b m' ks kt" using assms(2) by (auto simp: builder_inv_def)
  then show ?thesis by blast
qed

lemma builder_reachable_inv:
  assumes "builder_step\<^sup>*\<^sup>* (builder_start b) m"
  shows "\<exists>ks kt. builder_inv b m ks kt"
  using assms
proof (induction rule: rtranclp_induct)
  case base
  have "builder_inv b (builder_start b) [] (\<lambda>_. 0)" by (simp add: builder_inv_def builder_start_def builder_at_def)
  then show ?case by blast
next
  case (step m m')
  then show ?case using builder_step_inv by blast
qed

section \<open>Properties\<close>

text \<open>
  C18: Concurrent builds never share an ID. Whatever the interleaving of any number of threads, and whichever of them are stopped by
  exceptions, as long as at most \<open>2 ^ 64\<close> numbers have been taken the batches returned have pairwise different IDs; each is what a
  whole build of its metrics returns on the builder of the moment its number was taken, no two of the same moment, so it passes the admission
  checks of queue and store. The counter is exactly one ahead for every number taken, and what the check refuses is what
  a whole build refuses.
\<close>

theorem concurrent_builds:
  assumes "builder_step\<^sup>*\<^sup>* (builder_start b) m" "bm_taken m \<le> 2 ^ 64"
  shows "distinct (map b_batch_id (bm_returned m)) \<and>
    (\<exists>ks. distinct ks \<and> set ks \<subseteq> {..<bm_taken m} \<and>
       list_all2 (\<lambda>batch k. build (builder_at b k) (b_metrics batch) = (Inr batch, builder_at b (Suc k))) (bm_returned m) ks) \<and>
    (\<forall>batch \<in> set (bm_returned m). admissible batch \<and> validate_batch batch = None) \<and>
    bm_builder m = builder_at b (bm_taken m) \<and>
    (\<forall>metrics. build_error (bm_builder m) metrics =
       (case fst (build (bm_builder m) metrics) of Inl e \<Rightarrow> Some e | Inr batch \<Rightarrow> None))"
proof -
  obtain ks kt where inv: "builder_inv b m ks kt" using builder_reachable_inv [OF assms(1)] by blast
  note i = builder_invD [OF inv]
  have whole: "b_batch_id batch = batch_id_of b k \<and> admissible batch \<and> validate_batch batch = None"
    if "build (builder_at b k) (b_metrics batch) = (Inr batch, builder_at b (Suc k))" for batch k
    using build_result [OF that] by (simp add: batch_id_of_def)
  have "map b_batch_id bs = map (batch_id_of b) js \<and> (\<forall>batch \<in> set bs. admissible batch \<and> validate_batch batch = None)"
    if "list_all2 (\<lambda>batch k. build (builder_at b k) (b_metrics batch) = (Inr batch, builder_at b (Suc k))) bs js" for bs js
    using that by (induction rule: list_all2_induct) (auto dest: whole)
  note all = this [OF i(4)]
  have "inj_on (batch_id_of b) (set ks)" using i(3) assms(2) by (intro batch_ids_inj) auto
  then have "distinct (map b_batch_id (bm_returned m))" using all i(2) by (simp add: distinct_map)
  moreover have "build_error c metrics = (case fst (build c metrics) of Inl e \<Rightarrow> Some e | Inr batch \<Rightarrow> None)" for c metrics
    by (simp add: build_error_def build_def next_batch_id_def)
  ultimately show ?thesis using all i(1-4) by blast
qed

text \<open>Two threads check, take their numbers and return in the opposite order; a third one is stopped and its number lost.\<close>

definition three_builders :: "nat \<Rightarrow> build_pc \<Rightarrow> build_pc \<Rightarrow> build_pc \<Rightarrow> metric_batch list \<Rightarrow> nat builder_machine" where
  "three_builders k p q r bs =
     \<lparr>bm_builder = builder_at (builder_with_nonce ''agent'' 7) k, bm_doing = (\<lambda>_. Not_building)(0 := p, 1 := q, 2 := r),
      bm_taken = k, bm_returned = bs\<rparr>"

lemma builder_next_eq:
  "builder_step\<^sup>*\<^sup>* m0 m \<Longrightarrow> builder_step m m' \<Longrightarrow> m' = m'' \<Longrightarrow> builder_step\<^sup>*\<^sup>* m0 m''"
  using rtranclp.rtrancl_into_rtrancl by metis

lemma three_builders_run:
  fixes ms :: "metric list"
  assumes "build_error (builder_with_nonce ''agent'' 7) ms = None"
  shows "builder_step\<^sup>*\<^sup>* (builder_start (builder_with_nonce ''agent'' 7)) (three_builders 3 Not_building Not_building Not_building
    [finish_build (builder_with_nonce ''agent'' 7) ms 2, finish_build (builder_with_nonce ''agent'' 7) ms 1])"
proof -
  let ?s = "builder_step\<^sup>*\<^sup>* (builder_start (builder_with_nonce ''agent'' 7))" and ?b = "builder_with_nonce ''agent'' 7"
    and ?N = Not_building and ?C = "Checked ms"
  note defs = three_builders_def fun_eq_iff builder_at_def builder_with_nonce_def
  have ok: "build_error (bm_builder (three_builders k p q r bs)) ms = None" for k p q r bs
    using assms by (simp add: three_builders_def)
  have "three_builders 0 ?N ?N ?N [] = builder_start ?b" by (auto simp: builder_start_def defs)
  then have "?s (three_builders 0 ?N ?N ?N [])" by simp
  then have "?s (three_builders 0 ?C ?N ?N [])"
    by (rule builder_next_eq [OF _ build_checked [OF _ ok, where t = 0]]) (auto simp: defs)
  then have "?s (three_builders 0 ?C ?C ?N [])"
    by (rule builder_next_eq [OF _ build_checked [OF _ ok, where t = 1]]) (auto simp: defs)
  then have "?s (three_builders 0 ?C ?C ?C [])"
    by (rule builder_next_eq [OF _ build_checked [OF _ ok, where t = 2]]) (auto simp: defs)
  then have "?s (three_builders 1 (Numbered ms 1) ?C ?C [])"
    by (rule builder_next_eq [OF _ build_numbered [where t = 0 and metrics = ms]]) (auto simp: defs)
  then have "?s (three_builders 2 (Numbered ms 1) (Numbered ms 2) ?C [])"
    by (rule builder_next_eq [OF _ build_numbered [where t = 1 and metrics = ms]]) (auto simp: defs)
  then have "?s (three_builders 3 (Numbered ms 1) (Numbered ms 2) (Numbered ms 3) [])"
    by (rule builder_next_eq [OF _ build_numbered [where t = 2 and metrics = ms]]) (auto simp: defs)
  then have "?s (three_builders 3 (Numbered ms 1) ?N (Numbered ms 3) [finish_build ?b ms 2])"
    by (rule builder_next_eq [OF _ build_returned [where t = 1 and metrics = ms]]) (auto simp: defs finish_build_def)
  then have "?s (three_builders 3 ?N ?N (Numbered ms 3) [finish_build ?b ms 2, finish_build ?b ms 1])"
    by (rule builder_next_eq [OF _ build_returned [where t = 0 and metrics = ms]]) (auto simp: defs finish_build_def)
  then show ?thesis
    by (rule builder_next_eq [OF _ build_stopped [where t = 2]]) (auto simp: defs)
qed

theorem concurrent_builds_witness:
  "\<exists>m :: nat builder_machine. builder_step\<^sup>*\<^sup>* (builder_start (builder_with_nonce ''agent'' 7)) m \<and> bm_taken m = 3 \<and>
     map b_batch_id (bm_returned m) = [batch_id_of (builder_with_nonce ''agent'' 7) 1, batch_id_of (builder_with_nonce ''agent'' 7) 0] \<and>
     distinct (map b_batch_id (bm_returned m))"
proof -
  let ?b = "builder_with_nonce ''agent'' 7" and ?ms = "[example_metric ''cpu'' 3 20]"
  let ?m = "three_builders 3 Not_building Not_building Not_building [finish_build ?b ?ms 2, finish_build ?b ?ms 1]"
  have "build_error ?b ?ms = None" by (simp add: build_error_def builder_with_nonce_def example_defs)
  note run = three_builders_run [OF this]
  have "bm_taken ?m \<le> 2 ^ 64" by (simp add: three_builders_def)
  from concurrent_builds [OF run this] have "distinct (map b_batch_id (bm_returned ?m))" by blast
  with run show ?thesis
    by (intro exI [of _ ?m]) (simp add: three_builders_def finish_build_def batch_id_of_def builder_with_nonce_def)
qed

end
