(* ===== verification/Agent_System.thy ===== *)
theory Agent_System
  imports Delivery
begin

text \<open>
  An agent and an aggregator over an unreliable network. The agent builds batches, enqueues, sends and acknowledges them; the network
  delays, repeats, reorders and loses messages; other agents commit to the same store. The repository has no
  sender yet, so the steps are the operations of builder, queue and store in any order a sender may call them.
  What is shown is what the queue is for: every batch ever built is still queued, or committed, or was
  counted as dropped.
\<close>

section \<open>Steps of the system\<close>

text \<open>\<open>sy_built\<close> remembers the batches built so far, \<open>sy_net\<close> and \<open>sy_acks\<close> the messages that may still arrive.\<close>

record system =
  sy_builder :: batch_builder
  sy_queue :: batch_queue
  sy_store :: store
  sy_net :: "metric_batch set"
  sy_acks :: "batch_ack set"
  sy_built :: "metric_batch list"

definition system_start :: "batch_builder \<Rightarrow> nat \<Rightarrow> nat \<Rightarrow> system" where
  "system_start b queue_capacity store_capacity =
     \<lparr>sy_builder = b, sy_queue = new_queue queue_capacity, sy_store = new_store store_capacity,
      sy_net = {}, sy_acks = {}, sy_built = []\<rparr>"

text \<open>What the aggregator sends back: only a commit that succeeds is acknowledged.\<close>

fun acks_of :: "metric_batch \<Rightarrow> store_error + batch_commit_outcome \<Rightarrow> batch_ack set" where
  "acks_of batch (Inl e) = {}"
| "acks_of batch (Inr out) = {\<lparr>ack_batch_id = b_batch_id batch, ack_duplicate = (out = Duplicate)\<rparr>}"

inductive system_step :: "system \<Rightarrow> system \<Rightarrow> bool" where
  built: "build (sy_builder s) ms = (Inr batch, b) \<Longrightarrow> enqueue (sy_queue s) batch = (r, q) \<Longrightarrow>
     system_step s (s\<lparr>sy_builder := b, sy_queue := q, sy_built := sy_built s @ [batch]\<rparr>)"
| sent: "mark_next_in_flight (sy_queue s) = (Some batch, q) \<Longrightarrow>
     system_step s (s\<lparr>sy_queue := q, sy_net := insert batch (sy_net s)\<rparr>)"
| arrived: "batch \<in> sy_net s \<Longrightarrow> commit_batch (sy_store s) batch = (r, st) \<Longrightarrow>
     system_step s (s\<lparr>sy_store := st, sy_acks := sy_acks s \<union> acks_of batch r\<rparr>)"
| acknowledged: "a \<in> sy_acks s \<Longrightarrow> acknowledge (sy_queue s) (ack_batch_id a) = (found, q) \<Longrightarrow> system_step s (s\<lparr>sy_queue := q\<rparr>)"
| disconnected: "system_step s (s\<lparr>sy_queue := reset_in_flight (sy_queue s)\<rparr>)"
| lost: "net \<subseteq> sy_net s \<Longrightarrow> acks \<subseteq> sy_acks s \<Longrightarrow> system_step s (s\<lparr>sy_net := net, sy_acks := acks\<rparr>)"
| other_agent: "(\<forall>k. b_batch_id batch \<noteq> batch_id_of (sy_builder s) k) \<Longrightarrow> commit_batch (sy_store s) batch = (r, st) \<Longrightarrow>
     system_step s (s\<lparr>sy_store := st\<rparr>)"

inductive system_reachable :: "system \<Rightarrow> system \<Rightarrow> bool" for s0 :: system where
  system_initial: "system_reachable s0 s0"
| system_next: "system_reachable s0 s \<Longrightarrow> system_step s s' \<Longrightarrow> system_reachable s0 s'"

section \<open>The effect of the operations on what is held\<close>

definition held :: "batch_queue \<Rightarrow> metric_batch list" where
  "held q = outstanding q @ waiting q"

lemma abs_queue_parts:
  "abs_queue q = s \<Longrightarrow> outstanding q = sp_outstanding s \<and> waiting q = sp_waiting s \<and> q_dropped q = sp_dropped s"
  by (auto simp: abs_queue_def)

lemma enqueue_fresh:
  assumes "queue_inv q" "admissible b" "b_batch_id b \<notin> b_batch_id ` set (held q)"
  shows "\<exists>gone. length gone \<le> 1 \<and> set (held q) \<union> {b} = set (held (snd (enqueue q b))) \<union> set gone \<and>
    q_dropped (snd (enqueue q b)) = q_dropped q + of_nat (length gone) \<and> queue_inv (snd (enqueue q b))"
proof -
  note r = enqueue_refines [OF assms(1), of b]
  have "abs_queue (snd (enqueue q b)) = snd (spec_enqueue (abs_queue q) b)" using r(2) by simp
  note parts = abs_queue_parts [OF this]
  have new: "b_batch_id b \<notin> b_batch_id ` (set (outstanding q) \<union> set (waiting q))"
    using assms(3) by (simp add: held_def)
  note defs = held_def parts spec_enqueue_def abs_queue_def Let_def
  show ?thesis
  proof (cases "length (held q) < q_capacity q")
    case True
    then show ?thesis using r(1) new assms(2) by (intro exI [of _ "[]"]) (auto simp: defs)
  next
    case full: False
    show ?thesis
    proof (cases "waiting q")
      case Nil
      then show ?thesis using r(1) new assms(2) full by (intro exI [of _ "[b]"]) (auto simp: defs)
    next
      case (Cons w ws)
      then show ?thesis using r(1) new assms(2) full by (intro exI [of _ "[w]"]) (auto simp: defs)
    qed
  qed
qed

lemma mark_held:
  assumes "queue_inv q" "mark_next_in_flight q = (Some b, q')"
  shows "queue_inv q' \<and> held q' = held q \<and> b \<in> set (held q) \<and> q_dropped q' = q_dropped q"
proof -
  note r = mark_refines [OF assms(1), unfolded assms(2) snd_conv fst_conv]
  then have "abs_queue q' = snd (spec_mark (abs_queue q))" "fst (spec_mark (abs_queue q)) = Some b" by simp_all
  with abs_queue_parts [OF this(1)] r(1) show ?thesis
    by (auto simp: held_def spec_mark_def abs_queue_def split: list.splits)
qed

lemma acknowledge_held:
  assumes "queue_inv q" "acknowledge q k = (found, q')"
  shows "queue_inv q' \<and> held q' = filter (\<lambda>b. b_batch_id b \<noteq> k) (held q) \<and> q_dropped q' = q_dropped q"
proof -
  note r = acknowledge_refines [OF assms(1), of k, unfolded assms(2) snd_conv fst_conv]
  then have "abs_queue q' = snd (spec_acknowledge (abs_queue q) k)" by simp
  from abs_queue_parts [OF this] r(1) show ?thesis
    by (simp add: held_def spec_acknowledge_def abs_queue_def)
qed

lemma reset_held:
  assumes "queue_inv q"
  shows "queue_inv (reset_in_flight q) \<and> held (reset_in_flight q) = held q \<and> q_dropped (reset_in_flight q) = q_dropped q"
  using abs_queue_parts [OF reset_refines(2) [OF assms, symmetric]] reset_refines(1) [OF assms]
  by (simp add: held_def spec_reset_def abs_queue_def)

section \<open>The invariant\<close>

text \<open>Batches that are neither queued nor committed any more.\<close>

definition missing :: "system \<Rightarrow> metric_batch list" where
  "missing s = filter (\<lambda>b. b \<notin> set (held (sy_queue s)) \<and> b_batch_id b \<notin> committed_batch_ids (sy_store s)) (sy_built s)"

definition system_inv :: "batch_builder \<Rightarrow> nat \<Rightarrow> system \<Rightarrow> bool" where
  "system_inv b0 n s \<longleftrightarrow>
     queue_inv (sy_queue s) \<and> store_ok (sy_store s) \<and>
     sy_builder s = b0\<lparr>bb_next_sequence := bb_next_sequence b0 + of_nat (length (sy_built s))\<rparr> \<and>
     map b_batch_id (sy_built s) = map (batch_id_of b0) [0..<length (sy_built s)] \<and>
     set (held (sy_queue s)) \<subseteq> set (sy_built s) \<and> sy_net s \<subseteq> set (sy_built s) \<and>
     (\<forall>a \<in> sy_acks s. ack_batch_id a \<in> committed_batch_ids (sy_store s)) \<and>
     (\<forall>k \<in> committed_batch_ids (sy_store s). (\<exists>j. k = batch_id_of b0 j) \<longrightarrow> k \<in> b_batch_id ` set (sy_built s)) \<and>
     length (missing s) \<le> n \<and> n \<le> length (sy_built s) \<and> q_dropped (sy_queue s) = of_nat n"

text \<open>What a commit does to the set of committed IDs.\<close>

lemma commit_ids:
  assumes "store_ok st" "commit_batch st b = (r, st')"
  shows "store_ok st' \<and> committed_batch_ids st \<subseteq> committed_batch_ids st' \<and>
    committed_batch_ids st' \<subseteq> insert (b_batch_id b) (committed_batch_ids st) \<and>
    (\<forall>a \<in> acks_of b r. ack_batch_id a \<in> committed_batch_ids st')"
proof -
  have ok: "store_ok st'" using memory_store.inv_commit [OF assms(1), of b] assms(2) by simp
  show ?thesis
  proof (cases r)
    case (Inl e)
    then show ?thesis using memory_store.commit_error [OF assms(1), of b e st'] assms ok by auto
  next
    case (Inr out)
    then show ?thesis
      using memory_store.commit_new [OF assms(1), of b st'] memory_store.commit_repeat [OF assms(1), of b st'] assms ok
      by (cases out) (fastforce+)
  qed
qed

lemma filter_length_mono: "(\<And>x. x \<in> set xs \<Longrightarrow> P x \<Longrightarrow> Q x) \<Longrightarrow> length (filter P xs) \<le> length (filter Q xs)"
  by (induction xs) auto

lemma missing_mono:
  assumes "sy_built s' = sy_built s"
    "\<And>b. b \<in> set (sy_built s) \<Longrightarrow> b \<in> set (held (sy_queue s)) \<or> b_batch_id b \<in> committed_batch_ids (sy_store s) \<Longrightarrow>
       b \<in> set (held (sy_queue s')) \<or> b_batch_id b \<in> committed_batch_ids (sy_store s')"
  shows "length (missing s') \<le> length (missing s)"
  unfolding missing_def assms(1) by (rule filter_length_mono) (use assms(2) in blast)

lemma batch_id_of_cong:
  "batch_id_of (b\<lparr>bb_next_sequence := bb_next_sequence b + of_nat n\<rparr>) k = batch_id_of b (n + k)"
  by (simp add: batch_id_of_def add.assoc)

lemma batch_id_of_ahead: "\<exists>k. batch_id_of b j = batch_id_of b (n + k)"
proof
  show "batch_id_of b j = batch_id_of b (n + unat (of_nat j - of_nat n :: uint64))"
    by (simp add: batch_id_of_def)
qed

lemma system_inv_start: "system_inv b 0 (system_start b qcap scap)"
  using new_queue_inv [of qcap] store_ok_new [of scap]
  by (simp add: system_inv_def system_start_def missing_def held_def outstanding_def waiting_def new_queue_def new_store_def)

lemma built_ids_distinct:
  assumes "map b_batch_id bs = map (batch_id_of b0) [0..<length bs]" "length bs \<le> 2 ^ 64"
  shows "distinct (map b_batch_id bs)"
proof -
  have "inj_on (batch_id_of b0) {0..<length bs}" using assms(2) by (intro batch_ids_inj) auto
  then show ?thesis unfolding assms(1) by (simp add: distinct_map)
qed

text \<open>A build adds one batch; at most one batch, old or new, leaves the queue for it, and it is counted.\<close>

lemma built_inv:
  assumes inv: "system_inv b0 n s" and b: "build (sy_builder s) ms = (Inr batch, bb)"
    and e: "enqueue (sy_queue s) batch = (r, q)" and small: "Suc (length (sy_built s)) \<le> 2 ^ 64"
  shows "\<exists>n'. system_inv b0 n' (s\<lparr>sy_builder := bb, sy_queue := q, sy_built := sy_built s @ [batch]\<rparr>)"
proof -
  let ?l = "length (sy_built s)" and ?s = "s\<lparr>sy_builder := bb, sy_queue := q, sy_built := sy_built s @ [batch]\<rparr>"
  have bi: "sy_builder s = b0\<lparr>bb_next_sequence := bb_next_sequence b0 + of_nat ?l\<rparr>" using inv by (simp add: system_inv_def)
  have new: "b_batch_id batch = batch_id_of b0 ?l" "admissible batch"
    "bb = b0\<lparr>bb_next_sequence := bb_next_sequence b0 + of_nat (Suc ?l)\<rparr>"
    using build_result [OF b] batch_id_of_cong [of b0 ?l 0] unfolding bi by (simp_all add: add_ac)
  have ids: "map b_batch_id (sy_built s @ [batch]) = map (batch_id_of b0) [0..<length (sy_built s @ [batch])]"
    using inv new(1) by (simp add: system_inv_def)
  have "distinct (map b_batch_id (sy_built s @ [batch]))" by (rule built_ids_distinct [OF ids]) (use small in simp)
  then have fresh: "b_batch_id batch \<notin> b_batch_id ` set (sy_built s)" and dis: "distinct (sy_built s)" "distinct (sy_built s @ [batch])"
    by (auto simp: distinct_map)
  then have "b_batch_id batch \<notin> b_batch_id ` set (held (sy_queue s))" using inv by (auto simp: system_inv_def)
  from enqueue_fresh [OF _ new(2) this] obtain gone where g: "length gone \<le> 1"
    "set (held (sy_queue s)) \<union> {batch} = set (held q) \<union> set gone"
    "q_dropped q = q_dropped (sy_queue s) + of_nat (length gone)" "queue_inv q"
    using inv e by (auto simp: system_inv_def)
  have "set (missing ?s) \<subseteq> set (missing s @ gone)" using g(2) by (auto simp: missing_def)
  then have "card (set (missing ?s)) \<le> card (set (missing s @ gone))" by (intro card_mono) simp_all
  also have "\<dots> \<le> length (missing s) + length gone" using card_length [of "missing s @ gone"] by simp
  finally have "length (missing ?s) \<le> n + length gone"
    using distinct_card [of "missing ?s"] dis(2) inv by (simp add: missing_def system_inv_def)
  then have "system_inv b0 (n + length gone) ?s"
    using inv g ids new(3) by (auto simp: system_inv_def)
  then show ?thesis by blast
qed

text \<open>Every other step keeps the batches and the builder.\<close>

lemma other_step_inv:
  assumes inv: "system_inv b0 n s"
    and same: "sy_builder s' = sy_builder s" "sy_built s' = sy_built s"
    and q: "queue_inv (sy_queue s')" "q_dropped (sy_queue s') = q_dropped (sy_queue s)"
      "set (held (sy_queue s')) \<subseteq> set (held (sy_queue s))"
      "\<And>b. b \<in> set (held (sy_queue s)) \<Longrightarrow> b \<in> set (held (sy_queue s')) \<or> b_batch_id b \<in> committed_batch_ids (sy_store s')"
    and st: "store_ok (sy_store s')" "committed_batch_ids (sy_store s) \<subseteq> committed_batch_ids (sy_store s')"
      "\<And>k j. k \<in> committed_batch_ids (sy_store s') \<Longrightarrow> k = batch_id_of b0 j \<Longrightarrow> k \<in> committed_batch_ids (sy_store s) \<union> b_batch_id ` set (sy_built s)"
    and net: "sy_net s' \<subseteq> set (sy_built s)" "\<forall>a \<in> sy_acks s'. ack_batch_id a \<in> committed_batch_ids (sy_store s')"
  shows "\<exists>n'. system_inv b0 n' s'"
proof (intro exI [of _ n])
  have "length (missing s') \<le> length (missing s)" by (rule missing_mono [OF same(2)]) (use q(4) st(2) in blast)
  moreover have "length (missing s) \<le> n" using inv by (simp add: system_inv_def)
  moreover have "\<forall>k \<in> committed_batch_ids (sy_store s'). (\<exists>j. k = batch_id_of b0 j) \<longrightarrow> k \<in> b_batch_id ` set (sy_built s)"
    using st(3) inv unfolding system_inv_def by blast
  moreover have "set (held (sy_queue s')) \<subseteq> set (sy_built s)" using q(3) inv unfolding system_inv_def by blast
  ultimately show "system_inv b0 n s'" using inv q(1,2) st(1) net unfolding system_inv_def same by simp
qed

lemma step_inv:
  assumes inv: "system_inv b0 n s" and step: "system_step s s'" and small: "length (sy_built s') \<le> 2 ^ 64"
  shows "\<exists>n'. system_inv b0 n' s'"
proof -
  have q: "queue_inv (sy_queue s)" and st: "store_ok (sy_store s)" and net: "sy_net s \<subseteq> set (sy_built s)"
    and acks: "\<forall>a \<in> sy_acks s. ack_batch_id a \<in> committed_batch_ids (sy_store s)" and held: "set (held (sy_queue s)) \<subseteq> set (sy_built s)"
    and bi: "sy_builder s = b0\<lparr>bb_next_sequence := bb_next_sequence b0 + of_nat (length (sy_built s))\<rparr>"
    using inv by (simp_all add: system_inv_def)
  note other = other_step_inv [OF inv]
  from step show ?thesis
  proof cases
    case (built ms batch b r q)
    have "Suc (length (sy_built s)) \<le> 2 ^ 64" using small unfolding built(1) by simp
    from built_inv [OF inv built(2,3) this] show ?thesis unfolding built(1) .
  next
    case (sent batch q)
    from mark_held [OF q sent(2)] show ?thesis using st net acks held unfolding sent(1) by (intro other) auto
  next
    case (arrived batch r st')
    from commit_ids [OF st arrived(3)] show ?thesis
      using q st net acks arrived(2) unfolding arrived(1) by (intro other) (auto split: if_splits)
  next
    case (acknowledged a found q)
    from acknowledge_held [OF \<open>queue_inv (sy_queue s)\<close> acknowledged(3)] show ?thesis
      using st net acks acknowledged(2) unfolding acknowledged(1) by (intro other) auto
  next
    case disconnected
    from reset_held [OF q] show ?thesis using st net acks unfolding disconnected by (intro other) auto
  next
    case (lost net acks')
    then show ?thesis using q st net acks inv unfolding lost(1) by (intro other) auto
  next
    case (other_agent batch r st')
    have foreign: "b_batch_id batch \<noteq> batch_id_of b0 j" for j
      using other_agent(2) batch_id_of_ahead [of b0 j "length (sy_built s)"] unfolding bi batch_id_of_cong by metis
    note ids = commit_ids [OF st other_agent(3)]
    have "k \<in> committed_batch_ids (sy_store s)" if "k \<in> committed_batch_ids st'" "k = batch_id_of b0 j" for k j
      using ids that foreign [of j] by auto
    with ids show ?thesis using q st net acks unfolding other_agent(1) by (intro other) auto
  qed
qed

lemma step_built: "system_step s s' \<Longrightarrow> length (sy_built s) \<le> length (sy_built s')"
  by (cases rule: system_step.cases) auto

lemma reachable_inv:
  assumes "system_reachable (system_start b qcap scap) s" "length (sy_built s) \<le> 2 ^ 64"
  shows "\<exists>n. system_inv b n s"
  using assms
proof induction
  case system_initial
  show ?case using system_inv_start by blast
next
  case (system_next s s')
  have "length (sy_built s) \<le> 2 ^ 64" using step_built [OF system_next.hyps(2)] system_next.prems by linarith
  then obtain n where "system_inv b n s" using system_next.IH by blast
  then show ?case using step_inv system_next by blast
qed

section \<open>Properties\<close>

text \<open>
  C6: No batch is lost silently. Whatever is delayed, repeated, reordered or lost on the way, whenever connections break
  and whatever other agents commit, at every moment all batches the agent has built so far, fewer than
  \<open>2 ^ 64\<close>, are still in the queue or committed, except for at most as many as the queue counts as
  dropped; with a count of zero none is missing. An acknowledgement is only ever for a committed batch, nothing is
  committed under the agent's identity that it has not built, and no two of its batches share an ID.
\<close>

theorem no_batch_lost_silently:
  assumes "system_reachable (system_start b queue_capacity store_capacity) s" "length (sy_built s) < 2 ^ 64"
  shows "length (missing s) \<le> unat (dropped_batches (sy_queue s)) \<and>
    (dropped_batches (sy_queue s) = 0 \<longrightarrow> (\<forall>batch \<in> set (sy_built s).
       batch \<in> set (held (sy_queue s)) \<or> b_batch_id batch \<in> committed_batch_ids (sy_store s))) \<and>
    set (held (sy_queue s)) \<subseteq> set (sy_built s) \<and> (\<forall>a \<in> sy_acks s. ack_batch_id a \<in> committed_batch_ids (sy_store s)) \<and>
    (\<forall>j. batch_id_of b j \<in> committed_batch_ids (sy_store s) \<longrightarrow> batch_id_of b j \<in> b_batch_id ` set (sy_built s)) \<and>
    distinct (map b_batch_id (sy_built s))"
proof -
  from assms reachable_inv [OF assms(1)] obtain n where inv: "system_inv b n s" by auto
  have "map b_batch_id (sy_built s) = map (batch_id_of b) [0..<length (sy_built s)]" using inv by (simp add: system_inv_def)
  then have "distinct (map b_batch_id (sy_built s))" by (rule built_ids_distinct) (use assms(2) in simp)
  moreover have "n < 2 ^ 64" using inv assms(2) by (simp add: system_inv_def)
  then have "unat (dropped_batches (sy_queue s)) = n"
    using inv by (simp add: system_inv_def dropped_batches_def unat_of_nat take_bit_nat_eq_self)
  moreover have "(\<forall>batch \<in> set (sy_built s).
      batch \<in> set (held (sy_queue s)) \<or> b_batch_id batch \<in> committed_batch_ids (sy_store s))" if "missing s = []"
    using that by (auto simp: missing_def filter_empty_conv)
  ultimately show ?thesis using inv by (auto simp: system_inv_def)
qed

text \<open>A queue of capacity one: the second batch replaces the first, which is counted, and is committed.\<close>

definition tight_batch :: "nat \<Rightarrow> metric_batch" where
  "tight_batch k = \<lparr>b_client_id = ''agent'', b_metrics = [example_metric ''cpu'' 3 20],
     b_batch_id = batch_id_of (builder_with_nonce ''agent'' 7) k\<rparr>"

definition tight_system :: "nat \<Rightarrow> nat \<Rightarrow> pending_batch list \<Rightarrow> system" where
  "tight_system k d es =
     \<lparr>sy_builder = (builder_with_nonce ''agent'' 7)\<lparr>bb_next_sequence := 1 + of_nat k\<rparr>,
      sy_queue = \<lparr>q_capacity = 1, q_batches = es, q_dropped = of_nat d\<rparr>,
      sy_store = new_store 5, sy_net = {}, sy_acks = {}, sy_built = map tight_batch [0..<k]\<rparr>"

lemma next_eq: "system_reachable s0 s \<Longrightarrow> system_step s s' \<Longrightarrow> s' = s'' \<Longrightarrow> system_reachable s0 s''"
  using system_next by blast

lemma tight_ids: "i < 2 ^ 64 \<Longrightarrow> j < 2 ^ 64 \<Longrightarrow> b_batch_id (tight_batch i) = b_batch_id (tight_batch j) \<longleftrightarrow> i = j"
  by (simp add: tight_batch_def batch_id_of_inject)

lemma tight_fields:
  "b_client_id (tight_batch k) = ''agent''" "b_batch_id (tight_batch k) \<noteq> []" "b_metrics (tight_batch k) \<noteq> []"
  by (simp_all add: tight_batch_def batch_id_of_def)

lemma tight_build:
  "build (sy_builder (tight_system k d es)) [example_metric ''cpu'' 3 20] = (Inr (tight_batch k), sy_builder (tight_system (Suc k) d es))"
  using batch_id_of_cong [of "builder_with_nonce ''agent'' 7" k 0]
  by (cases rule: build_cases [of "sy_builder (tight_system k d es)" "[example_metric ''cpu'' 3 20]"])
    (auto simp: tight_system_def tight_batch_def builder_with_nonce_def example_defs add_ac)

lemma tight_first:
  "system_reachable (system_start (builder_with_nonce ''agent'' 7) 1 5) (tight_system 1 0 [\<lparr>pb_batch = tight_batch 0, in_flight = False\<rparr>])"
proof -
  let ?s0 = "system_start (builder_with_nonce ''agent'' 7) 1 5"
    and ?s1 = "tight_system 1 0 [\<lparr>pb_batch = tight_batch 0, in_flight = False\<rparr>]"
  have "?s0 = tight_system 0 0 []"
    by (simp add: system_start_def tight_system_def new_queue_def builder_with_nonce_def)
  then have "system_reachable ?s0 (tight_system 0 0 [])" using system_initial by metis
  then show ?thesis
    by (rule next_eq [OF _ built [OF tight_build, where r = Enqueued and q = "sy_queue ?s1"]])
      (simp_all add: tight_system_def queue_eval tight_fields)
qed

lemma tight_run:
  "\<exists>s. system_reachable (system_start (builder_with_nonce ''agent'' 7) 1 5) s \<and> sy_built s = [tight_batch 0, tight_batch 1] \<and>
     dropped_batches (sy_queue s) = 1 \<and> b_batch_id (tight_batch 1) \<in> committed_batch_ids (sy_store s)"
proof -
  let ?w = "\<lambda>k. \<lparr>pb_batch = tight_batch k, in_flight = False\<rparr>" and ?f = "\<lambda>k. \<lparr>pb_batch = tight_batch k, in_flight = True\<rparr>"
  let ?s0 = "system_start (builder_with_nonce ''agent'' 7) 1 5"
  have ne: "b_batch_id (tight_batch 0) \<noteq> b_batch_id (tight_batch (Suc 0))" by (simp add: tight_ids)
  have "system_reachable ?s0 (tight_system 2 1 [?w 1])"
    by (rule next_eq [OF tight_first built [OF tight_build, where r = DroppedOldest and q = "sy_queue (tight_system 2 1 [?w 1])"]])
      (simp_all add: tight_system_def queue_eval tight_fields ne numeral_2_eq_2)
  moreover have "mark_next_in_flight (sy_queue (tight_system 2 1 [?w 1])) = (Some (tight_batch 1), sy_queue (tight_system 2 1 [?f 1]))"
    by (simp add: tight_system_def queue_eval)
  note sent [OF this]
  ultimately have "system_reachable ?s0 ((tight_system 2 1 [?f 1])\<lparr>sy_net := {tight_batch 1}\<rparr>)"
    by (rule next_eq) (simp add: tight_system_def)
  moreover obtain r st where c: "commit_batch (sy_store (tight_system 2 1 [?f 1])) (tight_batch 1) = (r, st)" by fastforce
  have done_commit: "b_batch_id (tight_batch 1) \<in> committed_batch_ids st"
    using c by (auto simp: tight_system_def tight_batch_def store_eval example_defs int64_max_def batch_id_of_def)
  have "tight_batch 1 \<in> sy_net ((tight_system 2 1 [?f 1])\<lparr>sy_net := {tight_batch 1}\<rparr>)" by simp
  note arrived [OF this, where r = r and st = st]
  ultimately have "system_reachable ?s0 ((tight_system 2 1 [?f 1])\<lparr>sy_net := {tight_batch 1}, sy_store := st,
      sy_acks := acks_of (tight_batch 1) r\<rparr>)"
    by (rule next_eq) (use c in \<open>simp_all add: tight_system_def\<close>)
  then show ?thesis
    by (intro exI conjI, assumption) (use done_commit in \<open>simp_all add: tight_system_def dropped_batches_def numeral_2_eq_2\<close>)
qed

text \<open>One batch dropped and counted, so at most one is missing.\<close>

theorem no_batch_lost_silently_witness:
  "\<exists>s. system_reachable (system_start (builder_with_nonce ''agent'' 7) 1 5) s \<and> length (sy_built s) = 2 \<and>
     dropped_batches (sy_queue s) = 1 \<and> length (missing s) \<le> 1 \<and> distinct (map b_batch_id (sy_built s))"
proof -
  from tight_run obtain s where s: "system_reachable (system_start (builder_with_nonce ''agent'' 7) 1 5) s"
    "sy_built s = [tight_batch 0, tight_batch 1]" "dropped_batches (sy_queue s) = 1" by blast
  have "length (sy_built s) < 2 ^ 64" using s(2) by simp
  from no_batch_lost_silently [OF s(1) this] s show ?thesis by (intro exI [of _ s]) simp
qed

end
