(* ===== verification/Agent_Progress.thy ===== *)
theory Agent_Progress
  imports Agent_System
begin

text \<open>
  What an agent and an aggregator achieve over the unreliable network of \<open>Agent_System\<close>: what the store holds of the agent is
  exactly a selection of the batches the agent has built, each once and unchanged; and from every reachable state
  the queue can still be emptied, with everything it held committed.
\<close>

section \<open>What the store holds\<close>

text \<open>\<open>holds_log b0 capacity s bs\<close>: the store is the result of committing \<open>bs\<close>, and those of the agent in it are its own.\<close>

definition holds_log :: "batch_builder \<Rightarrow> nat \<Rightarrow> system \<Rightarrow> metric_batch list \<Rightarrow> bool" where
  "holds_log b0 capacity s bs \<longleftrightarrow>
     commit_all commit_batch bs (new_store capacity) = (map (\<lambda>b. Inr Committed) bs, sy_store s) \<and>
     (\<forall>b \<in> set bs. (\<exists>j. b_batch_id b = batch_id_of b0 j) \<longrightarrow> b \<in> set (sy_built s))"

lemma committed_all: "committed_batches bs (map (\<lambda>b. Inr Committed) bs) = bs"
  by (induction bs) simp_all

text \<open>A batch that reaches the store, from the agent or from another one.\<close>

lemma holds_commit:
  assumes "holds_log b0 capacity s bs" "commit_batch (sy_store s) b = (r, st)" "sy_store s' = st" "sy_built s' = sy_built s"
    "(\<exists>j. b_batch_id b = batch_id_of b0 j) \<longrightarrow> b \<in> set (sy_built s)"
  shows "\<exists>bs'. holds_log b0 capacity s' bs'"
proof (cases "r = Inr Committed")
  case True
  with assms have "holds_log b0 capacity s' (bs @ [b])" by (auto simp: holds_log_def intro: commit_all_snoc)
  then show ?thesis by blast
next
  case False
  with commit_unchanged [OF assms(2)] assms(1,3,4) have "holds_log b0 capacity s' bs" by (simp add: holds_log_def)
  then show ?thesis by blast
qed

lemma holds_step:
  assumes "system_inv b0 n s" "system_step s s'" "holds_log b0 capacity s bs"
  shows "\<exists>bs'. holds_log b0 capacity s' bs'"
proof -
  have net: "sy_net s \<subseteq> set (sy_built s)"
    and bi: "sy_builder s = b0\<lparr>bb_next_sequence := bb_next_sequence b0 + of_nat (length (sy_built s))\<rparr>"
    using assms(1) by (simp_all add: system_inv_def)
  from assms(2) show ?thesis
  proof cases
    case (arrived b r st)
    then show ?thesis using net by (intro holds_commit [OF assms(3) arrived(3)]) auto
  next
    case (other_agent b r st)
    have "b_batch_id b \<noteq> batch_id_of b0 j" for j
      using other_agent(2) batch_id_of_ahead [of b0 j "length (sy_built s)"] unfolding bi batch_id_of_cong by metis
    then show ?thesis using other_agent(1) by (intro holds_commit [OF assms(3) other_agent(3)]) auto
  qed (use assms(3) in \<open>auto simp: holds_log_def\<close>)
qed

lemma reachable_holds:
  assumes "system_reachable (system_start b0 qcap capacity) s" "length (sy_built s) \<le> 2 ^ 64"
  shows "\<exists>bs. holds_log b0 capacity s bs"
  using assms
proof induction
  case system_initial
  have "holds_log b0 capacity (system_start b0 qcap capacity) []" by (simp add: holds_log_def system_start_def)
  then show ?case by blast
next
  case (system_next s s')
  have small: "length (sy_built s) \<le> 2 ^ 64" using step_built [OF system_next.hyps(2)] system_next.prems by linarith
  obtain n where "system_inv b0 n s" using reachable_inv [OF system_next.hyps(1) small] by blast
  then show ?case using holds_step system_next.IH [OF small] system_next.hyps(2) by blast
qed

section \<open>Emptying the queue\<close>

lemma step_valid:
  "system_step s s' \<Longrightarrow> \<forall>b \<in> set (sy_built s). validate_batch b = None \<Longrightarrow> \<forall>b \<in> set (sy_built s'). validate_batch b = None"
  by (cases rule: system_step.cases) (auto dest: build_result(3))

lemma reachable_valid:
  "system_reachable (system_start b0 qcap capacity) s \<Longrightarrow> \<forall>b \<in> set (sy_built s). validate_batch b = None"
proof (induction rule: system_reachable.induct)
  case system_initial
  then show ?case by (simp add: system_start_def)
next
  case (system_next s s')
  then show ?case using step_valid by blast
qed

text \<open>A store with event IDs left takes a valid batch.\<close>

lemma commit_accepted:
  assumes "store_ok st" "validate_batch b = None" "st_current_event_id st + int (length (b_metrics b)) \<le> int64_max"
  shows "\<exists>out st'. commit_batch st b = (Inr out, st') \<and> b_batch_id b \<in> committed_batch_ids st' \<and>
    st_current_event_id st' \<le> st_current_event_id st + int (length (b_metrics b))"
proof (cases rule: commit_batch_cases [of b st])
  case (committed staged next_id)
  let ?st' = "snd (commit_batch st b)"
  obtain hist where log: "store_log st hist" using assms(1) by (auto simp: store_ok_def)
  have c: "commit_batch st b = (Inr Committed, ?st')" using committed(5) by simp
  from commit_committed_log [OF log c] log
  have "b_batch_id b \<in> committed_batch_ids ?st'" "st_current_event_id ?st' = st_current_event_id st + int (length (b_metrics b))"
    by (simp_all add: store_log_def)
  then have "b_batch_id b \<in> committed_batch_ids ?st' \<and> st_current_event_id ?st' \<le> st_current_event_id st + int (length (b_metrics b))"
    by linarith
  with c show ?thesis by blast
qed (use assms in auto)

text \<open>The batch at the head of the queue is sent, arrives, and is acknowledged.\<close>

lemma deliver_head:
  assumes inv: "system_inv b0 n s" and small: "length (sy_built s) \<le> 2 ^ 64" and held: "held (sy_queue s) = b # bs"
    and valid: "validate_batch b = None" and room: "st_current_event_id (sy_store s) + int (length (b_metrics b)) \<le> int64_max"
  shows "\<exists>s'. system_step\<^sup>*\<^sup>* s s' \<and> held (sy_queue s') = bs \<and> sy_built s' = sy_built s \<and>
    b_batch_id b \<in> committed_batch_ids (sy_store s') \<and>
    committed_batch_ids (sy_store s) \<subseteq> committed_batch_ids (sy_store s') \<and>
    q_dropped (sy_queue s') = q_dropped (sy_queue s) \<and>
    st_current_event_id (sy_store s') \<le> st_current_event_id (sy_store s) + int (length (b_metrics b))"
proof -
  have q: "queue_inv (sy_queue s)" and st: "store_ok (sy_store s)" using inv by (simp_all add: system_inv_def)
  let ?s1 = "s\<lparr>sy_queue := reset_in_flight (sy_queue s)\<rparr>"
  have q1: "queue_inv (sy_queue ?s1)" "held (sy_queue ?s1) = b # bs" "waiting (sy_queue ?s1) = b # bs"
    "q_dropped (sy_queue ?s1) = q_dropped (sy_queue s)"
    using reset_held [OF q] queue_spec_parts(3) [OF q] held by (simp_all add: held_def)
  obtain q2 where m: "mark_next_in_flight (sy_queue ?s1) = (Some b, q2)"
    using queue_spec_parts(2) [OF q1(1,3)] by (cases "mark_next_in_flight (sy_queue ?s1)") auto
  let ?s2 = "?s1\<lparr>sy_queue := q2, sy_net := insert b (sy_net ?s1)\<rparr>"
  have q2: "queue_inv q2" "held q2 = b # bs" "q_dropped q2 = q_dropped (sy_queue s)"
    using mark_held [OF q1(1) m] q1(2,4) by simp_all
  obtain out st' where c: "commit_batch (sy_store ?s2) b = (Inr out, st')" "b_batch_id b \<in> committed_batch_ids st'"
    "st_current_event_id st' \<le> st_current_event_id (sy_store s) + int (length (b_metrics b))"
    using commit_accepted [OF st valid room] by auto
  let ?a = "\<lparr>ack_batch_id = b_batch_id b, ack_duplicate = (out = Duplicate)\<rparr>"
  let ?s3 = "?s2\<lparr>sy_store := st', sy_acks := sy_acks ?s2 \<union> acks_of b (Inr out)\<rparr>"
  obtain found q4 where a: "acknowledge (sy_queue ?s3) (ack_batch_id ?a) = (found, q4)" by fastforce
  have "system_step\<^sup>*\<^sup>* s ?s1" by (rule r_into_rtranclp, rule disconnected)
  moreover have "system_step\<^sup>*\<^sup>* ?s1 ?s2" by (rule r_into_rtranclp, rule sent [OF m])
  moreover have "system_step\<^sup>*\<^sup>* ?s2 ?s3" by (rule r_into_rtranclp, rule arrived [OF _ c(1)]) simp
  moreover have "system_step\<^sup>*\<^sup>* ?s3 (?s3\<lparr>sy_queue := q4\<rparr>)" by (rule r_into_rtranclp, rule acknowledged [OF _ a]) simp
  ultimately have steps: "system_step\<^sup>*\<^sup>* s (?s3\<lparr>sy_queue := q4\<rparr>)"
    by (rule rtranclp_trans [OF rtranclp_trans [OF rtranclp_trans]])
  have "held q4 = filter (\<lambda>x. b_batch_id x \<noteq> b_batch_id b) (b # bs)" "q_dropped q4 = q_dropped (sy_queue s)"
    using acknowledge_held [OF q2(1), of "b_batch_id b" found q4] a q2 by simp_all
  moreover have "distinct (map b_batch_id (b # bs))"
    using q2(1,2) unfolding held_def queue_inv_def by (metis entries_simps(2))
  then have "filter (\<lambda>x. b_batch_id x \<noteq> b_batch_id b) bs = bs" by (auto simp: filter_id_conv image_iff)
  ultimately show ?thesis
    using steps c(2,3) commit_ids [OF st, of b "Inr out" st'] c(1) by (intro exI [of _ "?s3\<lparr>sy_queue := q4\<rparr>"]) simp
qed

text \<open>And so on to the last one.\<close>

lemma steps_inv:
  assumes "system_step\<^sup>*\<^sup>* s s'" "system_inv b0 n s" "sy_built s' = sy_built s" "length (sy_built s) \<le> 2 ^ 64"
  shows "\<exists>n'. system_inv b0 n' s'"
proof -
  have "length (sy_built s) \<le> length (sy_built s'') \<and> (length (sy_built s'') \<le> 2 ^ 64 \<longrightarrow> (\<exists>n'. system_inv b0 n' s''))"
    if "system_step\<^sup>*\<^sup>* s s''" for s''
    using that
  proof (induction rule: rtranclp_induct)
    case base
    show ?case using assms(2) by blast
  next
    case (step s1 s2)
    have "length (sy_built s1) \<le> length (sy_built s2)" by (rule step_built [OF step.hyps(2)])
    then show ?case using step.IH step_inv [OF _ step.hyps(2)] by force
  qed
  from this [OF assms(1)] show ?thesis using assms(3,4) by simp
qed

lemma deliver_all:
  assumes "system_inv b0 n s" "length (sy_built s) \<le> 2 ^ 64" "held (sy_queue s) = bs" "\<forall>b \<in> set bs. validate_batch b = None"
    "st_current_event_id (sy_store s) + int (\<Sum>b \<leftarrow> bs. length (b_metrics b)) \<le> int64_max"
  shows "\<exists>s'. system_step\<^sup>*\<^sup>* s s' \<and> held (sy_queue s') = [] \<and> sy_built s' = sy_built s \<and>
    (\<forall>b \<in> set bs. b_batch_id b \<in> committed_batch_ids (sy_store s')) \<and>
    committed_batch_ids (sy_store s) \<subseteq> committed_batch_ids (sy_store s') \<and>
    q_dropped (sy_queue s') = q_dropped (sy_queue s)"
  using assms
proof (induction bs arbitrary: s n)
  case Nil
  then show ?case by (intro exI [of _ s]) simp
next
  case (Cons b bs)
  have valid: "validate_batch b = None" and room: "st_current_event_id (sy_store s) + int (length (b_metrics b)) \<le> int64_max"
    using Cons.prems(4,5) by simp_all
  from deliver_head [OF Cons.prems(1-3) valid room] obtain s1 where
    s1: "system_step\<^sup>*\<^sup>* s s1" "held (sy_queue s1) = bs" "sy_built s1 = sy_built s" "b_batch_id b \<in> committed_batch_ids (sy_store s1)"
      "committed_batch_ids (sy_store s) \<subseteq> committed_batch_ids (sy_store s1)" "q_dropped (sy_queue s1) = q_dropped (sy_queue s)"
      "st_current_event_id (sy_store s1) \<le> st_current_event_id (sy_store s) + int (length (b_metrics b))" by blast
  obtain n1 where inv1: "system_inv b0 n1 s1" using steps_inv [OF s1(1) Cons.prems(1) s1(3) Cons.prems(2)] by blast
  have rest: "length (sy_built s1) \<le> 2 ^ 64" "\<forall>b \<in> set bs. validate_batch b = None"
    "st_current_event_id (sy_store s1) + int (\<Sum>b \<leftarrow> bs. length (b_metrics b)) \<le> int64_max"
    using Cons.prems(2,4,5) s1(3,7) by simp_all
  from Cons.IH [OF inv1 rest(1) s1(2) rest(2,3)] obtain s2 where s2: "system_step\<^sup>*\<^sup>* s1 s2" "held (sy_queue s2) = []"
    "sy_built s2 = sy_built s1" "\<forall>b \<in> set bs. b_batch_id b \<in> committed_batch_ids (sy_store s2)"
    "committed_batch_ids (sy_store s1) \<subseteq> committed_batch_ids (sy_store s2)" "q_dropped (sy_queue s2) = q_dropped (sy_queue s1)"
    by blast
  have "system_step\<^sup>*\<^sup>* s s2" by (rule rtranclp_trans [OF s1(1) s2(1)])
  then show ?case using s1 s2 by (intro exI [of _ s2]) auto
qed

section \<open>Properties\<close>

text \<open>
  C7: What the store holds of the agent is exactly what it built. In every reachable state of the system, whatever was repeated,
  reordered or lost, the store is the result of committing a sequence of batches with pairwise different IDs, all successful, and those
  in it that carry an ID of the agent are batches the agent has built, unchanged; so every event the store has
  assigned belongs to one metric of one of them.
\<close>

theorem committed_content_exact:
  assumes "system_reachable (system_start b queue_capacity store_capacity) s" "length (sy_built s) < 2 ^ 64"
  shows "\<exists>bs. commit_all commit_batch bs (new_store store_capacity) = (map (\<lambda>x. Inr Committed) bs, sy_store s) \<and>
    distinct (map b_batch_id bs) \<and> committed_batch_ids (sy_store s) = b_batch_id ` set bs \<and>
    filter (\<lambda>x. \<exists>j. b_batch_id x = batch_id_of b j) bs = filter (\<lambda>x. x \<in> set (sy_built s)) bs \<and>
    current_event_id (sy_store s) = Inr (int (\<Sum>x \<leftarrow> bs. length (b_metrics x)))"
proof -
  have small: "length (sy_built s) \<le> 2 ^ 64" using assms(2) by simp
  from reachable_holds [OF assms(1) small] obtain bs where holds: "holds_log b store_capacity s bs" by blast
  then have c: "commit_all commit_batch bs (new_store store_capacity) = (map (\<lambda>x. Inr Committed) bs, sy_store s)"
    by (simp add: holds_log_def)
  note once = commit_all_once [OF store_ok_new c, unfolded committed_all]
  obtain n where "system_inv b n s" using reachable_inv [OF assms(1) small] by blast
  then have "map b_batch_id (sy_built s) = map (batch_id_of b) [0..<length (sy_built s)]" by (simp add: system_inv_def)
  then have "b_batch_id ` set (sy_built s) = batch_id_of b ` {0..<length (sy_built s)}" by (metis list.set_map set_upt)
  then have own: "\<exists>j. b_batch_id x = batch_id_of b j" if "x \<in> set (sy_built s)" for x using that by blast
  have "filter (\<lambda>x. \<exists>j. b_batch_id x = batch_id_of b j) bs = filter (\<lambda>x. x \<in> set (sy_built s)) bs"
    by (rule filter_cong [OF refl]) (use holds own in \<open>auto simp: holds_log_def\<close>)
  moreover have "length (committed_log bs (map (\<lambda>x. Inr Committed) bs)) = (\<Sum>x \<leftarrow> bs. length (b_metrics x))"
    unfolding committed_log_batches committed_all by (simp add: length_concat comp_def)
  then have "current_event_id (sy_store s) = Inr (int (\<Sum>x \<leftarrow> bs. length (b_metrics x)))"
    using commit_all_log [OF new_store_log c] by (simp add: store_log_def current_event_id_def)
  ultimately show ?thesis using c once by (intro exI [of _ bs]) (simp add: new_store_def)
qed

theorem committed_content_exact_witness:
  "\<exists>s bs. system_reachable (system_start (builder_with_nonce ''agent'' 7) 1 5) s \<and> length (sy_built s) = 2 \<and>
     commit_all commit_batch bs (new_store 5) = (map (\<lambda>x. Inr Committed) bs, sy_store s) \<and> bs \<noteq> []"
proof -
  from tight_run obtain s where s: "system_reachable (system_start (builder_with_nonce ''agent'' 7) 1 5) s"
    "sy_built s = [tight_batch 0, tight_batch 1]" "b_batch_id (tight_batch 1) \<in> committed_batch_ids (sy_store s)" by blast
  have "length (sy_built s) < 2 ^ 64" using s(2) by simp
  from committed_content_exact [OF s(1) this] obtain bs where
    "commit_all commit_batch bs (new_store 5) = (map (\<lambda>x. Inr Committed) bs, sy_store s)"
    "committed_batch_ids (sy_store s) = b_batch_id ` set bs" by blast
  with s show ?thesis by (intro exI [of _ s] exI [of _ bs]) auto
qed

text \<open>
  C8: Delivery can always be finished. From every reachable state of the system there is a continuation, in which the agent
  resets, sends and receives acknowledgements, that empties the queue with every batch it held committed and none dropped, as long as
  the store has event IDs left for their metrics. No state is a dead end, whatever was lost before.
\<close>

theorem delivery_can_finish:
  assumes "system_reachable (system_start b queue_capacity store_capacity) s" "length (sy_built s) < 2 ^ 64"
    "st_current_event_id (sy_store s) + int (\<Sum>x \<leftarrow> held (sy_queue s). length (b_metrics x)) \<le> int64_max"
  shows "\<exists>s'. system_step\<^sup>*\<^sup>* s s' \<and> queue_size (sy_queue s') = 0 \<and> sy_built s' = sy_built s \<and>
    dropped_batches (sy_queue s') = dropped_batches (sy_queue s) \<and>
    (\<forall>x \<in> set (held (sy_queue s)). b_batch_id x \<in> committed_batch_ids (sy_store s')) \<and>
    length (missing s') \<le> unat (dropped_batches (sy_queue s'))"
proof -
  have small: "length (sy_built s) \<le> 2 ^ 64" using assms(2) by simp
  obtain n where inv: "system_inv b n s" using reachable_inv [OF assms(1) small] by blast
  then have "set (held (sy_queue s)) \<subseteq> set (sy_built s)" by (simp add: system_inv_def)
  then have valid: "\<forall>x \<in> set (held (sy_queue s)). validate_batch x = None" using reachable_valid [OF assms(1)] by blast
  from deliver_all [OF inv small refl valid assms(3)] obtain s' where
    s': "system_step\<^sup>*\<^sup>* s s'" "held (sy_queue s') = []" "sy_built s' = sy_built s"
      "\<forall>x \<in> set (held (sy_queue s)). b_batch_id x \<in> committed_batch_ids (sy_store s')"
      "q_dropped (sy_queue s') = q_dropped (sy_queue s)" by blast
  obtain n' where inv': "system_inv b n' s'" using steps_inv [OF s'(1) inv s'(3) small] by blast
  then have "queue_inv (sy_queue s')" by (simp add: system_inv_def)
  then have "queue_size (sy_queue s') = length (held (sy_queue s'))"
    by (rule queue_invE) (simp add: queue_size_def held_def)
  moreover have "n' < 2 ^ 64" using inv' assms(2) s'(3) by (simp add: system_inv_def)
  then have "length (missing s') \<le> unat (dropped_batches (sy_queue s'))"
    using inv' by (simp add: system_inv_def dropped_batches_def unat_of_nat take_bit_nat_eq_self)
  ultimately show ?thesis using s' by (intro exI [of _ s']) (simp add: dropped_batches_def)
qed

theorem delivery_can_finish_witness:
  "\<exists>s s'. system_reachable (system_start (builder_with_nonce ''agent'' 7) 1 5) s \<and> queue_size (sy_queue s) = 1 \<and>
     system_step\<^sup>*\<^sup>* s s' \<and> queue_size (sy_queue s') = 0 \<and> b_batch_id (tight_batch 0) \<in> committed_batch_ids (sy_store s')"
proof -
  let ?s = "tight_system 1 0 [\<lparr>pb_batch = tight_batch 0, in_flight = False\<rparr>]"
  have parts: "length (sy_built ?s) = 1" "held (sy_queue ?s) = [tight_batch 0]" "queue_size (sy_queue ?s) = 1"
    "st_current_event_id (sy_store ?s) = 0" "length (b_metrics (tight_batch 0)) = 1"
    by (simp_all add: tight_system_def held_def outstanding_def waiting_def queue_size_def new_store_def tight_batch_def)
  have "length (sy_built ?s) < 2 ^ 64" using parts(1) by simp
  moreover have "st_current_event_id (sy_store ?s) + int (\<Sum>x \<leftarrow> held (sy_queue ?s). length (b_metrics x)) \<le> int64_max"
    unfolding parts(2,4) by (simp add: tight_batch_def int64_max_def)
  ultimately obtain s' where "system_step\<^sup>*\<^sup>* ?s s'" "queue_size (sy_queue s') = 0"
    "\<forall>x \<in> set (held (sy_queue ?s)). b_batch_id x \<in> committed_batch_ids (sy_store s')"
    using delivery_can_finish [OF tight_first] by blast
  with tight_first parts(2,3) show ?thesis by (intro exI [of _ ?s] exI [of _ s']) simp
qed

end
