(* ===== verification/Spec2Isabelle.thy ===== *)
theory Spec2Isabelle
  imports Sample_Pipeline Paging Agent_Config Synthetic_Collector Store_Concurrency Queue_Concurrency Builder_Concurrency Agent_Progress
begin

text \<open>
  A verification development for PulseMesh, a small metrics system: an agent collects samples, builds them
  into uniquely identified batches and keeps these in a bounded retry queue; an aggregator commits
  batches to a time-series store and answers range, latest and event queries. All the C++ code that is not a test is
  modelled, component by component: the definitions of a component are translations of its types, constants and
  functions under the same names, and the specifications they are compared with are introduced as such.

  \<^bold>\<open>The program and the theories.\<close>

  \<^item> Shared vocabulary. \<open>Prelude\<close>: fixed-width ranges, \<open>std::expected\<close> as a sum, \<open>find_if\<close> and \<open>erase\<close> on lists.
    \<open>Cxx_Double\<close>: the type \<open>double\<close> as binary64 with rounding to nearest even (an executable model on integers, with the
    theorem that every operation rounds the exact real result). \<open>Cxx_Text\<close>: \<open>std::to_string\<close>, hexadecimal output,
    \<open>std::from_chars\<close>, and extraction from \<open>std::istringstream\<close> with its error bits. \<open>Cxx_Algorithm\<close>:
    \<open>std::lower_bound\<close> and \<open>std::upper_bound\<close> as the halving loop, and their meaning on ordered sequences.
    \<open>Wire\<close>: the protobuf messages of \<open>proto/metrics.proto\<close> that the code uses, as records.

  \<^item> \<open>Pending_Batch_Queue\<close>: \<open>PendingBatchQueue\<close> (\<open>cpp/client/impl/pending_batch_queue\<close>). The list of entries with their
    in-flight flags, \<open>enqueue\<close>, \<open>mark_next_in_flight\<close>, \<open>acknowledge\<close>, \<open>reset_in_flight\<close> and the two counters.
    A run is a sequence of whole operations: the relations \<open>queue_step\<close> and \<open>queue_run\<close>. The queue refines a
    specification of two FIFO lists, outstanding and waiting batches.

  \<^item> \<open>Monitor\<close>, \<open>Queue_Concurrency\<close>, \<open>Store_Concurrency\<close>, \<open>Builder_Concurrency\<close>: why whole operations are enough. The code of the queue and of
    the store is translated a second time, access by access (\<open>queue_access\<close>, \<open>commit_step\<close>, \<open>query_step\<close>), for any number
    of threads around the mutex of the queue and the shared mutex of the store, with exceptions wherever memory can run out
    inside a critical section. Every interleaving is equal to a sequence of whole operations; the counter of dropped
    batches, which is read without the mutex, is never more than one ahead; and every step of the thread that holds
    the mutex of the queue releases it or brings it closer to that. An operation that throws counts with its partial effect. \<open>Monitor\<close> proves this once for any object behind one mutex (the locale \<open>guarded_object\<close>).
    The builder has no mutex, only an atomic counter; its builds interleave around the \<open>fetch_add\<close>, and
    each batch returned is still that of a whole build, with an ID of its own.

  \<^item> \<open>Store_Interface\<close>: \<open>ITimeSeriesStore\<close> (\<open>cpp/aggregator/i_time_series_store.h\<close>), its outcome and error types and its
    contract as the locales \<open>batch_store\<close> and \<open>event_source\<close>.

  \<^item> \<open>Memory_Store\<close>, \<open>Page_Token\<close>, \<open>Store_Queries\<close>, \<open>Paging\<close>, \<open>Event_Stream\<close>: \<open>InMemoryTimeSeriesStore\<close>
    (\<open>cpp/aggregator/impl/in_memory_time_series_store\<close>). The commit with its staging loop and bounded ordered
    insertion; the codec of the continuation tokens; the range query with filters, aggregates
    and pages; the latest query; the event replay. The relation \<open>store_log\<close> is the abstraction: a reachable
    store is determined by the log of committed metrics. \<open>Store_Queries\<close> and \<open>Event_Stream\<close> state each query against that
    log, \<open>Paging\<close> proves that a chain of pages always ends. The store interprets both locales. Pages and event streams are exact
    as long as the samples they are about are not evicted, and lose nothing else.

  \<^item> \<open>Batch_Builder\<close>: \<open>BatchBuilder\<close> (\<open>cpp/client/impl/batch_builder\<close>), validation and the identity
    client-nonce-sequence.

  \<^item> \<open>Agent_Config\<close>: \<open>parse_agent_config\<close> (\<open>cpp/client/impl/agent_config\<close>), the whole command-line parser.

  \<^item> \<open>Metric_Collector\<close>: \<open>IMetricCollector\<close> (\<open>cpp/client/i_metric_collector.h\<close>) as the locale \<open>metric_collector\<close>, interpreted
    by \<open>Synthetic_Collector\<close> (\<open>SyntheticMetricCollector\<close>) and \<open>Proc_Collector\<close> (\<open>ProcMetricCollector\<close>: both parsers and
    \<open>collect\<close> with its CPU baseline). \<open>Cpu_Line\<close> describes the first line of \<open>/proc/stat\<close>, with numbers that fit and numbers that
    do not, and what the parser makes of it; \<open>Proc_Properties\<close> describes the memory table and states what the collector
    returns for the two files, and how its baseline moves from call to call.

  \<^item> \<open>Collector_Smoke\<close>: the program \<open>cpp/client/collector_smoke.cpp\<close>, collector, builder and queue composed.

  \<^item> \<open>Delivery\<close> and \<open>Sample_Pipeline\<close>: what the components guarantee together, the retry queue with the store
    (the locale \<open>delivery\<close> joins \<open>keyed_retry_source\<close> and \<open>batch_store\<close>), and the collector with the builder, the
    store and the latest query.

  \<^item> \<open>Agent_System\<close>: builder, queue and store with a network between them that delays, repeats, reorders and loses
    messages, and other agents on the same store. The repository has no sender yet, so a sender is any order of
    the operations. Every batch built is queued, committed or counted as dropped. \<open>Agent_Progress\<close>: what the store holds of the
    agent is exactly what it built, each batch at most once; and from every reachable state the queue can still be
    emptied with everything committed.

  \<^bold>\<open>Representation.\<close> \<open>std::uint64_t\<close> and \<open>std::uint32_t\<close> whose arithmetic may wrap are words of that width;
  \<open>std::int64_t\<close> is an \<open>int\<close> whose bounds are proved or checked where the code checks them; a time point
  is an \<open>int\<close> of nanoseconds. A hash map is an association list of distinct keys whose order stands for the
  unspecified iteration order; no theorem depends on it. Every \<open>return std::unexpected\<close> is a branch to \<open>Inl\<close>.

  \<^bold>\<open>What the lemmas show.\<close> For each stateful component an invariant of the reachable states and its preservation; for
  each operation its result on every branch; refinement of the queue and of the store to their specifications;
  idempotent commits, exactly-once delivery under lost acknowledgements and no silent loss of a batch;
  linearizability of queue and store and the effect of exceptions; exact pagination, aggregation
  and replay; round trips of the tokens and of the command line; uniqueness of batch identities; exactness
  and bounds of the collected values; and concrete runs of the surprising behaviours (evictions between two
  pages, an average that overflows, CPU lines that should have been refused).

  \<^bold>\<open>Bounds and fuel.\<close> No definition uses fuel: all recursions are structural or have a proved measure. A commit makes at most
  two accesses per metric and four more, an operation of the queue at most six, or one per entry and one more for a reset. A client that
  follows pages or polls events is given one state of the store per request; \<open>pagination_exact\<close> and
  \<open>paging_terminates\<close> state how many requests are enough. Batch identities are unique for \<open>2 ^ 64\<close> builds of a session;
  integer aggregates are exact while the running sum is below \<open>2 ^ 53\<close>; percentages are exact up to one rounding for counters and sizes
  below \<open>2 ^ 46\<close> units.

  \<^bold>\<open>Parameters.\<close> The source reader of the proc collector (in the code a parameter, too), the file system behind the
  default reader, the clock, the random device and the outside world during the sleep of the smoke program are arguments. The compiler is assumed to evaluate \<open>double\<close> expressions as written, with
  rounding to nearest and without contracting them.

  \<^bold>\<open>Not modelled.\<close> The messages \<open>ClientConfig\<close>
  and \<open>StreamResponse\<close> and the gRPC service, which no C++ code implements or uses; weak memory (a mutex and a sequentially
  consistent atomic make the accesses of all threads one sequence); the fairness of the mutexes; memory exhaustion outside the critical sections of queue and store, where
  it changes nothing shared; the generated Python code, the build files and
  scripts; the tests, whose examples the theorems state in general.
\<close>

end
